(* ===== verification/Prelude.thy ===== *)
theory Prelude
  imports Main "HOL-Library.Word" "HOL-Library.Multiset"
begin

text \<open>
  Names and generic facts shared by the components: the machine types of the C++ code,
  reading and writing one cell of a table of rows, and sums over the cells of a table.
\<close>

unbundle bit_operations_syntax

section \<open>Machine types\<close>

type_synonym u8 = "8 word"
type_synonym u16 = "16 word"
type_synonym u32 = "32 word"
type_synonym u64 = "64 word"

text \<open>A \<open>std::string\<close> is its sequence of bytes; fingerprints are binary strings.\<close>

type_synonym bytes = "u8 list"

section \<open>Facts on words\<close>

named_theorems word_range

lemma unat_lt_numerals [word_range]:
  "unat (x8 :: u8) < 256" "unat (x16 :: u16) < 65536" "unat (x32 :: u32) < 4294967296"
  using unsigned_less [of x8, where ?'a = nat] unsigned_less [of x16, where ?'a = nat]
    unsigned_less [of x32, where ?'a = nat]
  by simp_all

lemma unat_mod_less:
  fixes m :: u32
  assumes "m \<noteq> 0"
  shows "unat (x mod m) < unat m"
  using assms by (simp add: unat_mod unat_gt_0)

lemma xorshift_inject:
  fixes x y :: "'a::len word"
  assumes "0 < k" and eq: "x XOR drop_bit k x = y XOR drop_bit k y"
  shows "x = y"
proof (rule bit_word_eqI)
  fix n
  assume "n < LENGTH('a)"
  then show "bit x n = bit y n"
  proof (induction "LENGTH('a) - n" arbitrary: n rule: less_induct)
    case less
    have "bit (x XOR drop_bit k x) n = bit (y XOR drop_bit k y) n"
      by (simp only: eq)
    then have step: "(bit x n \<noteq> bit x (k + n)) = (bit y n \<noteq> bit y (k + n))"
      by (simp add: bit_xor_iff bit_drop_bit_eq)
    show ?case
    proof (cases "k + n < LENGTH('a)")
      case True
      have "bit x (k + n) = bit y (k + n)"
        by (rule less.hyps) (use True \<open>0 < k\<close> less.prems in auto)
      with step show ?thesis by blast
    next
      case False
      then have "\<not> bit x (k + n)" "\<not> bit y (k + n)"
        by (simp_all add: bit_iff_odd_drop_bit impossible_bit)
      with step show ?thesis by blast
    qed
  qed
qed

lemma mult_unit_inject:
  fixes a b :: "'a::comm_semiring_1"
  assumes "b * a = 1" and "a * x = a * y"
  shows "x = y"
  by (metis assms mult.assoc mult_1)

section \<open>One cell of a table of rows\<close>

definition cell :: "'a list list \<Rightarrow> nat \<Rightarrow> nat \<Rightarrow> 'a" where
  "cell t b i = t ! b ! i"

definition put_cell :: "'a list list \<Rightarrow> nat \<Rightarrow> nat \<Rightarrow> 'a \<Rightarrow> 'a list list" where
  "put_cell t b i x = t[b := (t ! b)[i := x]]"

text \<open>\<open>rect n m t\<close>: \<open>n\<close> rows of \<open>m\<close> cells, the shape of a \<open>vector\<close> of fixed-size arrays.\<close>

definition rect :: "nat \<Rightarrow> nat \<Rightarrow> 'a list list \<Rightarrow> bool" where
  "rect n m t \<longleftrightarrow> length t = n \<and> (\<forall>r \<in> set t. length r = m)"

lemma rect_replicate [simp]: "rect n m (replicate n (replicate m x))"
  by (auto simp: rect_def)

lemma rect_length [dest]: "rect n m t \<Longrightarrow> length t = n"
  by (simp add: rect_def)

lemma rect_row: "rect n m t \<Longrightarrow> b < n \<Longrightarrow> length (t ! b) = m"
  by (auto simp: rect_def)

lemma rect_put_cell [simp]: "rect n m t \<Longrightarrow> rect n m (put_cell t b i x)"
proof (cases "b < length t")
  case True
  assume "rect n m t"
  with True show ?thesis
    by (auto simp: rect_def put_cell_def dest: set_update_subset_insert [THEN subsetD])
next
  case False
  assume "rect n m t"
  with False show ?thesis
    by (simp add: put_cell_def list_update_beyond)
qed

lemma cell_replicate [simp]:
  "b < n \<Longrightarrow> i < m \<Longrightarrow> cell (replicate n (replicate m x)) b i = x"
  by (simp add: cell_def)

lemma cell_put_cell:
  assumes "rect n m t" "b < n" "i < m"
  shows "cell (put_cell t b i x) b' i' = (if b' = b \<and> i' = i then x else cell t b' i')"
  using assms rect_row [OF assms(1,2)]
  by (auto simp: cell_def put_cell_def rect_def nth_list_update)

lemma put_cell_id: "rect n m t \<Longrightarrow> b < n \<Longrightarrow> i < m \<Longrightarrow> put_cell t b i (cell t b i) = t"
  by (simp add: put_cell_def cell_def)

lemma put_cell_twice [simp]: "put_cell (put_cell t b i x) b i y = put_cell t b i y"
  by (cases "b < length t") (simp_all add: put_cell_def list_update_beyond)

lemma put_cell_swap:
  "b \<noteq> b' \<Longrightarrow> put_cell (put_cell t b i x) b' i' y = put_cell (put_cell t b' i' y) b i x"
  by (simp add: put_cell_def list_update_swap)

section \<open>Sums over the cells of a table\<close>

text \<open>
  \<open>cell_sum n m g t\<close> adds \<open>g b i x\<close> over the cells \<open>x\<close> of the first \<open>n\<close> rows and \<open>m\<close>
  columns. Every table operation of the filters writes single cells, so its effect on such
  a sum follows from \<open>cell_sum_put\<close>.
\<close>

definition cell_sum :: "nat \<Rightarrow> nat \<Rightarrow> (nat \<Rightarrow> nat \<Rightarrow> 'a \<Rightarrow> 'b::comm_monoid_add) \<Rightarrow> 'a list list \<Rightarrow> 'b" where
  "cell_sum n m g t = (\<Sum>(b, i) \<in> {..<n} \<times> {..<m}. g b i (cell t b i))"

lemma cell_sum_remove:
  assumes "b < n" "i < m"
  shows "cell_sum n m g t =
    g b i (cell t b i) + (\<Sum>(b', i') \<in> {..<n} \<times> {..<m} - {(b, i)}. g b' i' (cell t b' i'))"
proof -
  have "(b, i) \<in> {..<n} \<times> {..<m}" using assms by simp
  then show ?thesis
    unfolding cell_sum_def by (subst sum.remove [of _ "(b, i)"]) auto
qed

lemma cell_sum_put:
  assumes "rect n m t" "b < n" "i < m"
  shows "cell_sum n m g (put_cell t b i x) + g b i (cell t b i) = cell_sum n m g t + g b i x"
proof -
  have rest: "(\<Sum>(b', i') \<in> {..<n} \<times> {..<m} - {(b, i)}. g b' i' (cell (put_cell t b i x) b' i')) =
      (\<Sum>(b', i') \<in> {..<n} \<times> {..<m} - {(b, i)}. g b' i' (cell t b' i'))"
    by (rule sum.cong) (auto simp: cell_put_cell [OF assms] split: if_splits)
  show ?thesis
    unfolding cell_sum_remove [OF assms(2,3)] rest
    by (simp add: cell_put_cell [OF assms] ac_simps)
qed

lemma in_cell_sum_iff:
  fixes g :: "nat \<Rightarrow> nat \<Rightarrow> 'a \<Rightarrow> 'c multiset"
  shows "z \<in># cell_sum n m g t \<longleftrightarrow> (\<exists>b < n. \<exists>i < m. z \<in># g b i (cell t b i))"
  unfolding cell_sum_def by (auto simp: set_mset_sum)

lemma cell_sum_cong:
  assumes "\<And>b i. b < n \<Longrightarrow> i < m \<Longrightarrow> g b i (cell t b i) = h b i (cell t' b i)"
  shows "cell_sum n m g t = cell_sum n m h t'"
  unfolding cell_sum_def by (rule sum.cong) (auto simp: assms)

section \<open>First index satisfying a test\<close>

text \<open>
  The \<open>for\<close> loops over the slots of a bucket that stop at the first hit:
  \<open>first_idx P n\<close> is the least \<open>i < n\<close> with \<open>P i\<close>.
\<close>

definition first_idx :: "(nat \<Rightarrow> bool) \<Rightarrow> nat \<Rightarrow> nat option" where
  "first_idx P n = find P [0..<n]"

lemma first_idx_SomeD: "first_idx P n = Some i \<Longrightarrow> i < n \<and> P i \<and> (\<forall>j < i. \<not> P j)"
  by (auto simp: first_idx_def find_Some_iff)

lemma first_idx_None [simp]: "first_idx P n = None \<longleftrightarrow> (\<forall>i < n. \<not> P i)"
  by (auto simp: first_idx_def find_None_iff)

lemma first_idx_not_None: "first_idx P n \<noteq> None \<longleftrightarrow> (\<exists>i < n. P i)"
  by simp

lemma first_idx_cong: "(\<And>i. i < n \<Longrightarrow> P i = Q i) \<Longrightarrow> first_idx P n = first_idx Q n"
  unfolding first_idx_def by (rule find_cong) auto

lemma first_idx_0 [simp]: "first_idx P 0 = None"
  by simp

lemma first_idx_Suc:
  "first_idx P (Suc n) = (if P 0 then Some 0 else map_option Suc (first_idx (\<lambda>j. P (Suc j)) n))"
proof -
  have "find P (map Suc xs) = map_option Suc (find (\<lambda>j. P (Suc j)) xs)" for xs
    by (induction xs) auto
  then show ?thesis
    unfolding first_idx_def upt_conv_Cons [OF zero_less_Suc] map_Suc_upt [symmetric] by simp
qed

lemma first_idx_Some_iff: "first_idx P n = Some i \<longleftrightarrow> i < n \<and> P i \<and> (\<forall>j < i. \<not> P j)"
  unfolding first_idx_def find_Some_iff by (auto intro: exI [of _ i])

end
