(* ===== verification/Pointer_Utils.thy ===== *)
theory Pointer_Utils
  imports Prelude
begin

text \<open>
  \<open>pointer_utils.h\<close> and \<open>pointer_utils.cpp\<close>: the 64-bit table pointer that packs a 16-bit
  relocation counter (bits 63..48), a pointer (bits 47..1) and a one-bit mark (bit 0).
  A function that may call \<open>abort\<close> returns an option, \<open>None\<close> for the abort; an update in
  place returns the new value of the reference it is given.
\<close>

unbundle bit_operations_syntax

section \<open>The code\<close>

type_synonym table_pointer = u64

definition counter_mask :: u64 where
  "counter_mask = 0xFFFF000000000000"

definition real_pointer_mask :: u64 where
  "real_pointer_mask = 0xFFFFFFFFFFFE"

definition mark_mask :: u64 where
  "mark_mask = 0x1"

definition UINT16_MAX :: u64 where
  "UINT16_MAX = 65535"

definition get_counter :: "table_pointer \<Rightarrow> u16" where
  "get_counter pointer = ucast (drop_bit 48 (pointer AND counter_mask))"

definition update_counter :: "table_pointer \<Rightarrow> u64 \<Rightarrow> table_pointer option" where
  "update_counter pointer counter_val =
     (if counter_val > UINT16_MAX then None
      else Some ((pointer AND NOT counter_mask) OR push_bit 48 counter_val))"

definition get_new_counter :: "table_pointer \<Rightarrow> u64 \<Rightarrow> table_pointer option" where
  "get_new_counter pointer counter_val =
     (if counter_val > UINT16_MAX then None
      else (let ret = pointer; ret = ret AND NOT counter_mask; ret = ret OR push_bit 48 counter_val
            in Some ret))"

definition get_real_pointer :: "table_pointer \<Rightarrow> u64" where
  "get_real_pointer pointer = pointer AND real_pointer_mask"

definition update_real_pointer :: "table_pointer \<Rightarrow> u64 \<Rightarrow> table_pointer" where
  "update_real_pointer pointer real_pointer =
     (pointer AND NOT real_pointer_mask) OR real_pointer"

definition get_new_real_pointer :: "table_pointer \<Rightarrow> u64 \<Rightarrow> table_pointer" where
  "get_new_real_pointer pointer real_pointer =
     (let ret = pointer; ret = ret AND NOT real_pointer_mask; ret = ret OR real_pointer in ret)"

definition get_marked :: "table_pointer \<Rightarrow> bool" where
  "get_marked pointer \<longleftrightarrow> pointer AND mark_mask \<noteq> 0"

definition update_marked :: "table_pointer \<Rightarrow> bool \<Rightarrow> table_pointer" where
  "update_marked pointer marked = (pointer AND NOT mark_mask) OR of_bool marked"

definition get_new_mark :: "table_pointer \<Rightarrow> bool \<Rightarrow> table_pointer" where
  "get_new_mark pointer marked =
     (let ret = pointer; ret = ret AND NOT mark_mask; ret = ret OR of_bool marked in ret)"

definition create_pointer :: "u64 \<Rightarrow> u64 \<Rightarrow> bool \<Rightarrow> table_pointer option" where
  "create_pointer counter real_pointer marked =
     (if counter > UINT16_MAX then None
      else (let ret = 0; ret = ret OR of_bool marked; ret = ret OR real_pointer;
                ret = ret OR push_bit 48 counter
            in Some ret))"

text \<open>\<open>print_pointer\<close> writes the bits, most significant first, and a newline.\<close>

definition print_pointer :: "table_pointer \<Rightarrow> string" where
  "print_pointer pointer =
     map (\<lambda>i. if bit pointer (63 - i) then CHR ''1'' else CHR ''0'') [0..<64] @ [CHR 0x0A]"

section \<open>Bits of the three fields\<close>

text \<open>
  A pointer value that fits its field: bits 47..1 only. \<open>operator new\<close> returns such
  addresses on x86-64 (48-bit user addresses, aligned).
\<close>

definition fits :: "u64 \<Rightarrow> bool" where
  "fits a \<longleftrightarrow> a AND real_pointer_mask = a"

named_theorems ptr_bits

lemma bit_counter_mask [ptr_bits]: "bit counter_mask n \<longleftrightarrow> 48 \<le> n \<and> n < 64"
proof -
  have eq: "counter_mask = push_bit 48 (mask 16)"
    by (simp add: counter_mask_def mask_eq_exp_minus_1 push_bit_eq_mult)
  show ?thesis by (simp only: eq bit_push_bit_iff bit_mask_iff) auto
qed

lemma bit_real_pointer_mask [ptr_bits]: "bit real_pointer_mask n \<longleftrightarrow> 1 \<le> n \<and> n < 48"
proof -
  have eq: "real_pointer_mask = push_bit 1 (mask 47)"
    by (simp add: real_pointer_mask_def mask_eq_exp_minus_1 push_bit_eq_mult)
  show ?thesis by (simp only: eq bit_push_bit_iff bit_mask_iff) auto
qed

lemma bit_mark_mask [ptr_bits]: "bit mark_mask n \<longleftrightarrow> n = 0"
  by (auto simp: mark_mask_def bit_1_iff)

lemma bit_of_bool_0 [ptr_bits]: "bit (of_bool b :: u64) n \<longleftrightarrow> b \<and> n = 0"
  by (auto simp: bit_of_bool_iff)

lemma fits_bits: "fits a \<longleftrightarrow> (\<forall>n. bit a n \<longrightarrow> 1 \<le> n \<and> n < 48)"
  unfolding fits_def bit_eq_iff [where ?'a = u64] bit_and_iff bit_real_pointer_mask
  by (metis bit_imp_le_length possible_bit_word)

lemma fitsD: "fits a \<Longrightarrow> bit a n \<Longrightarrow> 1 \<le> n \<and> n < 48"
  by (simp add: fits_bits)

lemma ucast_counter_ucast [simp]: "ucast (ucast (c :: u16) :: u64) = c"
  by (rule bit_word_eqI) (auto simp: bit_ucast_iff)

lemma small_counter_bits:
  assumes "c \<le> UINT16_MAX" "bit c n"
  shows "n < 16"
proof -
  have "c = take_bit 16 c"
    using assms(1)
    by (simp add: UINT16_MAX_def word_le_nat_alt word_unat_eq_iff unsigned_take_bit_eq
        take_bit_nat_eq_self)
  with assms(2) show ?thesis by (metis bit_take_bit_iff)
qed


lemma bit_get_counter [ptr_bits]: "bit (get_counter p) n \<longleftrightarrow> n < 16 \<and> bit p (48 + n)"
  by (auto simp: get_counter_def bit_ucast_iff bit_drop_bit_eq bit_and_iff bit_counter_mask)

lemma bit_get_real_pointer [ptr_bits]: "bit (get_real_pointer p) n \<longleftrightarrow> bit p n \<and> 1 \<le> n \<and> n < 48"
  by (auto simp: get_real_pointer_def bit_and_iff bit_real_pointer_mask)

lemma get_marked_bit [ptr_bits]: "get_marked p \<longleftrightarrow> bit p 0"
proof -
  have "p AND mark_mask = of_bool (bit p 0)"
    by (rule bit_word_eqI) (auto simp: bit_and_iff bit_mark_mask bit_of_bool_0)
  then show ?thesis by (simp add: get_marked_def)
qed

lemma fits_get_real_pointer [simp]: "fits (get_real_pointer p)"
  by (simp add: fits_bits bit_get_real_pointer)

lemma fits_0 [simp]: "fits 0"
  by (simp add: fits_bits)

lemma get_real_pointer_fits: "fits a \<Longrightarrow> get_real_pointer a = a"
  by (simp add: fits_def get_real_pointer_def)

lemma ucast_counter_le [simp]: "ucast (c :: u16) \<le> UINT16_MAX"
proof -
  have "unat (ucast c :: u64) = unat c"
    using unat_lt_numerals(2) [of c] by (simp add: unsigned_ucast_eq take_bit_nat_eq_self)
  moreover have "unat c < 65536"
    by (rule unat_lt_numerals)
  ultimately show ?thesis
    by (simp add: UINT16_MAX_def word_le_nat_alt)
qed

lemma ucast_small_counter: "c \<le> UINT16_MAX \<Longrightarrow> ucast (ucast c :: u16) = c"
  by (rule bit_word_eqI) (auto simp: bit_ucast_iff dest: small_counter_bits)

text \<open>A table pointer is determined by its three fields.\<close>

lemma table_pointer_eqI:
  assumes "get_counter p = get_counter q" "get_real_pointer p = get_real_pointer q"
    "get_marked p = get_marked q"
  shows "p = q"
proof (rule bit_word_eqI)
  fix n
  assume "n < LENGTH(64)"
  then consider "n = 0" | "1 \<le> n" "n < 48" | "48 \<le> n" "n - 48 < 16"
    by fastforce
  then show "bit p n = bit q n"
  proof cases
    case 1
    with assms(3) show ?thesis by (simp add: get_marked_bit)
  next
    case 2
    then show ?thesis using assms(2) by (metis bit_get_real_pointer)
  next
    case 3
    then show ?thesis
      using arg_cong [OF assms(1), of "\<lambda>c. bit c (n - 48)"] by (simp add: bit_get_counter)
  qed
qed

section \<open>The three fields as lenses\<close>

text \<open>
  What a packed field promises: a stored value is read back, storing what is there changes
  nothing, and the last store wins. \<open>ok\<close> says which values fit the field.
\<close>

locale packed_field =
  fixes get :: "u64 \<Rightarrow> 'v"
    and put :: "u64 \<Rightarrow> 'v \<Rightarrow> u64"
    and ok :: "'v \<Rightarrow> bool"
  assumes get_put: "ok v \<Longrightarrow> get (put p v) = v"
    and put_get: "put p (get p) = p"
    and put_put: "ok v \<Longrightarrow> ok w \<Longrightarrow> put (put p v) w = put p w"
begin

lemma put_inject: "ok v \<Longrightarrow> ok w \<Longrightarrow> put p v = put p w \<longleftrightarrow> v = w"
  by (metis get_put)

lemma put_noop_iff: "ok v \<Longrightarrow> put p v = p \<longleftrightarrow> get p = v"
  by (metis get_put put_get)

lemma put_undo: "ok v \<Longrightarrow> ok (get p) \<Longrightarrow> put (put p v) (get p) = p"
  by (simp add: put_put put_get)

end

text \<open>Two fields of one word that do not overlap: writing one leaves the other.\<close>

locale disjoint_fields =
  a: packed_field get put ok + b: packed_field get' put' ok'
  for get :: "u64 \<Rightarrow> 'v" and put ok and get' :: "u64 \<Rightarrow> 'w" and put' ok' +
  assumes frame: "ok v \<Longrightarrow> get' (put p v) = get' p"
    and frame': "ok' w \<Longrightarrow> get (put' p w) = get p"
begin

lemma get_put_put: "ok v \<Longrightarrow> ok' w \<Longrightarrow> get (put' (put p v) w) = v"
  by (simp add: frame' a.get_put)

lemma get'_put_put: "ok v \<Longrightarrow> ok' w \<Longrightarrow> get' (put (put' p w) v) = w"
  by (simp add: frame b.get_put)

end

definition put_counter :: "table_pointer \<Rightarrow> u16 \<Rightarrow> table_pointer" where
  "put_counter p c = (p AND NOT counter_mask) OR push_bit 48 (ucast c)"

lemma get_new_counter_put:
  "get_new_counter p v = (if v > UINT16_MAX then None else Some (put_counter p (ucast v)))"
  by (auto simp: get_new_counter_def put_counter_def ucast_small_counter linorder_not_less)

lemma bit_put_counter [ptr_bits]:
  "bit (put_counter p c) n \<longleftrightarrow> (if 48 \<le> n then bit c (n - 48) else bit p n)"
  by (auto simp: put_counter_def bit_or_iff bit_and_iff bit_not_iff bit_push_bit_iff bit_ucast_iff
      bit_counter_mask dest: bit_imp_le_length)

lemma bit_get_new_real_pointer [ptr_bits]:
  "bit (get_new_real_pointer p a) n \<longleftrightarrow> bit a n \<or> (bit p n \<and> \<not> (1 \<le> n \<and> n < 48))"
  by (auto simp: get_new_real_pointer_def Let_def bit_or_iff bit_and_iff bit_not_iff
      bit_real_pointer_mask dest: bit_imp_le_length)

lemma bit_get_new_mark [ptr_bits]:
  "bit (get_new_mark p m) n \<longleftrightarrow> (if n = 0 then m else bit p n)"
  by (auto simp: get_new_mark_def Let_def bit_or_iff bit_and_iff bit_not_iff bit_mark_mask
      bit_of_bool_0 dest: bit_imp_le_length)

lemma bit_create_pointer [ptr_bits]:
  assumes "create_pointer c a m = Some p"
  shows "bit p n \<longleftrightarrow> (n = 0 \<and> m) \<or> bit a n \<or> (48 \<le> n \<and> bit c (n - 48))"
proof -
  from assms have p: "p = of_bool m OR a OR push_bit 48 c"
    by (auto simp: create_pointer_def or.assoc split: if_split_asm)
  from assms have c: "c \<le> UINT16_MAX"
    by (simp add: create_pointer_def linorder_not_less split: if_splits)
  show ?thesis
    by (auto simp: p bit_or_iff bit_push_bit_iff bit_of_bool_0 dest: small_counter_bits [OF c])
qed

interpretation counter_field: packed_field get_counter put_counter "\<lambda>_. True"
  by unfold_locales
    (auto intro!: bit_word_eqI simp: ptr_bits dest: bit_imp_le_length split: if_splits)

interpretation real_pointer_field: packed_field get_real_pointer get_new_real_pointer fits
  by unfold_locales (auto intro!: bit_word_eqI simp: ptr_bits fits_bits dest: bit_imp_le_length)

interpretation mark_field: packed_field get_marked get_new_mark "\<lambda>_. True"
  by unfold_locales (auto intro!: bit_word_eqI simp: ptr_bits split: if_splits)

interpretation counter_real: disjoint_fields get_counter put_counter "\<lambda>_. True"
    get_real_pointer get_new_real_pointer fits
  by unfold_locales (auto intro!: bit_word_eqI simp: ptr_bits fits_bits)

interpretation counter_mark: disjoint_fields get_counter put_counter "\<lambda>_. True"
    get_marked get_new_mark "\<lambda>_. True"
  by unfold_locales (auto intro!: bit_word_eqI simp: ptr_bits)

interpretation real_mark: disjoint_fields get_real_pointer get_new_real_pointer fits
    get_marked get_new_mark "\<lambda>_. True"
  by unfold_locales (auto intro!: bit_word_eqI simp: ptr_bits fits_bits)

section \<open>Reading back a created pointer\<close>

lemma create_pointer_None [simp]: "create_pointer c a m = None \<longleftrightarrow> UINT16_MAX < c"
  by (simp add: create_pointer_def)

lemma create_pointer_counter:
  assumes "create_pointer c a m = Some p" "fits a"
  shows "get_counter p = ucast c"
  by (rule bit_word_eqI)
    (auto simp: bit_get_counter bit_create_pointer [OF assms(1)] bit_ucast_iff
      dest: fitsD [OF assms(2)])

lemma create_pointer_real_pointer:
  assumes "create_pointer c a m = Some p" "fits a"
  shows "get_real_pointer p = a"
  by (rule bit_word_eqI)
    (auto simp: bit_get_real_pointer bit_create_pointer [OF assms(1)] dest: fitsD [OF assms(2)])

lemma create_pointer_marked:
  assumes "create_pointer c a m = Some p" "fits a"
  shows "get_marked p = m"
  by (auto simp: get_marked_bit bit_create_pointer [OF assms(1)] dest: fitsD [OF assms(2)])

lemmas create_pointer_fields =
  create_pointer_counter create_pointer_real_pointer create_pointer_marked

lemma create_pointer_same_counter:
  "create_pointer (ucast (c :: u16)) a m = Some p \<Longrightarrow> fits a \<Longrightarrow> get_counter p = c"
  by (simp add: create_pointer_counter)

lemma create_pointer_Some_ex [simp]: "c \<le> UINT16_MAX \<Longrightarrow> \<exists>p. create_pointer c a m = Some p"
  by (simp add: create_pointer_def linorder_not_less)

lemma create_pointer_next_counter:
  assumes "create_pointer (ucast (c :: u16) + 1) a m = Some p" "fits a"
  shows "unat (get_counter p) = Suc (unat c)"
proof -
  have u: "unat (ucast c :: u64) = unat c"
    using unat_lt_numerals(2) [of c] by (simp add: unsigned_ucast_eq take_bit_nat_eq_self)
  then have s: "unat (ucast c + 1 :: u64) = Suc (unat c)"
    using unat_lt_numerals(2) [of c] by (subst unat_add_lem [THEN iffD1]) simp_all
  have "\<not> UINT16_MAX < ucast c + 1"
    using assms(1) create_pointer_None by (metis option.distinct(1))
  then have "ucast c + 1 \<le> UINT16_MAX" by simp
  then have "ucast (ucast (ucast c + 1 :: u64) :: u16) = (ucast c + 1 :: u64)"
    by (rule ucast_small_counter)
  then have "unat (ucast (get_counter p) :: u64) = Suc (unat c)"
    by (simp add: create_pointer_counter [OF assms] s)
  moreover have "unat (ucast (get_counter p) :: u64) = unat (get_counter p)"
    using unat_lt_numerals(2) [of "get_counter p"]
    by (simp add: unsigned_ucast_eq take_bit_nat_eq_self)
  ultimately show ?thesis by simp
qed

lemma create_pointer_next_defined:
  "unat (c :: u16) < 65535 \<Longrightarrow> create_pointer (ucast c + 1) a m \<noteq> None"
proof -
  assume c: "unat c < 65535"
  have u: "unat (ucast c :: u64) = unat c"
    using unat_lt_numerals(2) [of c] by (simp add: unsigned_ucast_eq take_bit_nat_eq_self)
  then have "unat (ucast c + 1 :: u64) = Suc (unat c)"
    using unat_lt_numerals(2) [of c] by (subst unat_add_lem [THEN iffD1]) simp_all
  with c show ?thesis by (simp add: UINT16_MAX_def word_less_nat_alt del: unat_plus_simple)
qed

lemma get_new_mark_fields [simp]:
  "get_counter (get_new_mark p m) = get_counter p"
  "get_real_pointer (get_new_mark p m) = get_real_pointer p"
  "get_marked (get_new_mark p m) = m"
  by (simp_all add: counter_mark.frame' real_mark.frame' mark_field.get_put)

lemma null_pointer_fields [simp]:
  "get_counter 0 = 0" "get_real_pointer 0 = 0" "\<not> get_marked 0"
  by (simp_all add: get_counter_def get_real_pointer_def get_marked_def)

lemma create_pointer_recompose:
  "create_pointer (ucast (get_counter p)) (get_real_pointer p) (get_marked p) = Some p"
proof -
  obtain q where q:
    "create_pointer (ucast (get_counter p)) (get_real_pointer p) (get_marked p) = Some q"
    using create_pointer_Some_ex by force
  have "q = p"
    by (rule table_pointer_eqI) (use create_pointer_fields [OF q] in simp_all)
  with q show ?thesis by simp
qed

section \<open>Properties\<close>

text \<open>
  C26. Packing: a table pointer created from a counter, an address that fits the pointer
  field and a mark reads back exactly these three values; every table pointer is created
  from its own fields; \<open>create_pointer\<close> aborts exactly for counters above 65535.
\<close>

theorem create_pointer_roundtrip:
  "(\<forall>c a m. create_pointer c a m = None \<longleftrightarrow> UINT16_MAX < c) \<and>
   (\<forall>c a m p. create_pointer c a m = Some p \<and> fits a \<longrightarrow>
      get_counter p = ucast c \<and> get_real_pointer p = a \<and> get_marked p = m) \<and>
   (\<forall>p. create_pointer (ucast (get_counter p)) (get_real_pointer p) (get_marked p) = Some p)"
  by (auto simp: create_pointer_fields create_pointer_recompose)

lemma create_pointer_roundtrip_witness:
  "create_pointer 5 0x7F80 True = Some 0x5000000007F81 \<and> fits 0x7F80 \<and>
   get_counter 0x5000000007F81 = 5 \<and> get_real_pointer 0x5000000007F81 = 0x7F80"
proof -
  have "create_pointer 5 0x7F80 True = Some 0x5000000007F81" "fits 0x7F80" by code_simp+
  with create_pointer_roundtrip show ?thesis by force
qed

text \<open>
  The in-place updates and the copying ones compute the same value, each changes its own
  field only, and the counter updates abort exactly for values above 65535.
\<close>

lemma pointer_field_updates:
  assumes "fits a"
  shows "update_counter p c = get_new_counter p c \<and> (get_new_counter p c = None \<longleftrightarrow> UINT16_MAX < c) \<and>
    (\<forall>q. get_new_counter p c = Some q \<longrightarrow> get_counter q = ucast c \<and>
       get_real_pointer q = get_real_pointer p \<and> get_marked q = get_marked p) \<and>
    update_real_pointer p a = get_new_real_pointer p a \<and>
    get_counter (get_new_real_pointer p a) = get_counter p \<and>
    get_real_pointer (get_new_real_pointer p a) = a \<and>
    get_marked (get_new_real_pointer p a) = get_marked p \<and>
    update_marked p m = get_new_mark p m \<and> get_counter (get_new_mark p m) = get_counter p \<and>
    get_real_pointer (get_new_mark p m) = get_real_pointer p \<and> get_marked (get_new_mark p m) = m"
proof -
  have same: "update_counter p c = get_new_counter p c"
    "update_real_pointer p a = get_new_real_pointer p a" "update_marked p m = get_new_mark p m"
    by (simp_all add: update_counter_def get_new_counter_def update_real_pointer_def
        get_new_real_pointer_def update_marked_def get_new_mark_def Let_def)
  show ?thesis
    unfolding same using assms
    by (auto simp: get_new_counter_put counter_field.get_put counter_real.frame counter_mark.frame
        counter_real.frame' real_pointer_field.get_put real_mark.frame split: if_splits)
qed

text \<open>The marked pointer to address 0x7F80 with counter 5: the counter is set to 16.\<close>

lemma pointer_field_updates_witness:
  "fits 0x7F80 \<and> get_counter (get_new_real_pointer 0x5000000000001 0x7F80) = 5 \<and>
   get_marked (get_new_real_pointer 0x5000000000001 0x7F80)"
proof -
  have "fits 0x7F80" "get_counter 0x5000000000001 = 5" "get_marked 0x5000000000001"
    by code_simp+
  with pointer_field_updates [of "0x7F80" "0x5000000000001"] show ?thesis by simp
qed

text \<open>Reading a string of binary digits, most significant first.\<close>

definition read_binary :: "string \<Rightarrow> u64" where
  "read_binary str = foldl (\<lambda>a c. 2 * a + of_bool (c = CHR ''1'')) 0 str"

text \<open>
  \<open>print_pointer\<close> loses nothing: the line it prints ends in a newline, and the 64 digits
  before it read as a binary number give the pointer back.
\<close>

lemma print_pointer_roundtrip:
  "length (print_pointer p) = 65 \<and> last (print_pointer p) = CHR 0x0A \<and>
   read_binary (butlast (print_pointer p)) = p"
proof -
  let ?digit = "\<lambda>n. if bit p n then CHR ''1'' else CHR ''0''"
  have "map (\<lambda>i. ?digit (63 - i)) [0..<64] = rev (map ?digit [0..<64])"
    by (rule nth_equalityI) (auto simp: rev_nth rev_map)
  then have digits: "butlast (print_pointer p) = rev (map ?digit [0..<64])"
    by (simp add: print_pointer_def)
  have "foldl (\<lambda>a c. 2 * a + of_bool (c = CHR ''1'')) 0 (rev (map ?digit ns)) =
      horner_sum of_bool 2 (map (bit p) ns)" for ns
    by (induction ns) (simp_all add: ac_simps)
  then have "read_binary (butlast (print_pointer p)) = horner_sum of_bool 2 (map (bit p) [0..<64])"
    by (simp add: read_binary_def digits)
  also have "\<dots> = take_bit 64 p"
    by (rule horner_sum_bit_eq_take_bit)
  also have "\<dots> = p"
    by (rule bit_word_eqI) (simp add: bit_take_bit_iff)
  finally show ?thesis by (simp add: print_pointer_def)
qed

end
