(* ===== verification/Hash_Utils.thy ===== *)
theory Hash_Utils
  imports Prelude
begin

text \<open>
  \<open>hash_utils.h\<close>, \<open>hash_utils.cpp\<close>, and the partner-bucket computation that the three
  filters share. MD5 comes from OpenSSL: the digest call sequence of \<open>md5_fingerprint\<close> is
  the parameter \<open>evp\<close>, which gives the buffer \<open>md_value\<close> and the length \<open>md_len\<close> that
  \<open>EVP_DigestFinal_ex\<close> leaves behind for a key.
\<close>

unbundle bit_operations_syntax

section \<open>The code\<close>

type_synonym evp_digest = "bytes \<Rightarrow> bytes \<times> u32"

definition md5_fingerprint :: "evp_digest \<Rightarrow> bytes \<Rightarrow> bytes" where
  "md5_fingerprint evp key = (let (md_value, md_len) = evp key in take (unat md_len) md_value)"

text \<open>\<open>char\<close> is signed on x86-64, so \<open>hash_val += key[i++]\<close> sign-extends the byte.\<close>

definition jenkins_step :: "u32 \<Rightarrow> u8 \<Rightarrow> u32" where
  "jenkins_step hash_val c =
     (let hash_val = hash_val + scast c;
          hash_val = hash_val + push_bit 10 hash_val;
          hash_val = hash_val XOR drop_bit 6 hash_val
      in hash_val)"

primrec jenkins_loop :: "bytes \<Rightarrow> u32 \<Rightarrow> u32" where
  "jenkins_loop [] hash_val = hash_val"
| "jenkins_loop (c # key) hash_val = jenkins_loop key (jenkins_step hash_val c)"

definition jenkins_final :: "u32 \<Rightarrow> u32" where
  "jenkins_final hash_val =
     (let hash_val = hash_val + push_bit 3 hash_val;
          hash_val = hash_val XOR drop_bit 11 hash_val;
          hash_val = hash_val + push_bit 15 hash_val
      in hash_val)"

definition jenkins_hash :: "bytes \<Rightarrow> u32" where
  "jenkins_hash key = jenkins_final (jenkins_loop key 0)"

definition hash_u32 :: "u32 \<Rightarrow> u32" where
  "hash_u32 x =
     (let x = (drop_bit 16 x XOR x) * 0x45d9f3b;
          x = (drop_bit 16 x XOR x) * 0x45d9f3b;
          x = drop_bit 16 x XOR x
      in x)"

definition hash_string :: "bytes \<Rightarrow> u32" where
  "hash_string key = jenkins_hash key"

text \<open>
  \<open>get_next_hash_index\<close>: the mixed \<open>int\<close>/\<open>uint32_t\<close> arithmetic is done in 32-bit unsigned
  words. \<open>table_size\<close> is nonzero wherever the code gets here.
\<close>

definition get_next_hash_index :: "u32 \<Rightarrow> u32 \<Rightarrow> bytes \<Rightarrow> u32" where
  "get_next_hash_index table_size curr_idx fingerprint =
     (curr_idx XOR (jenkins_hash fingerprint mod table_size)) mod table_size"

section \<open>MD5 fingerprints\<close>

text \<open>What OpenSSL documents: an MD5 digest has 16 bytes, written into a buffer of
  \<open>EVP_MAX_MD_SIZE\<close> (64) bytes.\<close>

definition evp_md5_ok :: "evp_digest \<Rightarrow> bool" where
  "evp_md5_ok evp \<longleftrightarrow> (\<forall>key. snd (evp key) = 16 \<and> length (fst (evp key)) = 64)"

lemma length_md5_fingerprint: "evp_md5_ok evp \<Longrightarrow> length (md5_fingerprint evp key) = 16"
  by (simp add: evp_md5_ok_def md5_fingerprint_def split_beta)

lemma md5_fingerprint_nonempty: "evp_md5_ok evp \<Longrightarrow> md5_fingerprint evp key \<noteq> []"
  using length_md5_fingerprint [of evp key] by auto

section \<open>Jenkins' hash: every stage is reversible\<close>

lemma add_push_bit_eq_mult: "x + push_bit k x = (1 + 2 ^ k) * (x :: 'a::len word)"
  by (simp add: push_bit_eq_mult algebra_simps)

lemma jenkins_step_inject: "jenkins_step h c = jenkins_step h' c' \<Longrightarrow> h + scast c = h' + scast c'"
proof -
  assume eq: "jenkins_step h c = jenkins_step h' c'"
  have "(1 + 2 ^ 10) * (h + scast c) = (1 + 2 ^ 10) * (h' + scast c')"
    by (rule xorshift_inject [of 6])
      (use eq in \<open>simp_all only: jenkins_step_def Let_def add_push_bit_eq_mult\<close>)
  then show ?thesis
    by (rule mult_unit_inject [of 3222273025, rotated]) simp
qed

lemma jenkins_step_same_byte: "jenkins_step h c = jenkins_step h' c \<longleftrightarrow> h = h'"
  using jenkins_step_inject by fastforce

lemma jenkins_loop_inject: "jenkins_loop key h = jenkins_loop key h' \<longleftrightarrow> h = h'"
  by (induction key arbitrary: h h') (auto simp: jenkins_step_same_byte)

lemma jenkins_loop_append: "jenkins_loop (xs @ ys) h = jenkins_loop ys (jenkins_loop xs h)"
  by (induction xs arbitrary: h) auto

lemma jenkins_final_inject: "jenkins_final h = jenkins_final h' \<longleftrightarrow> h = h'"
proof
  assume eq: "jenkins_final h = jenkins_final h'"
  let ?m = "\<lambda>h :: u32. (1 + 2 ^ 3) * h"
  have "?m h XOR drop_bit 11 (?m h) = ?m h' XOR drop_bit 11 (?m h')"
    by (rule mult_unit_inject [of 1073709057 "1 + 2 ^ 15"])
      (use eq in \<open>simp_all add: jenkins_final_def Let_def add_push_bit_eq_mult\<close>)
  then have "?m h = ?m h'"
    by (rule xorshift_inject [rotated]) simp
  then show "h = h'"
    by (rule mult_unit_inject [of 954437177, rotated]) simp
qed simp

lemma scast_u8_inject: "(scast (a :: u8) :: u32) = scast b \<longleftrightarrow> a = b"
proof
  assume eq: "(scast a :: u32) = scast b"
  show "a = b"
  proof (rule bit_word_eqI)
    fix n assume "n < LENGTH(8)"
    then show "bit a n = bit b n"
      using arg_cong [OF eq, of "\<lambda>w. bit w n"] by (auto simp: bit_signed_iff split: if_splits)
  qed
qed simp

lemma hash_u32_inject: "hash_u32 x = hash_u32 y \<longleftrightarrow> x = y"
proof
  have stage: "u = v"
    if "(drop_bit 16 u XOR u) * 0x45d9f3b = (drop_bit 16 v XOR v) * 0x45d9f3b" for u v :: u32
  proof -
    have "drop_bit 16 u XOR u = drop_bit 16 v XOR v"
    proof (rule mult_unit_inject)
      show "295559667 * 0x45d9f3b = (1 :: u32)" by simp
    qed (use that in \<open>metis mult.commute\<close>)
    then show ?thesis
      by (intro xorshift_inject [of 16 u v]) (simp_all add: xor.commute)
  qed
  assume eq: "hash_u32 x = hash_u32 y"
  have "(drop_bit 16 x XOR x) * 0x45d9f3b = (drop_bit 16 y XOR y) * 0x45d9f3b"
    by (rule stage, rule xorshift_inject [of 16])
      (use eq in \<open>simp_all add: hash_u32_def Let_def ac_simps\<close>)
  then show "x = y" by (rule stage)
qed simp

section \<open>Partner buckets\<close>

text \<open>
  Partial-key cuckoo hashing needs a bucket and a fingerprint to determine the partner
  bucket, and the partner's partner to be the bucket itself.
\<close>

locale partner_index =
  fixes nxt :: "'i \<Rightarrow> 'fp \<Rightarrow> 'i"
    and valid :: "'i \<Rightarrow> bool"
  assumes closed: "valid i \<Longrightarrow> valid (nxt i fp)"
    and involution: "valid i \<Longrightarrow> nxt (nxt i fp) fp = i"
begin

lemma pair_partner: "valid i \<Longrightarrow> {nxt i fp, nxt (nxt i fp) fp} = {i, nxt i fp}"
  by (auto simp: involution)

lemma pair_member:
  "valid i \<Longrightarrow> j = i \<or> j = nxt i fp \<Longrightarrow> {j, nxt j fp} = {i, nxt i fp}"
  by (auto simp: involution)

lemma nxt_inject: "valid i \<Longrightarrow> valid j \<Longrightarrow> nxt i fp = nxt j fp \<longleftrightarrow> i = j"
  by (metis involution)

end

definition is_pow2 :: "u32 \<Rightarrow> bool" where
  "is_pow2 n \<longleftrightarrow> (\<exists>k < 32. n = 2 ^ k)"

lemma is_pow2_neq_0: "is_pow2 n \<Longrightarrow> n \<noteq> 0"
  by (auto simp: is_pow2_def exp_eq_zero_iff)

lemma get_next_hash_index_less: "ts \<noteq> 0 \<Longrightarrow> get_next_hash_index ts i fp < ts"
  unfolding get_next_hash_index_def word_less_nat_alt by (rule unat_mod_less)

lemma is_pow2_involution:
  assumes "is_pow2 ts" "i < ts"
  shows "get_next_hash_index ts (get_next_hash_index ts i fp) fp = i"
proof -
  obtain k where k: "k < 32" "ts = 2 ^ k"
    using assms(1) by (auto simp: is_pow2_def)
  have pos: "(2 :: u32) ^ k > 0"
    using k by (simp add: word_neq_0_conv [symmetric] exp_eq_zero_iff)
  have m: "x mod ts = x AND mask k" for x :: u32
    unfolding k(2) by (rule word_mod_2p_is_mask [OF pos])
  have i: "i AND mask k = i"
    using assms(2) m [of i]
    by (metis mod_less unat_mod word_less_nat_alt word_unat_eq_iff)
  show ?thesis
    unfolding get_next_hash_index_def m
    by (subst (2) i [symmetric], rule bit_word_eqI) (auto simp: bit_simps)
qed

text \<open>Valid indexes of a table whose size is a power of two.\<close>

definition pow2_index :: "u32 \<Rightarrow> u32 \<Rightarrow> bool" where
  "pow2_index ts i \<longleftrightarrow> is_pow2 ts \<and> i < ts"

interpretation partner: partner_index "get_next_hash_index ts" "pow2_index ts" for ts
  by unfold_locales
    (auto simp: pow2_index_def is_pow2_involution is_pow2_neq_0 intro: get_next_hash_index_less)

text \<open>The two buckets in which a fingerprint of bucket \<open>b\<close> may live.\<close>

definition home :: "u32 \<Rightarrow> u32 \<Rightarrow> bytes \<Rightarrow> u32 set" where
  "home ts b fp = {b, get_next_hash_index ts b fp}"

lemma home_next: "pow2_index ts b \<Longrightarrow> home ts (get_next_hash_index ts b fp) fp = home ts b fp"
  unfolding home_def by (rule partner.pair_partner)

lemma home_member: "pow2_index ts b \<Longrightarrow> c \<in> home ts b fp \<Longrightarrow> home ts c fp = home ts b fp"
  unfolding home_def by (rule partner.pair_member) auto

text \<open>What the filters store for a key: its fingerprint and its two buckets.\<close>

definition key_item :: "evp_digest \<Rightarrow> u32 \<Rightarrow> bytes \<Rightarrow> bytes \<times> u32 set" where
  "key_item evp ts key =
     (md5_fingerprint evp key, home ts (jenkins_hash key mod ts) (md5_fingerprint evp key))"

section \<open>A concrete digest and table sizes\<close>

text \<open>A digest that pads the key to 16 bytes: it satisfies what is assumed of MD5.\<close>

definition pad_evp :: evp_digest where
  "pad_evp key = (take 64 (key @ replicate 64 0), 16)"

lemma pad_evp_ok: "evp_md5_ok pad_evp"
  by (auto simp: evp_md5_ok_def pad_evp_def min_def)

lemma is_pow2_4: "is_pow2 4" and is_pow2_2: "is_pow2 2" and is_pow2_1: "is_pow2 1"
  unfolding is_pow2_def
  by (rule exI [of _ 2], simp) (rule exI [of _ 1], simp, rule exI [of _ 0], simp)

section \<open>Properties\<close>

text \<open>
  Keys that agree except in one byte never collide: replacing one byte of a key by a
  different byte always changes its Jenkins hash.
\<close>

lemma jenkins_hash_one_byte:
  "jenkins_hash (xs @ [a] @ ys) = jenkins_hash (xs @ [b] @ ys) \<longleftrightarrow> a = b"
  using jenkins_step_inject [of "jenkins_loop xs 0" a "jenkins_loop xs 0" b]
  by (auto simp: jenkins_hash_def jenkins_final_inject jenkins_loop_append jenkins_loop_inject
      scast_u8_inject)

text \<open>
  C37. Partner buckets: in a table whose size is a power of two the partner of a valid
  bucket index is a valid index, and the partner of the partner under the same fingerprint
  is the bucket itself, so an evicted fingerprint can always be found and moved back.
\<close>

theorem partner_bucket_involution:
  assumes "is_pow2 ts" "i < ts"
  shows "get_next_hash_index ts i fp < ts \<and>
    get_next_hash_index ts (get_next_hash_index ts i fp) fp = i"
  using partner.closed [of ts i fp] partner.involution [of ts i fp] assms
  by (simp_all add: pow2_index_def)

lemma partner_bucket_involution_witness:
  "get_next_hash_index 4096 17 [1, 2, 3] < 4096 \<and>
   get_next_hash_index 4096 (get_next_hash_index 4096 17 [1, 2, 3]) [1, 2, 3] = 17"
proof -
  have "is_pow2 4096"
    unfolding is_pow2_def by (rule exI [of _ 12]) simp
  then show ?thesis
    using partner_bucket_involution [of 4096 17 "[1, 2, 3]"] by simp
qed

text \<open>
  For other table sizes the partner index is not an involution. With the 256000 buckets
  of \<open>benchmark.cpp\<close>, bucket 222287 and the 16-byte fingerprint of ones have partner 0,
  whose partner is 35919: an eviction between these buckets strands the fingerprint.
\<close>

lemma partner_bucket_256000:
  "get_next_hash_index 256000 222287 (replicate 16 1) = 0 \<and>
   get_next_hash_index 256000 0 (replicate 16 1) = 35919 \<and>
   \<not> is_pow2 256000"
proof -
  have "get_next_hash_index 256000 222287 (replicate 16 1) = 0"
    by code_simp
  moreover have "get_next_hash_index 256000 0 (replicate 16 1) = 35919"
    by code_simp
  moreover have "\<not> is_pow2 256000"
    using is_pow2_involution [of 256000 222287 "replicate 16 1"] calculation by auto
  ultimately show ?thesis by blast
qed

text \<open>
  The integer hash is a bijection of the 32-bit words: distinct values never collide.
\<close>

lemma hash_u32_bij: "bij hash_u32"
proof -
  have "inj hash_u32" by (rule injI) (simp add: hash_u32_inject)
  then show ?thesis by (simp add: bij_def finite_UNIV_inj_surj)
qed

end
