(* ===== verification/Utils.thy ===== *)
theory Utils
  imports Prelude
begin

text \<open>
  \<open>utils.h\<close> and \<open>utils.cpp\<close>: \<open>gen_random_string\<close>. \<open>rand()\<close> is a sequence of non-negative
  integers, \<open>rnd i\<close> the result of its \<open>i\<close>-th call. Reading \<open>chars\<close> outside the array is
  undefined behaviour and an error of its own here.
\<close>

datatype gen_error = Aborted | OutOfBounds

text \<open>The 63 letters of the literal and its terminating zero: \<open>sizeof(chars)\<close> is 64.\<close>

definition chars :: "string" where
  "chars = ''01234567890abcdefghijklmnopqrstuvwxyzABCDEFGHIJKLMNOPQRSTUVWXYZ'' @ [CHR 0x00]"

text \<open>\<open>rand() % sizeof(chars) - 1\<close>, in \<open>size_t\<close>: the subtraction comes last and wraps.\<close>

definition char_index :: "nat \<Rightarrow> u64" where
  "char_index r = word_of_nat r mod word_of_nat (length chars) - 1"

primrec gen_loop :: "nat \<Rightarrow> (nat \<Rightarrow> nat) \<Rightarrow> nat \<Rightarrow> string \<Rightarrow> gen_error + string" where
  "gen_loop 0 rnd i ret = Inr ret"
| "gen_loop (Suc n) rnd i ret =
     (let idx = unat (char_index (rnd i))
      in if idx < length chars then gen_loop n rnd (Suc i) (ret @ [chars ! idx])
         else Inl OutOfBounds)"

definition gen_random_string :: "u32 \<Rightarrow> (nat \<Rightarrow> nat) \<Rightarrow> gen_error + string" where
  "gen_random_string len rnd =
     (if sint len \<le> 0 then Inl Aborted else gen_loop (unat len) rnd 0 [])"

section \<open>The index expression\<close>

lemma length_chars: "length chars = 64"
  by (simp add: chars_def)

lemma word_mod_64: "(word_of_nat r :: u64) mod 64 = word_of_nat (r mod 64)"
proof -
  have "unat ((word_of_nat r :: u64) mod 64) = r mod 64"
    by (simp add: unat_mod unsigned_of_nat take_bit_eq_mod mod_mod_cancel)
  moreover have "unat (word_of_nat (r mod 64) :: u64) = r mod 64"
    by (simp add: unsigned_of_nat take_bit_nat_eq_self less_trans [of _ 64])
  ultimately show ?thesis by (simp add: word_unat_eq_iff)
qed

lemma unat_char_index:
  "unat (char_index r) = (if r mod 64 = 0 then 2 ^ 64 - 1 else r mod 64 - 1)"
proof (cases "r mod 64 = 0")
  case True
  then show ?thesis
    by (simp add: char_index_def length_chars word_mod_64 unsigned_minus_1_eq_mask
        mask_eq_exp_minus_1)
next
  case False
  have "unat (word_of_nat (r mod 64) :: u64) = r mod 64"
    by (simp add: unsigned_of_nat take_bit_nat_eq_self less_trans [of _ 64])
  with False show ?thesis
    by (simp add: char_index_def length_chars word_mod_64 unat_minus_one word_unat_eq_iff)
qed

lemma char_index_in_range: "unat (char_index r) < length chars \<longleftrightarrow> r mod 64 \<noteq> 0"
  using mod_less_divisor [of 64 r] by (auto simp: unat_char_index length_chars)


section \<open>The loop\<close>

lemma set_chars_index:
  assumes "r mod 64 \<noteq> 0"
  shows "chars ! unat (char_index r) \<in> set (butlast chars)"
proof -
  have "r mod 64 - 1 < length (butlast chars)"
    using assms mod_less_divisor [of 64 r] by (simp add: length_chars)
  then show ?thesis
    using assms by (metis nth_butlast nth_mem unat_char_index)
qed

lemma gen_loop_Inl:
  "gen_loop n rnd i ret = Inl e \<longleftrightarrow> e = OutOfBounds \<and> (\<exists>j < n. rnd (i + j) mod 64 = 0)"
proof (induction n arbitrary: i ret)
  case (Suc n)
  then show ?case
    by (simp add: Let_def char_index_in_range less_Suc_eq_0_disj) auto
qed simp

lemma gen_loop_Inr:
  "gen_loop n rnd i ret = Inr s \<Longrightarrow>
     \<exists>t. s = ret @ t \<and> length t = n \<and> set t \<subseteq> set (butlast chars)"
proof (induction n arbitrary: i ret)
  case (Suc n)
  from Suc.prems have r: "rnd i mod 64 \<noteq> 0"
    and rest: "gen_loop n rnd (Suc i) (ret @ [chars ! unat (char_index (rnd i))]) = Inr s"
    by (auto simp: Let_def char_index_in_range split: if_splits)
  from Suc.IH [OF rest] set_chars_index [OF r] show ?case by force
qed simp

lemma gen_loop_Inr_start:
  "gen_loop n rnd i [] = Inr s \<Longrightarrow> length s = n \<and> set s \<subseteq> set (butlast chars)"
  using gen_loop_Inr [of n rnd i "[]" s] by auto

section \<open>Properties\<close>

text \<open>
  C40. \<open>gen_random_string\<close> aborts exactly for a non-positive length; for a positive length a
  string it returns has that length and only digits and letters, and it reads outside the
  array \<open>chars\<close> exactly when one of its \<open>len\<close> calls of \<open>rand\<close> returns a multiple of 64
  (\<open>rand() % sizeof(chars) - 1\<close> is then \<open>SIZE_MAX\<close>, not an index).
\<close>

theorem gen_random_string_result:
  "(gen_random_string len rnd = Inl Aborted \<longleftrightarrow> sint len \<le> 0) \<and>
   (gen_random_string len rnd = Inl OutOfBounds \<longleftrightarrow>
      0 < sint len \<and> (\<exists>i < unat len. rnd i mod 64 = 0)) \<and>
   (\<forall>s. gen_random_string len rnd = Inr s \<longrightarrow>
      length s = unat len \<and> set s \<subseteq> set (butlast chars))"
  using gen_loop_Inr_start [of "unat len" rnd 0]
  by (auto simp: gen_random_string_def gen_loop_Inl)

lemma gen_random_string_result_witness:
  "gen_random_string 3 (\<lambda>i. 11 + i) = Inr ''0ab'' \<and>
   length ''0ab'' = unat (3 :: u32) \<and> set ''0ab'' \<subseteq> set (butlast chars)"
proof -
  have "gen_random_string 3 (\<lambda>i. 11 + i) = Inr ''0ab''"
    by code_simp
  with gen_random_string_result [of 3 "\<lambda>i. 11 + i"] show ?thesis by blast
qed

end
