(* ===== verification/Common.thy ===== *)
theory Common
  imports Hash_Utils
begin

text \<open>
  \<open>common.h\<close>: the two constants of the three filters, and the emptiness and equality scans
  over the slots of a bucket that the two lock-based filters share.
\<close>

definition NUM_ITEMS_PER_ENTRY :: nat where
  "NUM_ITEMS_PER_ENTRY = 4"

definition NUM_MAX_KICKS :: nat where
  "NUM_MAX_KICKS = 10"

text \<open>A call of one of the operations that all three filters have.\<close>

datatype filter_call = InsertKey bytes | FindKey bytes | RemoveKey bytes

text \<open>The items that the calls of some threads may remove.\<close>

definition removable :: "evp_digest \<Rightarrow> u32 \<Rightarrow> filter_call list list \<Rightarrow> (bytes \<times> u32 set) set" where
  "removable evp ts css = {key_item evp ts k | k. \<exists>cs \<in> set css. RemoveKey k \<in> set cs}"

lemma num_items_pos [simp]: "0 < NUM_ITEMS_PER_ENTRY"
  by (simp add: NUM_ITEMS_PER_ENTRY_def)

text \<open>A table of \<open>vector<array<string, NUM_ITEMS_PER_ENTRY>>\<close>; an empty string is a free slot.\<close>

type_synonym string_table = "bytes list list"

definition empty_slot :: "string_table \<Rightarrow> u32 \<Rightarrow> nat option" where
  "empty_slot t b = first_idx (\<lambda>i. cell t (unat b) i = []) NUM_ITEMS_PER_ENTRY"

definition slot_of :: "string_table \<Rightarrow> u32 \<Rightarrow> bytes \<Rightarrow> nat option" where
  "slot_of t b fp = first_idx (\<lambda>i. cell t (unat b) i = fp) NUM_ITEMS_PER_ENTRY"

lemma empty_slot_SomeD:
  "empty_slot t b = Some i \<Longrightarrow> i < NUM_ITEMS_PER_ENTRY \<and> cell t (unat b) i = []"
  unfolding empty_slot_def by (blast dest: first_idx_SomeD)

lemma slot_of_SomeD:
  "slot_of t b fp = Some i \<Longrightarrow> i < NUM_ITEMS_PER_ENTRY \<and> cell t (unat b) i = fp"
  unfolding slot_of_def by (blast dest: first_idx_SomeD)


text \<open>The compare-after-empty-test scan of \<open>remove\<close>.\<close>

definition nonempty_slot_of :: "string_table \<Rightarrow> u32 \<Rightarrow> bytes \<Rightarrow> nat option" where
  "nonempty_slot_of t b fp =
     first_idx (\<lambda>i. length (cell t (unat b) i) \<noteq> 0 \<and> cell t (unat b) i = fp)
       NUM_ITEMS_PER_ENTRY"

lemma nonempty_slot_of_eq: "fp \<noteq> [] \<Longrightarrow> nonempty_slot_of t b fp = slot_of t b fp"
  unfolding nonempty_slot_of_def slot_of_def by (rule first_idx_cong) auto

section \<open>Contents of a string table\<close>

text \<open>
  \<open>contents ts g t\<close> collects \<open>g b fp\<close> over the occupied slots: with \<open>g b fp = {#fp#}\<close> the
  stored fingerprints, with \<open>g b fp = {#(fp, home ts b fp)#}\<close> the stored items.
\<close>

definition slot_contents :: "(u32 \<Rightarrow> bytes \<Rightarrow> 'x multiset) \<Rightarrow> u32 \<Rightarrow> bytes \<Rightarrow> 'x multiset" where
  "slot_contents g b fp = (if fp = [] then {#} else g b fp)"

definition contents :: "u32 \<Rightarrow> (u32 \<Rightarrow> bytes \<Rightarrow> 'x multiset) \<Rightarrow> string_table \<Rightarrow> 'x multiset" where
  "contents ts g t =
     cell_sum (unat ts) NUM_ITEMS_PER_ENTRY (\<lambda>b i. slot_contents g (word_of_nat b)) t"

definition fingerprints :: "u32 \<Rightarrow> string_table \<Rightarrow> bytes multiset" where
  "fingerprints ts t = contents ts (\<lambda>b fp. {#fp#}) t"

definition items :: "u32 \<Rightarrow> string_table \<Rightarrow> (bytes \<times> u32 set) multiset" where
  "items ts t = contents ts (\<lambda>b fp. {#(fp, home ts b fp)#}) t"

definition table_ok :: "u32 \<Rightarrow> string_table \<Rightarrow> bool" where
  "table_ok ts t \<longleftrightarrow> rect (unat ts) NUM_ITEMS_PER_ENTRY t"

lemma slot_contents_Nil [simp]: "slot_contents g b [] = {#}"
  by (simp add: slot_contents_def)

lemma slot_contents_fp [simp]: "fp \<noteq> [] \<Longrightarrow> slot_contents g b fp = g b fp"
  by (simp add: slot_contents_def)

lemma table_ok_put [simp]: "table_ok ts t \<Longrightarrow> table_ok ts (put_cell t b i x)"
  by (simp add: table_ok_def)

lemma cell_put:
  assumes "table_ok ts t" "b < ts" "i < NUM_ITEMS_PER_ENTRY"
  shows "cell (put_cell t (unat b) i x) b' i' = (if b' = unat b \<and> i' = i then x else cell t b' i')"
  using assms unfolding table_ok_def
  by (intro cell_put_cell) (simp_all add: word_less_nat_alt)

lemma contents_put:
  assumes "table_ok ts t" "b < ts" "i < NUM_ITEMS_PER_ENTRY"
  shows "contents ts g (put_cell t (unat b) i x) + slot_contents g b (cell t (unat b) i) =
    contents ts g t + slot_contents g b x"
  using cell_sum_put [of "unat ts" NUM_ITEMS_PER_ENTRY t "unat b" i
      "\<lambda>b i. slot_contents g (word_of_nat b)" x] assms
  by (simp add: contents_def table_ok_def word_less_nat_alt)

lemma contents_put_empty:
  assumes "table_ok ts t" "b < ts" "empty_slot t b = Some i" "x \<noteq> []"
  shows "contents ts g (put_cell t (unat b) i x) = contents ts g t + g b x"
  using contents_put [OF assms(1,2), of i g x] empty_slot_SomeD [OF assms(3)] assms(4) by simp

lemma contents_replace:
  assumes "table_ok ts t" "b < ts" "i < NUM_ITEMS_PER_ENTRY" "x \<noteq> []" "cell t (unat b) i \<noteq> []"
  shows "contents ts g (put_cell t (unat b) i x) + g b (cell t (unat b) i) = contents ts g t + g b x"
  using contents_put [OF assms(1-3), of g x] assms(4,5) by simp

lemma contents_clear:
  assumes "table_ok ts t" "b < ts" "i < NUM_ITEMS_PER_ENTRY" "cell t (unat b) i \<noteq> []"
  shows "contents ts g (put_cell t (unat b) i []) + g b (cell t (unat b) i) = contents ts g t"
  using contents_put [OF assms(1-3), of g "[]"] assms(4) by simp

lemma in_contents_iff:
  "z \<in># contents ts g t \<longleftrightarrow>
     (\<exists>b < ts. \<exists>i < NUM_ITEMS_PER_ENTRY. cell t (unat b) i \<noteq> [] \<and> z \<in># g b (cell t (unat b) i))"
proof
  assume "z \<in># contents ts g t"
  then obtain b i where bi: "b < unat ts" "i < NUM_ITEMS_PER_ENTRY"
    and z: "z \<in># slot_contents g (word_of_nat b) (cell t b i)"
    by (auto simp: contents_def in_cell_sum_iff)
  have u: "unat (word_of_nat b :: u32) = b"
    using bi(1) unat_lt_numerals(3) [of ts] by (simp add: unsigned_of_nat take_bit_nat_eq_self)
  show "\<exists>b < ts. \<exists>i < NUM_ITEMS_PER_ENTRY.
      cell t (unat b) i \<noteq> [] \<and> z \<in># g b (cell t (unat b) i)"
    by (rule exI [of _ "word_of_nat b"])
      (use bi z u in \<open>auto simp: word_less_nat_alt slot_contents_def split: if_splits\<close>)
next
  assume "\<exists>b < ts. \<exists>i < NUM_ITEMS_PER_ENTRY.
      cell t (unat b) i \<noteq> [] \<and> z \<in># g b (cell t (unat b) i)"
  then obtain b i where "b < ts" "i < NUM_ITEMS_PER_ENTRY" "cell t (unat b) i \<noteq> []"
    "z \<in># g b (cell t (unat b) i)"
    by blast
  then show "z \<in># contents ts g t"
    unfolding contents_def in_cell_sum_iff
    by (intro exI [of _ "unat b"] exI [of _ i] conjI) (auto simp: word_less_nat_alt)
qed

lemma contents_new [simp]:
  "contents ts g (replicate (unat ts) (replicate NUM_ITEMS_PER_ENTRY [])) = {#}"
  by (rule ccontr, erule multiset_nonemptyE) (auto simp: in_contents_iff word_less_nat_alt)

text \<open>An item is stored iff its fingerprint sits in one of the two buckets.\<close>

lemma key_item_in_items:
  assumes "is_pow2 ts" "h1 < ts" "fp \<noteq> []"
  shows "(fp, home ts h1 fp) \<in># items ts t \<longleftrightarrow>
    slot_of t h1 fp \<noteq> None \<or> slot_of t (get_next_hash_index ts h1 fp) fp \<noteq> None"
proof -
  have valid: "pow2_index ts h1" using assms by (simp add: pow2_index_def)
  have lt: "get_next_hash_index ts h1 fp < ts"
    by (rule get_next_hash_index_less [OF is_pow2_neq_0 [OF assms(1)]])
  have "(fp, home ts h1 fp) \<in># items ts t \<longleftrightarrow>
      (\<exists>b < ts. \<exists>i < NUM_ITEMS_PER_ENTRY. cell t (unat b) i = fp \<and> home ts b fp = home ts h1 fp)"
    unfolding items_def in_contents_iff using assms(3) by auto
  also have "\<dots> \<longleftrightarrow> (\<exists>b \<in> home ts h1 fp. \<exists>i < NUM_ITEMS_PER_ENTRY. cell t (unat b) i = fp)"
  proof -
    have "b \<in> home ts h1 fp" if "home ts b fp = home ts h1 fp" for b
      using that by (auto simp: home_def)
    moreover have "b < ts" if "b \<in> home ts h1 fp" for b
      using that assms(2) lt by (auto simp: home_def)
    ultimately show ?thesis
      using home_member [OF valid] by blast
  qed
  also have "\<dots> \<longleftrightarrow> slot_of t h1 fp \<noteq> None \<or> slot_of t (get_next_hash_index ts h1 fp) fp \<noteq> None"
    unfolding slot_of_def first_idx_not_None by (auto simp: home_def)
  finally show ?thesis .
qed

lemma hash_mod_less: "ts \<noteq> 0 \<Longrightarrow> h mod ts < (ts :: u32)"
  unfolding word_less_nat_alt by (rule unat_mod_less)

lemma home_weight:
  "is_pow2 ts \<Longrightarrow> b < ts \<Longrightarrow>
     {#(fp, home ts (get_next_hash_index ts b fp) fp)#} = {#(fp, home ts b fp)#}"
  by (simp add: home_next pow2_index_def)

text \<open>Membership of a key's item, read off the two scans.\<close>

lemma key_item_scan:
  assumes "is_pow2 ts" "md5_fingerprint evp key \<noteq> []"
  shows "key_item evp ts key \<in># items ts t \<longleftrightarrow>
    slot_of t (jenkins_hash key mod ts) (md5_fingerprint evp key) \<noteq> None \<or>
    slot_of t (get_next_hash_index ts (jenkins_hash key mod ts) (md5_fingerprint evp key))
      (md5_fingerprint evp key) \<noteq> None"
  unfolding key_item_def
  by (rule key_item_in_items [OF assms(1) hash_mod_less [OF is_pow2_neq_0 [OF assms(1)]] assms(2)])

end
