(* ===== verification/AMQ.thy ===== *)
theory AMQ
  imports Prelude
begin

text \<open>
  The contract of an approximate membership filter, independent of how it is implemented:
  the abstract state is a multiset of items, an item being what the filter keeps of a key
  (for the cuckoo filters: the fingerprint and its pair of buckets). A successful insertion
  adds the key's item, a failed one gives up exactly one item, a query answers membership,
  a removal takes one copy away. Operations are relations between the state before, the
  Boolean result and the state after. Histories of calls and what they imply for queries
  are derived once, from the contract.
\<close>

section \<open>Histories\<close>

datatype 'k call = Ins 'k bool | Fnd 'k bool | Del 'k bool

inductive history ::
  "('k \<Rightarrow> 's \<Rightarrow> bool \<Rightarrow> 's \<Rightarrow> bool) \<Rightarrow> ('k \<Rightarrow> 's \<Rightarrow> bool \<Rightarrow> 's \<Rightarrow> bool) \<Rightarrow>
   ('k \<Rightarrow> 's \<Rightarrow> bool \<Rightarrow> 's \<Rightarrow> bool) \<Rightarrow> 's \<Rightarrow> 'k call list \<Rightarrow> 's \<Rightarrow> bool"
  for ins fnd del where
  history_Nil: "history ins fnd del s [] s"
| history_Ins: "ins k s r t \<Longrightarrow> history ins fnd del t hs u \<Longrightarrow> history ins fnd del s (Ins k r # hs) u"
| history_Fnd: "fnd k s r t \<Longrightarrow> history ins fnd del t hs u \<Longrightarrow> history ins fnd del s (Fnd k r # hs) u"
| history_Del: "del k s r t \<Longrightarrow> history ins fnd del t hs u \<Longrightarrow> history ins fnd del s (Del k r # hs) u"

inductive_cases history_NilE: "history ins fnd del s [] t"
inductive_cases history_InsE: "history ins fnd del s (Ins k r # hs) t"
inductive_cases history_FndE: "history ins fnd del s (Fnd k r # hs) t"
inductive_cases history_DelE: "history ins fnd del s (Del k r # hs) t"

text \<open>Keys whose insertion succeeded, keys whose removal succeeded, and no failed insertion.\<close>

fun inserted :: "'k call list \<Rightarrow> 'k multiset" where
  "inserted [] = {#}"
| "inserted (Ins k True # hs) = add_mset k (inserted hs)"
| "inserted (_ # hs) = inserted hs"

fun removed :: "'k call list \<Rightarrow> 'k multiset" where
  "removed [] = {#}"
| "removed (Del k True # hs) = add_mset k (removed hs)"
| "removed (_ # hs) = removed hs"

definition no_failed_insert :: "'k call list \<Rightarrow> bool" where
  "no_failed_insert hs \<longleftrightarrow> (\<forall>k. Ins k False \<notin> set hs)"

section \<open>The contract\<close>

locale amq =
  fixes inv :: "'s \<Rightarrow> bool"
    and items :: "'s \<Rightarrow> 'i multiset"
    and item :: "'k \<Rightarrow> 'i"
    and ins :: "'k \<Rightarrow> 's \<Rightarrow> bool \<Rightarrow> 's \<Rightarrow> bool"
    and fnd :: "'k \<Rightarrow> 's \<Rightarrow> bool \<Rightarrow> 's \<Rightarrow> bool"
    and del :: "'k \<Rightarrow> 's \<Rightarrow> bool \<Rightarrow> 's \<Rightarrow> bool"
  assumes ins_inv: "inv s \<Longrightarrow> ins k s r t \<Longrightarrow> inv t"
    and fnd_inv: "inv s \<Longrightarrow> fnd k s r t \<Longrightarrow> inv t"
    and del_inv: "inv s \<Longrightarrow> del k s r t \<Longrightarrow> inv t"
    and ins_True: "inv s \<Longrightarrow> ins k s True t \<Longrightarrow> items t = add_mset (item k) (items s)"
    and ins_False: "inv s \<Longrightarrow> ins k s False t \<Longrightarrow>
      \<exists>x. add_mset x (items t) = add_mset (item k) (items s)"
    and fnd_items: "inv s \<Longrightarrow> fnd k s r t \<Longrightarrow> items t = items s"
    and fnd_result: "inv s \<Longrightarrow> fnd k s r t \<Longrightarrow> r \<longleftrightarrow> item k \<in># items s"
    and del_result: "inv s \<Longrightarrow> del k s r t \<Longrightarrow> r \<longleftrightarrow> item k \<in># items s"
    and del_items: "inv s \<Longrightarrow> del k s r t \<Longrightarrow> items t = items s - {#item k#}"
begin

lemma history_inv: "history ins fnd del s hs t \<Longrightarrow> inv s \<Longrightarrow> inv t"
  by (induction rule: history.induct) (blast intro: ins_inv fnd_inv del_inv)+

lemma history_items:
  assumes "history ins fnd del s hs t" "inv s" "no_failed_insert hs"
  shows "items t + image_mset item (removed hs) = items s + image_mset item (inserted hs)"
  using assms
proof (induction rule: history.induct)
  case (history_Nil s)
  then show ?case by simp
next
  case (history_Ins k s r t hs u)
  then have "r" by (cases r) (auto simp: no_failed_insert_def)
  with history_Ins show ?case
    by (simp add: ins_True [of s k t] ins_inv [of s k True t] no_failed_insert_def)
next
  case (history_Fnd k s r t hs u)
  then show ?case
    by (cases r) (simp_all add: fnd_items [of s k _ t] fnd_inv [of s k _ t] no_failed_insert_def)
next
  case (history_Del k s r t hs u)
  have IH: "items u + image_mset item (removed hs) = items t + image_mset item (inserted hs)"
    using history_Del by (simp add: no_failed_insert_def del_inv [of s k r t])
  show ?case
  proof (cases r)
    case True
    with del_result [OF history_Del.prems(1) history_Del.hyps(1)] have "item k \<in># items s"
      by simp
    then have "items s = add_mset (item k) (items t)"
      using history_Del.hyps(1) history_Del.prems(1) by (simp add: del_items)
    with True IH show ?thesis by simp
  next
    case False
    with del_result [OF history_Del.prems(1) history_Del.hyps(1)] have "item k \<notin># items s"
      by simp
    then have "items t = items s"
      using history_Del.hyps(1) history_Del.prems(1) by (simp add: del_items diff_single_trivial)
    with False IH show ?thesis by simp
  qed
qed

text \<open>A query after a history answers by the balance of insertions and removals.\<close>

lemma query_balance:
  assumes "history ins fnd del s hs t" "inv s" "items s = {#}" "no_failed_insert hs"
    and "fnd k t r u"
  shows "r \<longleftrightarrow> count (image_mset item (removed hs)) (item k)
    < count (image_mset item (inserted hs)) (item k)"
proof -
  have "items t + image_mset item (removed hs) = image_mset item (inserted hs)"
    using history_items [OF assms(1,2,4)] assms(3) by simp
  then have "count (items t) (item k) + count (image_mset item (removed hs)) (item k)
      = count (image_mset item (inserted hs)) (item k)"
    by (metis count_union)
  moreover have "r \<longleftrightarrow> item k \<in># items t"
    by (rule fnd_result [OF history_inv [OF assms(1,2)] assms(5)])
  ultimately show ?thesis
    by (metis add_diff_cancel_right' count_greater_zero_iff zero_less_diff)
qed

lemma find_after_insert:
  "inv s \<Longrightarrow> ins k s True t \<Longrightarrow> fnd k t r u \<Longrightarrow> r"
  by (metis fnd_result ins_True ins_inv union_single_eq_member)

lemma insert_keeps_found:
  "inv s \<Longrightarrow> ins k s True t \<Longrightarrow> fnd k' s True s' \<Longrightarrow> fnd k' t r u \<Longrightarrow> r"
  using fnd_result [of s k' True s'] fnd_result [OF ins_inv, of s k True t k' r u] ins_True [of s k t]
  by simp

lemma remove_undoes_insert:
  "inv s \<Longrightarrow> ins k s True t \<Longrightarrow> del k t r u \<Longrightarrow> r \<and> items u = items s"
  by (metis add_mset_remove_trivial del_items del_result ins_True ins_inv union_single_eq_member)

end

end
