(* ===== verification/Seq_Filter.thy ===== *)
theory Seq_Filter
  imports Common AMQ
begin

text \<open>
  \<open>seq_filter.h\<close> and \<open>seq_filter.cpp\<close>: the cuckoo filter under one global mutex. Every public
  operation holds \<open>mtx\<close> from its first to its last statement, so it is a function of the
  state; \<open>Seq_Conc\<close> shows that interleaved threads amount to calls of these functions. \<open>rnd i\<close> is
  the result of its \<open>i\<close>-th call of \<open>rand()\<close>. The printing under \<open>verbose\<close> is left out.
\<close>

unbundle bit_operations_syntax

section \<open>State and errors\<close>

record seq_filter =
  seq_table_size :: u32
  seq_verbose :: bool
  seq_hash_table :: string_table
  seq_mtx :: bool \<comment> \<open>the mutex is held\<close>

text \<open>
  \<open>LengthError\<close>: \<open>vector::resize\<close> throws for a negative capacity (converted to \<open>size_t\<close>).
  \<open>DivByZero\<close>: \<open>% table_size\<close> with an empty table. \<open>Blocked\<close>: \<open>mtx.lock()\<close> does not return
  because the mutex is held.
\<close>

datatype seq_error = LengthError | DivByZero | Blocked

definition seq_new :: "u32 \<Rightarrow> bool \<Rightarrow> seq_error + seq_filter" where
  "seq_new capacity verbose =
     (if sint capacity < 0 then Inl LengthError
      else Inr \<lparr>seq_table_size = capacity, seq_verbose = verbose,
                seq_hash_table = replicate (unat capacity) (replicate NUM_ITEMS_PER_ENTRY []),
                seq_mtx = False\<rparr>)"

definition seq_new_quiet :: "u32 \<Rightarrow> seq_error + seq_filter" where
  "seq_new_quiet capacity = seq_new capacity False"

definition seq_unlock :: "seq_filter \<Rightarrow> seq_filter" where
  "seq_unlock f = f\<lparr>seq_mtx := False\<rparr>"

definition seq_put :: "u32 \<Rightarrow> nat \<Rightarrow> bytes \<Rightarrow> seq_filter \<Rightarrow> seq_filter" where
  "seq_put b i fp f = f\<lparr>seq_hash_table := put_cell (seq_hash_table f) (unat b) i fp\<rparr>"

definition seq_get_next_hash_index :: "seq_filter \<Rightarrow> u32 \<Rightarrow> bytes \<Rightarrow> u32" where
  "seq_get_next_hash_index f curr_idx fingerprint =
     (curr_idx XOR (jenkins_hash fingerprint mod seq_table_size f)) mod seq_table_size f"

section \<open>Operations\<close>

text \<open>The replacement loop: \<open>n\<close> kicks left, \<open>j\<close> the number of \<open>rand()\<close> calls made.\<close>

primrec seq_kick ::
  "nat \<Rightarrow> (nat \<Rightarrow> nat) \<Rightarrow> nat \<Rightarrow> u32 \<Rightarrow> bytes \<Rightarrow> seq_filter \<Rightarrow> bool \<times> seq_filter" where
  "seq_kick 0 rnd j replace_hash fingerprint f = (False, seq_unlock f)"
| "seq_kick (Suc n) rnd j replace_hash fingerprint f =
     (let bucket_idx = rnd j mod NUM_ITEMS_PER_ENTRY;
          evicted = cell (seq_hash_table f) (unat replace_hash) bucket_idx;
          f = seq_put replace_hash bucket_idx fingerprint f;
          replace_hash = seq_get_next_hash_index f replace_hash evicted
      in case empty_slot (seq_hash_table f) replace_hash of
           Some i \<Rightarrow> (True, seq_unlock (seq_put replace_hash i evicted f))
         | None \<Rightarrow> seq_kick n rnd (Suc j) replace_hash evicted f)"

definition seq_insert ::
  "evp_digest \<Rightarrow> (nat \<Rightarrow> nat) \<Rightarrow> bytes \<Rightarrow> seq_filter \<Rightarrow> seq_error + bool \<times> seq_filter" where
  "seq_insert evp rnd key f =
     (if seq_mtx f then Inl Blocked
      else
        let f = f\<lparr>seq_mtx := True\<rparr>;
            fingerprint = md5_fingerprint evp key
        in if seq_table_size f = 0 then Inl DivByZero
        else
          let hash1 = jenkins_hash key mod seq_table_size f;
              hash2 = seq_get_next_hash_index f hash1 fingerprint
          in case empty_slot (seq_hash_table f) hash1 of
               Some i \<Rightarrow> Inr (True, seq_unlock (seq_put hash1 i fingerprint f))
             | None \<Rightarrow>
                 (case empty_slot (seq_hash_table f) hash2 of
                    Some i \<Rightarrow> Inr (True, seq_unlock (seq_put hash2 i fingerprint f))
                  | None \<Rightarrow>
                      let flag = rnd 0 mod 2;
                          replace_hash = (if flag = 0 then hash1 else hash2)
                      in Inr (seq_kick NUM_MAX_KICKS rnd 1 replace_hash fingerprint f)))"

definition seq_find :: "evp_digest \<Rightarrow> bytes \<Rightarrow> seq_filter \<Rightarrow> seq_error + bool \<times> seq_filter" where
  "seq_find evp key f =
     (if seq_mtx f then Inl Blocked
      else
        let f = f\<lparr>seq_mtx := True\<rparr>;
            fingerprint = md5_fingerprint evp key
        in if seq_table_size f = 0 then Inl DivByZero
        else
          let hash1 = jenkins_hash key mod seq_table_size f;
              hash2 = seq_get_next_hash_index f hash1 fingerprint
          in if slot_of (seq_hash_table f) hash1 fingerprint \<noteq> None then Inr (True, seq_unlock f)
             else if slot_of (seq_hash_table f) hash2 fingerprint \<noteq> None
             then Inr (True, seq_unlock f)
             else Inr (False, seq_unlock f))"

definition seq_remove :: "evp_digest \<Rightarrow> bytes \<Rightarrow> seq_filter \<Rightarrow> seq_error + bool \<times> seq_filter" where
  "seq_remove evp key f =
     (if seq_mtx f then Inl Blocked
      else
        let f = f\<lparr>seq_mtx := True\<rparr>;
            fingerprint = md5_fingerprint evp key
        in if seq_table_size f = 0 then Inl DivByZero
        else
          let hash1 = jenkins_hash key mod seq_table_size f;
              hash2 = seq_get_next_hash_index f hash1 fingerprint
          in case nonempty_slot_of (seq_hash_table f) hash1 fingerprint of
               Some i \<Rightarrow> Inr (True, seq_unlock (seq_put hash1 i [] f))
             | None \<Rightarrow>
                 (case nonempty_slot_of (seq_hash_table f) hash2 fingerprint of
                    Some i \<Rightarrow> Inr (True, seq_unlock (seq_put hash2 i [] f))
                  | None \<Rightarrow> Inr (False, seq_unlock f)))"

definition seq_size :: "seq_filter \<Rightarrow> u32" where
  "seq_size f = seq_table_size f"


section \<open>The invariant\<close>

text \<open>
  Between two calls the mutex is free and the table has \<open>table_size\<close> rows of four slots.
  \<open>table_size\<close> never changes, so it is a parameter.
\<close>

definition seq_inv :: "u32 \<Rightarrow> seq_filter \<Rightarrow> bool" where
  "seq_inv ts f \<longleftrightarrow> seq_table_size f = ts \<and> ts \<noteq> 0 \<and> table_ok ts (seq_hash_table f) \<and> \<not> seq_mtx f"

lemma seq_unlock_simps [simp]:
  "seq_table_size (seq_unlock f) = seq_table_size f"
  "seq_hash_table (seq_unlock f) = seq_hash_table f"
  "seq_verbose (seq_unlock f) = seq_verbose f"
  "\<not> seq_mtx (seq_unlock f)"
  by (simp_all add: seq_unlock_def)

lemma seq_put_simps [simp]:
  "seq_table_size (seq_put b i x f) = seq_table_size f"
  "seq_verbose (seq_put b i x f) = seq_verbose f"
  "seq_mtx (seq_put b i x f) = seq_mtx f"
  "seq_hash_table (seq_put b i x f) = put_cell (seq_hash_table f) (unat b) i x"
  by (simp_all add: seq_put_def)

lemma seq_next_eq [simp]:
  "seq_get_next_hash_index f b fp = get_next_hash_index (seq_table_size f) b fp"
  by (simp add: seq_get_next_hash_index_def get_next_hash_index_def)

section \<open>The replacement loop\<close>

lemma seq_kick_frame:
  assumes "seq_kick n rnd j b fp f = (r, f')"
  shows "seq_table_size f' = seq_table_size f \<and> seq_verbose f' = seq_verbose f \<and> \<not> seq_mtx f' \<and>
    (table_ok ts (seq_hash_table f) \<longrightarrow> table_ok ts (seq_hash_table f'))"
  using assms
proof (induction n arbitrary: j b fp f)
  case (Suc n)
  from Suc.prems show ?case
    by (auto simp: Let_def split: option.splits dest!: Suc.IH)
qed auto

text \<open>
  Conservation: whatever the weight \<open>g\<close> that a fingerprint carries, as long as moving it to
  the partner bucket does not change the weight, a successful loop adds the weight of the
  fingerprint it was given and a failed one loses that of one fingerprint.
\<close>

lemma seq_kick_contents:
  fixes g :: "u32 \<Rightarrow> bytes \<Rightarrow> 'x multiset"
  assumes "seq_kick n rnd j b fp f = (r, f')"
    and "seq_table_size f = ts" "ts \<noteq> 0" "table_ok ts (seq_hash_table f)"
    and "b < ts" "fp \<noteq> []" "empty_slot (seq_hash_table f) b = None"
    and move: "\<And>b fp. b < ts \<Longrightarrow> g (get_next_hash_index ts b fp) fp = g b fp"
  shows "if r then contents ts g (seq_hash_table f') = contents ts g (seq_hash_table f) + g b fp
    else \<exists>b' fp'. b' < ts \<and> fp' \<noteq> [] \<and>
      contents ts g (seq_hash_table f') + g b' fp' = contents ts g (seq_hash_table f) + g b fp"
  using assms(1-7)
proof (induction n arbitrary: j b fp f)
  case 0
  then show ?case by (auto intro!: exI [of _ b] exI [of _ fp])
next
  case (Suc n)
  define k where "k = rnd j mod NUM_ITEMS_PER_ENTRY"
  define ev where "ev = cell (seq_hash_table f) (unat b) k"
  define f1 where "f1 = seq_put b k fp f"
  define b1 where "b1 = get_next_hash_index ts b ev"
  have k: "k < NUM_ITEMS_PER_ENTRY" by (simp add: k_def)
  then have ev: "ev \<noteq> []"
    using Suc.prems(7) by (auto simp: ev_def empty_slot_def)
  have b1: "b1 < ts" unfolding b1_def by (rule get_next_hash_index_less) fact
  have swap: "contents ts g (seq_hash_table f1) + g b ev = contents ts g (seq_hash_table f) + g b fp"
    using contents_replace [OF Suc.prems(4,5) k Suc.prems(6), of g] ev
    by (simp add: f1_def ev_def)
  have gb: "g b1 ev = g b ev" unfolding b1_def by (rule move) fact
  then have tot: "contents ts g (seq_hash_table f1) + g b1 ev = contents ts g (seq_hash_table f) + g b fp"
    using swap by simp
  have ok1: "table_ok ts (seq_hash_table f1)" "seq_table_size f1 = ts"
    using Suc.prems by (simp_all add: f1_def)
  show ?case
  proof (cases "empty_slot (seq_hash_table f1) b1")
    case (Some i)
    then have "r" "f' = seq_unlock (seq_put b1 i ev f1)"
      using Suc.prems(1,2) by (auto simp: Let_def f1_def b1_def ev_def k_def)
    then show ?thesis
      using contents_put_empty [OF ok1(1) b1 Some ev, of g] swap gb by simp
  next
    case None
    then have rest: "seq_kick n rnd (Suc j) b1 ev f1 = (r, f')"
      using Suc.prems(1,2) by (auto simp: Let_def f1_def b1_def ev_def k_def)
    show ?thesis
      using Suc.IH [OF rest ok1(2) Suc.prems(3) ok1(1) b1 ev None] unfolding tot .
  qed
qed

section \<open>The operations, case by case\<close>

text \<open>The three outcomes of an insertion that finds the mutex free.\<close>

lemma seq_insert_cases:
  fixes evp :: evp_digest and key :: bytes
  assumes "seq_inv ts f"
  defines "fp \<equiv> md5_fingerprint evp key" and "h1 \<equiv> jenkins_hash key mod ts"
  defines "h2 \<equiv> get_next_hash_index ts h1 fp"
  obtains (Direct) b i where "seq_insert evp rnd key f =
        Inr (True, seq_unlock (seq_put b i fp (f\<lparr>seq_mtx := True\<rparr>)))"
      "b \<in> {h1, h2}" "empty_slot (seq_hash_table f) b = Some i"
  | (Kick) b where "seq_insert evp rnd key f =
        Inr (seq_kick NUM_MAX_KICKS rnd 1 b fp (f\<lparr>seq_mtx := True\<rparr>))"
      "b \<in> {h1, h2}" "empty_slot (seq_hash_table f) b = None"
proof -
  have *: "seq_mtx f = False" "seq_table_size f = ts" "ts \<noteq> 0"
    using assms(1) by (auto simp: seq_inv_def)
  show ?thesis
  proof (cases "empty_slot (seq_hash_table f) h1")
    case (Some i)
    with * show ?thesis
      by (intro Direct [of h1 i]) (auto simp: seq_insert_def Let_def h1_def fp_def)
  next
    case h1: None
    show ?thesis
    proof (cases "empty_slot (seq_hash_table f) h2")
      case (Some i)
      with h1 * show ?thesis
        by (intro Direct [of h2 i]) (auto simp: seq_insert_def Let_def h1_def h2_def fp_def)
    next
      case None
      with h1 * show ?thesis
        by (intro Kick [of "if rnd 0 mod 2 = 0 then h1 else h2"])
          (auto simp: seq_insert_def Let_def h1_def h2_def fp_def)
    qed
  qed
qed


text \<open>A removal clears one slot of the two buckets that holds the fingerprint, if any does.\<close>

lemma seq_remove_cases:
  fixes evp :: evp_digest and key :: bytes
  assumes "seq_inv ts f" "md5_fingerprint evp key \<noteq> []"
  defines "fp \<equiv> md5_fingerprint evp key" and "h1 \<equiv> jenkins_hash key mod ts"
  defines "h2 \<equiv> get_next_hash_index ts h1 fp"
  obtains (Hit) b i where
      "seq_remove evp key f = Inr (True, seq_unlock (seq_put b i [] (f\<lparr>seq_mtx := True\<rparr>)))"
      "b \<in> {h1, h2}" "slot_of (seq_hash_table f) b fp = Some i"
  | (Miss) "seq_remove evp key f = Inr (False, f)"
      "slot_of (seq_hash_table f) h1 fp = None" "slot_of (seq_hash_table f) h2 fp = None"
proof -
  have *: "seq_mtx f = False" "seq_table_size f = ts" "ts \<noteq> 0"
    using assms(1) by (auto simp: seq_inv_def)
  have scan: "nonempty_slot_of t b fp = slot_of t b fp" for t b
    by (rule nonempty_slot_of_eq) (use assms(2) in \<open>simp add: fp_def\<close>)
  have f: "seq_unlock (f\<lparr>seq_mtx := True\<rparr>) = f"
    using * by (simp add: seq_unlock_def)
  show ?thesis
  proof (cases "slot_of (seq_hash_table f) h1 fp")
    case (Some i)
    with * show ?thesis
      by (intro Hit [of h1 i]) (auto simp: seq_remove_def Let_def h1_def fp_def scan [unfolded fp_def])
  next
    case h1: None
    show ?thesis
    proof (cases "slot_of (seq_hash_table f) h2 fp")
      case (Some i)
      with h1 * show ?thesis
        by (intro Hit [of h2 i])
          (auto simp: seq_remove_def Let_def h1_def h2_def fp_def scan [unfolded fp_def])
    next
      case None
      with h1 * show ?thesis
        by (intro Miss)
          (auto simp: seq_remove_def Let_def h1_def h2_def fp_def scan [unfolded fp_def] f)
    qed
  qed
qed

lemma seq_find_result:
  assumes "seq_inv ts f"
  shows "seq_find evp key f = Inr
    (slot_of (seq_hash_table f) (jenkins_hash key mod ts) (md5_fingerprint evp key) \<noteq> None \<or>
     slot_of (seq_hash_table f)
       (get_next_hash_index ts (jenkins_hash key mod ts) (md5_fingerprint evp key))
       (md5_fingerprint evp key) \<noteq> None, f)"
proof -
  have *: "seq_mtx f = False" "seq_table_size f = ts" "ts \<noteq> 0"
    using assms by (auto simp: seq_inv_def)
  have "seq_unlock (f\<lparr>seq_mtx := True\<rparr>) = f"
    using * by (simp add: seq_unlock_def)
  with * show ?thesis by (simp add: seq_find_def Let_def)
qed

section \<open>Refinement of the filter contract\<close>

text \<open>
  With a power-of-two table and MD5 fingerprints (never empty) the filter is exactly a
  multiset of items.
\<close>

definition seq_ready :: "evp_digest \<Rightarrow> u32 \<Rightarrow> seq_filter \<Rightarrow> bool" where
  "seq_ready evp ts f \<longleftrightarrow> evp_md5_ok evp \<and> is_pow2 ts \<and> seq_inv ts f"

definition seq_items :: "seq_filter \<Rightarrow> (bytes \<times> u32 set) multiset" where
  "seq_items f = items (seq_table_size f) (seq_hash_table f)"

definition seq_ins :: "evp_digest \<Rightarrow> bytes \<Rightarrow> seq_filter \<Rightarrow> bool \<Rightarrow> seq_filter \<Rightarrow> bool" where
  "seq_ins evp key f r f' \<longleftrightarrow> (\<exists>rnd. seq_insert evp rnd key f = Inr (r, f'))"

definition seq_fnd :: "evp_digest \<Rightarrow> bytes \<Rightarrow> seq_filter \<Rightarrow> bool \<Rightarrow> seq_filter \<Rightarrow> bool" where
  "seq_fnd evp key f r f' \<longleftrightarrow> seq_find evp key f = Inr (r, f')"

definition seq_del :: "evp_digest \<Rightarrow> bytes \<Rightarrow> seq_filter \<Rightarrow> bool \<Rightarrow> seq_filter \<Rightarrow> bool" where
  "seq_del evp key f r f' \<longleftrightarrow> seq_remove evp key f = Inr (r, f')"

text \<open>An insertion keeps the invariant whatever the table size.\<close>

lemma seq_insert_inv:
  assumes "seq_inv ts f"
  obtains r f' where "seq_insert evp rnd key f = Inr (r, f')" "seq_inv ts f'"
proof -
  from assms show thesis
  proof (cases rule: seq_insert_cases [where evp = evp and rnd = rnd and key = key])
    case (Direct b i)
    with assms show ?thesis by (intro that [of True]) (auto simp: seq_inv_def)
  next
    case (Kick b)
    obtain r f' where k:
      "seq_kick NUM_MAX_KICKS rnd 1 b (md5_fingerprint evp key) (f\<lparr>seq_mtx := True\<rparr>) = (r, f')"
      by force
    with Kick(1) assms seq_kick_frame [OF k, of ts] show ?thesis
      by (intro that [of r f']) (auto simp: seq_inv_def)
  qed
qed

text \<open>Conservation for an arbitrary weight that a move to the partner bucket keeps.\<close>

lemma seq_insert_contents:
  fixes g :: "u32 \<Rightarrow> bytes \<Rightarrow> 'x multiset"
  assumes "seq_inv ts f" "seq_insert evp rnd key f = Inr (r, f')"
    and nonempty: "md5_fingerprint evp key \<noteq> []"
    and move: "\<And>b fp. b < ts \<Longrightarrow> g (get_next_hash_index ts b fp) fp = g b fp"
  defines "w \<equiv> g (jenkins_hash key mod ts) (md5_fingerprint evp key)"
  shows "if r then contents ts g (seq_hash_table f') = contents ts g (seq_hash_table f) + w
    else \<exists>b fp. b < ts \<and> fp \<noteq> [] \<and>
      contents ts g (seq_hash_table f') + g b fp = contents ts g (seq_hash_table f) + w"
proof -
  let ?fp = "md5_fingerprint evp key" and ?h = "jenkins_hash key mod ts"
  have ts: "ts \<noteq> 0" "table_ok ts (seq_hash_table f)" "seq_table_size f = ts"
    using assms(1) by (auto simp: seq_inv_def)
  have in_pair: "b < ts \<and> g b ?fp = w" if "b \<in> {?h, get_next_hash_index ts ?h ?fp}" for b
    using that move [OF hash_mod_less [OF ts(1)]] ts(1)
    by (auto simp: w_def hash_mod_less get_next_hash_index_less)
  from assms(1) show ?thesis
  proof (cases rule: seq_insert_cases [where evp = evp and rnd = rnd and key = key])
    case (Direct b i)
    then show ?thesis
      using assms(2) contents_put_empty [OF ts(2), of b i ?fp g] in_pair [of b] nonempty by auto
  next
    case (Kick b)
    then have k: "seq_kick NUM_MAX_KICKS rnd 1 b ?fp (f\<lparr>seq_mtx := True\<rparr>) = (r, f')"
      using assms(2) by simp
    from seq_kick_contents [OF k, of ts g] in_pair [OF Kick(2)] Kick(3) ts nonempty move
    show ?thesis by (simp split: if_split_asm)
  qed
qed


lemma seq_ready_D:
  assumes "seq_ready evp ts f"
  shows "seq_inv ts f" "is_pow2 ts" "md5_fingerprint evp key \<noteq> []" "seq_table_size f = ts"
    "ts \<noteq> 0" "table_ok ts (seq_hash_table f)"
  using assms by (auto simp: seq_ready_def seq_inv_def md5_fingerprint_nonempty)

lemma seq_insert_items:
  assumes "seq_ready evp ts f" "seq_insert evp rnd key f = Inr (r, f')"
  shows "if r then seq_items f' = add_mset (key_item evp ts key) (seq_items f)
    else \<exists>x. add_mset x (seq_items f') = add_mset (key_item evp ts key) (seq_items f)"
proof -
  note D = seq_ready_D [OF assms(1)]
  obtain r' f'' where "seq_insert evp rnd key f = Inr (r', f'')" "seq_inv ts f''"
    by (rule seq_insert_inv [OF D(1)])
  then have ts': "seq_table_size f' = ts" using assms(2) by (simp add: seq_inv_def)
  show ?thesis
    using seq_insert_contents [OF D(1) assms(2) D(3), of "\<lambda>b fp. {#(fp, home ts b fp)#}"]
      home_weight [OF D(2)]
    by (auto simp: seq_items_def items_def key_item_def ts' D(4) split: if_splits)
qed

lemma seq_remove_items:
  assumes "seq_ready evp ts f" "seq_remove evp key f = Inr (r, f')"
  shows "seq_inv ts f' \<and> (r \<longleftrightarrow> key_item evp ts key \<in># seq_items f) \<and>
    seq_items f' = seq_items f - {#key_item evp ts key#}"
proof -
  note D = seq_ready_D [OF assms(1)]
  let ?fp = "md5_fingerprint evp key" and ?h = "jenkins_hash key mod ts"
  have scan: "key_item evp ts key \<in># seq_items f \<longleftrightarrow>
      slot_of (seq_hash_table f) ?h ?fp \<noteq> None \<or>
      slot_of (seq_hash_table f) (get_next_hash_index ts ?h ?fp) ?fp \<noteq> None"
    unfolding seq_items_def D(4) by (rule key_item_scan [OF D(2,3)])
  from D(1,3) show ?thesis
  proof (cases rule: seq_remove_cases [where evp = evp and key = key])
    case (Hit b i)
    have b: "b < ts" "home ts b ?fp = home ts ?h ?fp"
      using Hit(2) home_next [of ts ?h ?fp] D(2,5)
      by (auto simp: pow2_index_def hash_mod_less get_next_hash_index_less)
    have f': "r" "f' = seq_unlock (seq_put b i [] (f\<lparr>seq_mtx := True\<rparr>))"
      using assms(2) Hit(1) by auto
    have "items ts (seq_hash_table f') + {#key_item evp ts key#} = items ts (seq_hash_table f)"
      using contents_clear [OF D(6) b(1), of i "\<lambda>b fp. {#(fp, home ts b fp)#}"]
        slot_of_SomeD [OF Hit(3)] D(3)
      by (simp add: f'(2) items_def key_item_def b(2))
    then have "seq_items f = seq_items f' + {#key_item evp ts key#}"
      by (simp add: seq_items_def f'(2) D(4))
    moreover have "seq_inv ts f'"
      using D(1) by (simp add: seq_inv_def f'(2))
    ultimately show ?thesis using f'(1) by simp
  next
    case Miss
    then show ?thesis using assms(2) scan D(1) by (auto simp: diff_single_trivial)
  qed
qed

interpretation seq: amq "seq_ready evp ts" seq_items "key_item evp ts" "seq_ins evp" "seq_fnd evp"
    "seq_del evp" for evp ts
proof unfold_locales
  fix s k r t
  assume s: "seq_ready evp ts s"
  note D = seq_ready_D [OF s]
  show "seq_ready evp ts t" if ins: "seq_ins evp k s r t"
  proof -
    from ins obtain rnd where "seq_insert evp rnd k s = Inr (r, t)" by (auto simp: seq_ins_def)
    with seq_insert_inv [OF D(1), of evp rnd k] have "seq_inv ts t" by force
    with s show ?thesis by (simp add: seq_ready_def)
  qed
  show "seq_items t = add_mset (key_item evp ts k) (seq_items s)" if "seq_ins evp k s True t"
    using that seq_insert_items [OF s, of _ k True t] by (auto simp: seq_ins_def)
  show "\<exists>x. add_mset x (seq_items t) = add_mset (key_item evp ts k) (seq_items s)"
    if "seq_ins evp k s False t"
    using that seq_insert_items [OF s, of _ k False t] by (auto simp: seq_ins_def)
  have find: "t = s \<and> (r \<longleftrightarrow> key_item evp ts k \<in># seq_items s)" if "seq_fnd evp k s r t"
    using that [unfolded seq_fnd_def] unfolding seq_items_def D(4) key_item_scan [OF D(2,3)]
      seq_find_result [OF D(1), of evp k] by blast
  show "seq_ready evp ts t" "seq_items t = seq_items s" "r \<longleftrightarrow> key_item evp ts k \<in># seq_items s"
    if "seq_fnd evp k s r t"
    using find [OF that] s by simp_all
  show "seq_ready evp ts t" "r \<longleftrightarrow> key_item evp ts k \<in># seq_items s"
    "seq_items t = seq_items s - {#key_item evp ts k#}" if "seq_del evp k s r t"
    using seq_remove_items [OF s, of k r t] that s by (simp_all add: seq_del_def seq_ready_def)
qed


section \<open>Sequences of insertions, and a concrete digest for examples\<close>

primrec seq_insert_all ::
  "evp_digest \<Rightarrow> (nat \<Rightarrow> nat) \<Rightarrow> bytes list \<Rightarrow> seq_filter \<Rightarrow> seq_error + bool list \<times> seq_filter" where
  "seq_insert_all evp rnd [] f = Inr ([], f)"
| "seq_insert_all evp rnd (k # ks) f =
     (case seq_insert evp rnd k f of
        Inl e \<Rightarrow> Inl e
      | Inr (r, f) \<Rightarrow>
          (case seq_insert_all evp rnd ks f of
             Inl e \<Rightarrow> Inl e
           | Inr (rs, f) \<Rightarrow> Inr (r # rs, f)))"

lemma seq_new_inv:
  assumes "seq_new capacity v = Inr f" "capacity \<noteq> 0"
  shows "seq_inv capacity f \<and> seq_items f = {#}"
  using assms
  by (auto simp: seq_new_def seq_inv_def seq_items_def items_def table_ok_def split: if_splits)

definition seq_demo :: seq_filter where
  "seq_demo = \<lparr>seq_table_size = 4, seq_verbose = False,
     seq_hash_table = replicate 4 (replicate 4 []), seq_mtx = False\<rparr>"

lemma seq_demo_new: "seq_new 4 False = Inr seq_demo"
  by (simp add: seq_new_def seq_demo_def NUM_ITEMS_PER_ENTRY_def)

lemma seq_demo_ready: "seq_ready pad_evp 4 seq_demo"
  using seq_new_inv [OF seq_demo_new] by (simp add: seq_ready_def pad_evp_ok is_pow2_4)

text \<open>No more copies of one item fit than its two buckets have slots.\<close>

lemma cell_sum_count:
  fixes g :: "nat \<Rightarrow> nat \<Rightarrow> 'a \<Rightarrow> 'c multiset"
  shows "count (cell_sum n m g t) z = (\<Sum>(b, i) \<in> {..<n} \<times> {..<m}. count (g b i (cell t b i)) z)"
  unfolding cell_sum_def by (subst count_sum) (simp add: case_prod_beta)

lemma items_count_le: "count (items ts t) (fp, home ts h fp) \<le> 2 * NUM_ITEMS_PER_ENTRY"
proof -
  let ?z = "(fp, home ts h fp)" and ?B = "unat ` home ts h fp"
  let ?g = "\<lambda>b :: nat. \<lambda>x. slot_contents (\<lambda>b fp. {#(fp, home ts b fp)#}) (word_of_nat b) x"
  have small: "count (?g b x) ?z \<le> (if b \<in> ?B then 1 else 0)" if "b < unat ts" for b x
  proof -
    have u: "unat (word_of_nat b :: u32) = b"
      using that unat_lt_numerals(3) [of ts] by (simp add: unsigned_of_nat take_bit_nat_eq_self)
    have "word_of_nat b \<in> home ts (word_of_nat b) x" by (simp add: home_def)
    with u show ?thesis by (auto simp: slot_contents_def intro!: image_eqI [of b])
  qed
  have "count (items ts t) ?z =
      (\<Sum>(b, i) \<in> {..<unat ts} \<times> {..<NUM_ITEMS_PER_ENTRY}. count (?g b (cell t b i)) ?z)"
    by (simp add: items_def contents_def cell_sum_count)
  also have "\<dots> \<le> (\<Sum>(b, i) \<in> {..<unat ts} \<times> {..<NUM_ITEMS_PER_ENTRY}. if b \<in> ?B then 1 else 0)"
    by (rule sum_mono) (use small in \<open>auto simp del: image_iff\<close>)
  also have "\<dots> = card (({..<unat ts} \<inter> ?B) \<times> {..<NUM_ITEMS_PER_ENTRY})"
    by (subst sum.cartesian_product [symmetric])
      (simp add: sum.If_cases sum_distrib_left [symmetric] card_cartesian_product)
  also have "\<dots> \<le> card ?B * NUM_ITEMS_PER_ENTRY"
    by (simp add: card_cartesian_product, intro disjI2 card_mono) (simp_all add: home_def)
  also have "card ?B \<le> 2"
    by (rule order_trans [OF card_image_le]) (simp_all add: home_def card_insert_if)
  finally show ?thesis by simp
qed


section \<open>Properties\<close>

text \<open>
  C12. Refinement: on a filter whose size is a power of two, with fingerprints as long as
  MD5's, every operation returns with the mutex released and acts on the multiset of stored
  items: a successful insertion adds exactly the key's item, a failed one trades the key's
  item for exactly one stored item, \<open>find\<close> answers membership and changes nothing, \<open>remove\<close>
  answers membership and takes exactly one copy away.
\<close>

theorem seq_filter_refines_multiset:
  assumes "evp_md5_ok evp" "is_pow2 ts" "seq_inv ts f"
  shows "(\<exists>r f'. seq_insert evp rnd key f = Inr (r, f') \<and> seq_inv ts f' \<and>
      (if r then seq_items f' = add_mset (key_item evp ts key) (seq_items f)
       else \<exists>x. add_mset x (seq_items f') = add_mset (key_item evp ts key) (seq_items f))) \<and>
    seq_find evp key f = Inr (key_item evp ts key \<in># seq_items f, f) \<and>
    (\<exists>f'. seq_remove evp key f = Inr (key_item evp ts key \<in># seq_items f, f') \<and> seq_inv ts f' \<and>
      seq_items f' = seq_items f - {#key_item evp ts key#})"
proof -
  have ready: "seq_ready evp ts f" using assms by (simp add: seq_ready_def)
  obtain r f' where i: "seq_insert evp rnd key f = Inr (r, f')" "seq_inv ts f'"
    by (rule seq_insert_inv [OF assms(3)])
  obtain q g where q: "seq_find evp key f = Inr (q, g)" "g = f"
    using seq_find_result [OF assms(3)] by simp
  have "\<exists>r g. seq_remove evp key f = Inr (r, g)"
    using assms(3) seq_ready_D(3) [OF ready]
    by (cases rule: seq_remove_cases [where evp = evp and key = key]) auto
  then obtain p h where p: "seq_remove evp key f = Inr (p, h)" by blast
  show ?thesis
    using i seq_insert_items [OF ready i(1)] q seq.fnd_result [OF ready, of key q g] p
      seq_remove_items [OF ready p]
    by (simp add: seq_fnd_def)
qed

lemma seq_filter_refines_multiset_witness:
  "seq_find pad_evp [7] seq_demo = Inr (key_item pad_evp 4 [7] \<in># seq_items seq_demo, seq_demo)"
  using seq_filter_refines_multiset [OF pad_evp_ok is_pow2_4, of seq_demo "\<lambda>_. 0" "[7]"]
    seq_demo_ready by (simp add: seq_ready_def)

text \<open>
  No false negatives over any history: after any sequence of calls on a fresh filter of
  power-of-two size in which no insertion failed, \<open>find key\<close> returns true exactly when the
  item of the key was successfully inserted more often than it was successfully removed.
\<close>

lemma seq_find_after_history:
  assumes "evp_md5_ok evp" "is_pow2 capacity" "seq_new capacity v = Inr f0"
    and "history (seq_ins evp) (seq_fnd evp) (seq_del evp) f0 hs f" "no_failed_insert hs"
    and "seq_find evp key f = Inr (r, f')"
  shows "r \<longleftrightarrow> count (image_mset (key_item evp capacity) (removed hs)) (key_item evp capacity key)
    < count (image_mset (key_item evp capacity) (inserted hs)) (key_item evp capacity key)"
proof -
  from seq_new_inv [OF assms(3) is_pow2_neq_0 [OF assms(2)]] assms(1,2)
  have ready: "seq_ready evp capacity f0" and empty: "seq_items f0 = {#}"
    by (simp_all add: seq_ready_def)
  show ?thesis
    by (rule seq.query_balance [OF assms(4) ready empty assms(5)])
      (use assms(6) in \<open>simp add: seq_fnd_def\<close>)
qed

lemma seq_find_after_history_witness:
  "\<exists>f. history (seq_ins pad_evp) (seq_fnd pad_evp) (seq_del pad_evp) seq_demo [Ins [7] True] f \<and>
     seq_find pad_evp [7] f = Inr (True, f)"
proof -
  obtain f where f: "seq_insert pad_evp (\<lambda>_. 0) [7] seq_demo = Inr (True, f)"
  proof -
    have "map_sum id fst (seq_insert pad_evp (\<lambda>_. 0) [7] seq_demo) = Inr True"
      by code_simp
    with that show ?thesis
      by (cases "seq_insert pad_evp (\<lambda>_. 0) [7] seq_demo") auto
  qed
  then have h: "history (seq_ins pad_evp) (seq_fnd pad_evp) (seq_del pad_evp) seq_demo
      [Ins [7] True] f"
    by (intro history_Ins [of _ _ _ True]) (auto simp: seq_ins_def intro: history_Nil)
  have "seq_ready pad_evp 4 f"
    by (rule seq.history_inv [OF h seq_demo_ready])
  then obtain r where r: "seq_find pad_evp [7] f = Inr (r, f)"
    using seq_find_result [OF seq_ready_D(1)] by blast
  have "r"
    using seq_find_after_history [OF pad_evp_ok is_pow2_4 seq_demo_new h _ r]
    by (simp add: no_failed_insert_def)
  with h r show ?thesis by auto
qed

text \<open>
  C33. For every nonzero table size, also one that is no power of two: an insertion always
  returns, with the mutex released; a successful one adds exactly its fingerprint to the
  stored fingerprints, a failed one loses exactly one fingerprint (its own or an evicted one).
\<close>

theorem seq_insert_conserves_fingerprints:
  assumes "md5_fingerprint evp key \<noteq> []" "seq_inv ts f"
  shows "\<exists>r f'. seq_insert evp rnd key f = Inr (r, f') \<and> seq_inv ts f' \<and>
    (if r then fingerprints ts (seq_hash_table f') =
        add_mset (md5_fingerprint evp key) (fingerprints ts (seq_hash_table f))
     else \<exists>fp. add_mset fp (fingerprints ts (seq_hash_table f')) =
        add_mset (md5_fingerprint evp key) (fingerprints ts (seq_hash_table f)))"
proof -
  obtain r f' where i: "seq_insert evp rnd key f = Inr (r, f')" "seq_inv ts f'"
    by (rule seq_insert_inv [OF assms(2)])
  then show ?thesis
    using seq_insert_contents [OF assms(2) i(1) assms(1), of "\<lambda>b fp. {#fp#}"]
    by (auto simp: fingerprints_def split: if_splits)
qed

lemma seq_insert_conserves_fingerprints_witness:
  "\<exists>r f'. seq_insert pad_evp (\<lambda>_. 0) [7] seq_demo = Inr (r, f') \<and> seq_inv 4 f'"
  using seq_insert_conserves_fingerprints [of pad_evp "[7]" 4 seq_demo "\<lambda>_. 0"]
    seq_ready_D(1,3) [OF seq_demo_ready] by blast

text \<open>
  Sequences of calls: call \<open>n\<close> from the end draws its random numbers from \<open>rnd n\<close>. The first call
  that throws ends the sequence.
\<close>

primrec seq_call ::
  "evp_digest \<Rightarrow> (nat \<Rightarrow> nat) \<Rightarrow> filter_call \<Rightarrow> seq_filter \<Rightarrow> seq_error + bool \<times> seq_filter" where
  "seq_call evp rnd (InsertKey k) f = seq_insert evp rnd k f"
| "seq_call evp rnd (FindKey k) f = seq_find evp k f"
| "seq_call evp rnd (RemoveKey k) f = seq_remove evp k f"

primrec seq_calls ::
  "evp_digest \<Rightarrow> (nat \<Rightarrow> nat \<Rightarrow> nat) \<Rightarrow> filter_call list \<Rightarrow> seq_filter \<Rightarrow> seq_error + bool list \<times> seq_filter" where
  "seq_calls evp rnd [] f = Inr ([], f)"
| "seq_calls evp rnd (c # cs) f =
     (case seq_call evp (rnd (length cs)) c f of
        Inl e \<Rightarrow> Inl e
      | Inr (r, f) \<Rightarrow>
          (case seq_calls evp rnd cs f of Inl e \<Rightarrow> Inl e | Inr (rs, f) \<Rightarrow> Inr (r # rs, f)))"

text \<open>The fingerprints that calls bring and take, and the number of failed insertions.\<close>

primrec fps_brought :: "evp_digest \<Rightarrow> filter_call \<Rightarrow> bytes multiset" where
  "fps_brought evp (InsertKey k) = {#md5_fingerprint evp k#}"
| "fps_brought evp (FindKey k) = {#}"
| "fps_brought evp (RemoveKey k) = {#}"

primrec fps_taken :: "evp_digest \<Rightarrow> filter_call \<Rightarrow> bool \<Rightarrow> bytes multiset" where
  "fps_taken evp (InsertKey k) r = {#}"
| "fps_taken evp (FindKey k) r = {#}"
| "fps_taken evp (RemoveKey k) r = (if r then {#md5_fingerprint evp k#} else {#})"

primrec insert_failed :: "filter_call \<Rightarrow> bool \<Rightarrow> nat" where
  "insert_failed (InsertKey k) r = (if r then 0 else 1)"
| "insert_failed (FindKey k) r = 0"
| "insert_failed (RemoveKey k) r = 0"

text \<open>One call on a table of any positive size.\<close>

lemma seq_insert_any_size:
  assumes "evp_md5_ok evp" "seq_inv ts f"
  obtains r f' lost where "seq_insert evp rnd k f = Inr (r, f')" "seq_inv ts f'"
    "fingerprints ts (seq_hash_table f') + lost = add_mset (md5_fingerprint evp k) (fingerprints ts (seq_hash_table f))"
    "size lost = (if r then 0 else 1)"
proof -
  obtain r f' where i: "seq_insert evp rnd k f = Inr (r, f')" "seq_inv ts f'"
    by (rule seq_insert_inv [OF assms(2)])
  have c: "if r then fingerprints ts (seq_hash_table f') = fingerprints ts (seq_hash_table f) + {#md5_fingerprint evp k#}
    else \<exists>b fp. b < ts \<and> fp \<noteq> [] \<and> fingerprints ts (seq_hash_table f') + {#fp#} =
      fingerprints ts (seq_hash_table f) + {#md5_fingerprint evp k#}"
    unfolding fingerprints_def
    by (rule seq_insert_contents [OF assms(2) i(1) md5_fingerprint_nonempty [OF assms(1)]]) simp
  show thesis
  proof (cases r)
    case True
    with c i show thesis by (intro that [of r f' "{#}"]) auto
  next
    case False
    with c obtain fp where "fingerprints ts (seq_hash_table f') + {#fp#} =
        fingerprints ts (seq_hash_table f) + {#md5_fingerprint evp k#}" by auto
    with False i show thesis by (intro that [of r f' "{#fp#}"]) auto
  qed
qed

lemma seq_remove_any_size:
  assumes "evp_md5_ok evp" "seq_inv ts f"
  obtains r f' where "seq_remove evp k f = Inr (r, f')" "seq_inv ts f'"
    "fingerprints ts (seq_hash_table f') + (if r then {#md5_fingerprint evp k#} else {#}) =
      fingerprints ts (seq_hash_table f)"
  using assms(2) md5_fingerprint_nonempty [OF assms(1)]
proof (cases rule: seq_remove_cases [where evp = evp and key = k])
  case (Hit b i)
  have ts: "ts \<noteq> 0" "table_ok ts (seq_hash_table f)" using assms(2) by (auto simp: seq_inv_def)
  have b: "b < ts" using Hit(2) ts(1) by (auto simp: hash_mod_less get_next_hash_index_less)
  from slot_of_SomeD [OF Hit(3)] have i: "i < NUM_ITEMS_PER_ENTRY"
    "cell (seq_hash_table f) (unat b) i = md5_fingerprint evp k" by simp_all
  from contents_clear [OF ts(2) b i(1), of "\<lambda>b fp. {#fp#}"] i(2) md5_fingerprint_nonempty [OF assms(1)]
  have "fingerprints ts (put_cell (seq_hash_table f) (unat b) i []) + {#md5_fingerprint evp k#} =
      fingerprints ts (seq_hash_table f)"
    by (simp add: fingerprints_def)
  with Hit(1) assms(2) show thesis
    by (intro that [OF Hit(1)]) (auto simp: seq_inv_def)
next
  case Miss
  with assms(2) show thesis by (intro that [OF Miss(1)]) simp_all
qed

lemma seq_call_any_size:
  assumes "evp_md5_ok evp" "seq_inv ts f"
  obtains r f' lost where "seq_call evp rnd c f = Inr (r, f')" "seq_inv ts f'"
    "fingerprints ts (seq_hash_table f') + lost + fps_taken evp c r =
      fingerprints ts (seq_hash_table f) + fps_brought evp c"
    "size lost = insert_failed c r"
proof (cases c)
  case (InsertKey k)
  obtain r f' lost where "seq_insert evp rnd k f = Inr (r, f')" "seq_inv ts f'"
    "fingerprints ts (seq_hash_table f') + lost = add_mset (md5_fingerprint evp k) (fingerprints ts (seq_hash_table f))"
    "size lost = (if r then 0 else 1)"
    by (rule seq_insert_any_size [OF assms])
  with InsertKey show thesis by (intro that [of r f' lost]) simp_all
next
  case (FindKey k)
  with seq_find_result [OF assms(2), of evp k] assms(2) show thesis
    by (intro that [of _ f "{#}"]) auto
next
  case (RemoveKey k)
  obtain r f' where "seq_remove evp k f = Inr (r, f')" "seq_inv ts f'"
    "fingerprints ts (seq_hash_table f') + (if r then {#md5_fingerprint evp k#} else {#}) =
      fingerprints ts (seq_hash_table f)"
    by (rule seq_remove_any_size [OF assms])
  with RemoveKey show thesis by (intro that [of r f' "{#}"]) simp_all
qed

lemma seq_calls_account:
  assumes "evp_md5_ok evp" "seq_inv ts f"
  shows "\<exists>rs f' lost. seq_calls evp rnd cs f = Inr (rs, f') \<and> length rs = length cs \<and> seq_inv ts f' \<and>
    fingerprints ts (seq_hash_table f') + lost + sum_list (map2 (fps_taken evp) cs rs) =
      fingerprints ts (seq_hash_table f) + sum_list (map (fps_brought evp) cs) \<and>
    size lost = sum_list (map2 insert_failed cs rs)"
  using assms(2)
proof (induction cs arbitrary: f)
  case (Cons c cs)
  obtain r f1 lost1 where c: "seq_call evp (rnd (length cs)) c f = Inr (r, f1)" "seq_inv ts f1"
    "fingerprints ts (seq_hash_table f1) + lost1 + fps_taken evp c r =
      fingerprints ts (seq_hash_table f) + fps_brought evp c" "size lost1 = insert_failed c r"
    by (rule seq_call_any_size [OF assms(1) Cons.prems])
  from Cons.IH [OF c(2)] obtain rs f2 lost2 where cs: "seq_calls evp rnd cs f1 = Inr (rs, f2)"
    "length rs = length cs" "seq_inv ts f2"
    "fingerprints ts (seq_hash_table f2) + lost2 + sum_list (map2 (fps_taken evp) cs rs) =
      fingerprints ts (seq_hash_table f1) + sum_list (map (fps_brought evp) cs)"
    "size lost2 = sum_list (map2 insert_failed cs rs)"
    by blast
  have "fingerprints ts (seq_hash_table f2) + (lost1 + lost2) +
      (fps_taken evp c r + sum_list (map2 (fps_taken evp) cs rs)) =
      (fingerprints ts (seq_hash_table f2) + lost2 + sum_list (map2 (fps_taken evp) cs rs)) +
      lost1 + fps_taken evp c r"
    by (simp add: ac_simps)
  also have "\<dots> = (fingerprints ts (seq_hash_table f1) + lost1 + fps_taken evp c r) +
      sum_list (map (fps_brought evp) cs)"
    unfolding cs(4) by (simp add: ac_simps)
  finally show ?case
    using c cs by (intro exI [of _ "r # rs"] exI [of _ f2] exI [of _ "lost1 + lost2"]) (simp add: ac_simps)
qed simp

lemma seq_find_stored:
  assumes "evp_md5_ok evp" "seq_inv ts f" "seq_find evp k f = Inr (True, f')"
  shows "md5_fingerprint evp k \<in># fingerprints ts (seq_hash_table f)"
proof -
  let ?fp = "md5_fingerprint evp k" and ?h = "jenkins_hash k mod ts"
  have ts: "ts \<noteq> 0" using assms(2) by (simp add: seq_inv_def)
  obtain b where b: "b \<in> {?h, get_next_hash_index ts ?h ?fp}" "slot_of (seq_hash_table f) b ?fp \<noteq> None"
    using assms(3) unfolding seq_find_result [OF assms(2)] by auto
  then obtain i where "i < NUM_ITEMS_PER_ENTRY" "cell (seq_hash_table f) (unat b) i = ?fp"
    using slot_of_SomeD by blast
  moreover have "b < ts" using b(1) ts by (auto simp: hash_mod_less get_next_hash_index_less)
  ultimately show ?thesis
    unfolding fingerprints_def in_contents_iff using md5_fingerprint_nonempty [OF assms(1)]
    by (intro exI [of _ b] exI [of _ i] conjI) simp_all
qed

text \<open>
  C34. The life of a filter of any size, power of two or not, from its construction, for every
  sequence of calls and all random numbers. A negative capacity makes the constructor throw; with
  capacity 0 the first call divides by zero. Otherwise every call returns, with the mutex free
  again and the table in shape, and the fingerprints balance: those in the table, those of
  removals answered true and one for each failed insertion are together exactly those of the
  keys passed to \<open>insert\<close>. So no removal takes more than one copy, no eviction duplicates or
  loses a fingerprint except in a failed insertion, and \<open>find\<close> answers true only for
  fingerprints of keys passed to \<open>insert\<close>.
\<close>

theorem seq_calls_any_size:
  assumes "evp_md5_ok evp"
  shows "(seq_new c v = Inl LengthError \<longleftrightarrow> sint c < 0) \<and>
    (\<forall>f0. seq_new c v = Inr f0 \<longrightarrow>
      (if c = 0 then seq_calls evp rnd cs f0 = (if cs = [] then Inr ([], f0) else Inl DivByZero)
       else \<exists>rs f lost. seq_calls evp rnd cs f0 = Inr (rs, f) \<and> length rs = length cs \<and> seq_inv c f \<and>
         fingerprints c (seq_hash_table f) + lost + sum_list (map2 (fps_taken evp) cs rs) =
           sum_list (map (fps_brought evp) cs) \<and>
         size lost = sum_list (map2 insert_failed cs rs) \<and>
         (\<forall>k f'. seq_find evp k f = Inr (True, f') \<longrightarrow>
           md5_fingerprint evp k \<in># sum_list (map (fps_brought evp) cs))))"
proof (intro conjI allI impI)
  show "seq_new c v = Inl LengthError \<longleftrightarrow> sint c < 0" by (simp add: seq_new_def)
next
  fix f0 assume f0: "seq_new c v = Inr f0"
  show "if c = 0 then seq_calls evp rnd cs f0 = (if cs = [] then Inr ([], f0) else Inl DivByZero)
    else \<exists>rs f lost. seq_calls evp rnd cs f0 = Inr (rs, f) \<and> length rs = length cs \<and> seq_inv c f \<and>
         fingerprints c (seq_hash_table f) + lost + sum_list (map2 (fps_taken evp) cs rs) =
           sum_list (map (fps_brought evp) cs) \<and>
         size lost = sum_list (map2 insert_failed cs rs) \<and>
         (\<forall>k f'. seq_find evp k f = Inr (True, f') \<longrightarrow>
           md5_fingerprint evp k \<in># sum_list (map (fps_brought evp) cs))"
  proof (cases "c = 0")
    case True
    with f0 have "\<not> seq_mtx f0" "seq_table_size f0 = 0" by (auto simp: seq_new_def)
    then have "seq_call evp r d f0 = Inl DivByZero" for r d
      by (cases d) (simp_all add: seq_insert_def seq_find_def seq_remove_def Let_def)
    with True show ?thesis by (cases cs) simp_all
  next
    case False
    with f0 have init: "seq_inv c f0" "fingerprints c (seq_hash_table f0) = {#}"
      by (auto simp: seq_new_def seq_inv_def table_ok_def fingerprints_def split: if_splits)
    from seq_calls_account [OF assms init(1), of rnd cs] obtain rs f lost
      where run: "seq_calls evp rnd cs f0 = Inr (rs, f)" "length rs = length cs" "seq_inv c f"
        and fps: "fingerprints c (seq_hash_table f) + lost + sum_list (map2 (fps_taken evp) cs rs) =
          sum_list (map (fps_brought evp) cs)"
        and lost: "size lost = sum_list (map2 insert_failed cs rs)"
      unfolding init(2) by auto
    have "md5_fingerprint evp k \<in># sum_list (map (fps_brought evp) cs)"
      if "seq_find evp k f = Inr (True, f')" for k f'
      using seq_find_stored [OF assms run(3) that] fps by (metis union_iff)
    with False run fps lost show ?thesis by auto
  qed
qed

lemma seq_calls_any_size_witness:
  "\<exists>f0 rs f lost. seq_new 6 False = Inr f0 \<and>
     seq_calls pad_evp (\<lambda>_ _. 0) [InsertKey [7], FindKey [7], RemoveKey [7]] f0 = Inr (rs, f) \<and> seq_inv 6 f \<and>
     fingerprints 6 (seq_hash_table f) + lost +
       sum_list (map2 (fps_taken pad_evp) [InsertKey [7], FindKey [7], RemoveKey [7]] rs) =
       {#md5_fingerprint pad_evp [7]#}"
proof -
  obtain f0 where f0: "seq_new 6 False = Inr f0" by (simp add: seq_new_def)
  with seq_calls_any_size [OF pad_evp_ok, of 6 False "\<lambda>_ _. 0" "[InsertKey [7], FindKey [7], RemoveKey [7]]"]
  show ?thesis by fastforce
qed

lemma seq_insert_all_items:
  assumes "seq_ready evp ts f0" "seq_insert_all evp rnd ks f0 = Inr (rs, f)" "False \<notin> set rs"
  shows "seq_ready evp ts f \<and> seq_items f = seq_items f0 + image_mset (key_item evp ts) (mset ks)"
  using assms
proof (induction ks arbitrary: f0 rs)
  case (Cons k ks)
  from Cons.prems obtain g rs' where g: "seq_insert evp rnd k f0 = Inr (True, g)"
    and rest: "seq_insert_all evp rnd ks g = Inr (rs', f)" "False \<notin> set rs'"
    by (auto split: sum.splits)
  have ins: "seq_ins evp k f0 True g" using g by (auto simp: seq_ins_def)
  from Cons.IH [OF seq.ins_inv [OF Cons.prems(1) ins] rest] show ?case
    by (simp add: seq.ins_True [OF Cons.prems(1) ins])
qed simp

text \<open>
  Multiplicity: keys may be inserted repeatedly, but in a filter of power-of-two size at
  most eight insertions of keys that share an item (one fingerprint and one pair of buckets)
  can be present at a time, whatever else is stored and whatever \<open>rand\<close> returns.
\<close>

lemma seq_insert_at_most_eight:
  assumes "evp_md5_ok evp" "is_pow2 ts" "seq_inv ts f0"
    and "seq_insert_all evp rnd ks f0 = Inr (rs, f)" "False \<notin> set rs"
  shows "count (seq_items f0) (key_item evp ts key) +
    count_list (map (key_item evp ts) ks) (key_item evp ts key) \<le> 8"
proof -
  have ready: "seq_ready evp ts f0" using assms by (simp add: seq_ready_def)
  have f: "seq_ready evp ts f" "seq_items f = seq_items f0 + image_mset (key_item evp ts) (mset ks)"
    using seq_insert_all_items [OF ready assms(4,5)] by simp_all
  have "count (seq_items f) (key_item evp ts key) \<le> 2 * NUM_ITEMS_PER_ENTRY"
    unfolding seq_items_def seq_ready_D(4) [OF f(1)] key_item_def by (rule items_count_le)
  moreover have "count (image_mset (key_item evp ts) (mset ks)) z =
      count_list (map (key_item evp ts) ks) z" for z
    by (metis count_mset mset_map)
  ultimately show ?thesis
    by (simp add: f(2) NUM_ITEMS_PER_ENTRY_def)
qed

lemma seq_insert_at_most_eight_witness:
  "count_list (map (key_item pad_evp 4) [[7], [7]]) (key_item pad_evp 4 [7]) \<le> 8"
proof -
  have "map_sum id fst (seq_insert_all pad_evp (\<lambda>_. 0) [[7], [7]] seq_demo) = Inr [True, True]"
    by code_simp
  then obtain f where "seq_insert_all pad_evp (\<lambda>_. 0) [[7], [7]] seq_demo = Inr ([True, True], f)"
    by (cases "seq_insert_all pad_evp (\<lambda>_. 0) [[7], [7]] seq_demo") auto
  from seq_insert_at_most_eight [OF pad_evp_ok is_pow2_4 seq_ready_D(1) [OF seq_demo_ready] this]
  show ?thesis by simp
qed

text \<open>
  C38. Without a power-of-two size the filter forgets keys, for every digest: let the only copy of
  the fingerprint of \<open>k\<close> be in the second bucket \<open>b\<close> of \<open>k\<close>, and let an insertion of another key,
  whose two buckets are full, evict it from there. If the bucket \<open>d\<close> where the loop puts it, the
  partner of \<open>b\<close>, has a free slot, the insertion succeeds; and if \<open>d\<close> is none of the buckets of
  \<open>k\<close> (which a power-of-two size excludes), then \<open>k\<close>, found before, is not found afterwards,
  although its fingerprint is still in the table.
\<close>

theorem seq_insert_forgets:
  fixes evp :: evp_digest and k k' :: bytes
  defines "fp \<equiv> md5_fingerprint evp k" and "fp' \<equiv> md5_fingerprint evp k'"
  assumes inv: "evp_md5_ok evp" "seq_inv ts f" and ne: "fp' \<noteq> fp"
    and buckets: "h1 = jenkins_hash k mod ts" "b = get_next_hash_index ts h1 fp" "d = get_next_hash_index ts b fp"
      "h1' = jenkins_hash k' mod ts" "h2' = get_next_hash_index ts h1' fp'"
    and full: "empty_slot (seq_hash_table f) h1' = None" "empty_slot (seq_hash_table f) h2' = None"
    and evicts: "b = (if rnd 0 mod 2 = 0 then h1' else h2')" "i = rnd 1 mod NUM_ITEMS_PER_ENTRY"
    and only: "\<forall>c \<in> {h1, b}. \<forall>j < NUM_ITEMS_PER_ENTRY.
      cell (seq_hash_table f) (unat c) j = fp \<longleftrightarrow> c = b \<and> j = i"
    and free: "empty_slot (seq_hash_table f) d \<noteq> None" and lost: "d \<notin> {h1, b}"
  shows "seq_find evp k f = Inr (True, f) \<and>
    (\<exists>f'. seq_insert evp rnd k' f = Inr (True, f') \<and> seq_find evp k f' = Inr (False, f') \<and>
      fp \<in># fingerprints ts (seq_hash_table f'))"
proof -
  have ts: "ts \<noteq> 0" "table_ok ts (seq_hash_table f)" "seq_table_size f = ts" "\<not> seq_mtx f"
    using inv(2) by (auto simp: seq_inv_def)
  have less: "h1 < ts" "b < ts" "d < ts"
    unfolding buckets(1-3) using ts(1) by (simp_all add: hash_mod_less get_next_hash_index_less)
  have i: "i < NUM_ITEMS_PER_ENTRY" by (simp add: evicts(2))
  have here: "cell (seq_hash_table f) (unat b) i = fp" using only i by blast
  let ?t1 = "put_cell (seq_hash_table f) (unat b) i fp'"
  have empty1: "empty_slot ?t1 d = empty_slot (seq_hash_table f) d"
    unfolding empty_slot_def
    by (rule first_idx_cong) (use lost cell_put [OF ts(2) less(2) i] in \<open>auto simp: word_unat_eq_iff\<close>)
  with free obtain j where j: "empty_slot ?t1 d = Some j" "j < NUM_ITEMS_PER_ENTRY"
    using empty_slot_SomeD by fastforce
  let ?t2 = "put_cell ?t1 (unat d) j fp"
  let ?f' = "f\<lparr>seq_hash_table := ?t2\<rparr>"
  have kick: "seq_kick (Suc n) rnd 1 b fp' (f\<lparr>seq_mtx := True\<rparr>) = (True, ?f')" for n
    using ts(3,4) j(1) here
    by (simp add: Let_def evicts(2) [unfolded One_nat_def, symmetric] buckets(3) [symmetric] seq_put_def seq_unlock_def)
  have "seq_insert evp rnd k' f = Inr (seq_kick NUM_MAX_KICKS rnd 1 b fp' (f\<lparr>seq_mtx := True\<rparr>))"
    using ts full
    by (simp add: seq_insert_def Let_def fp'_def [symmetric] buckets(4,5) [symmetric] evicts(1))
  then have ins: "seq_insert evp rnd k' f = Inr (True, ?f')"
    using kick [of 9] by (simp add: NUM_MAX_KICKS_def numeral_eq_Suc)
  have cells: "cell ?t2 (unat c) l = (if c = d \<and> l = j then fp else if c = b \<and> l = i then fp'
      else cell (seq_hash_table f) (unat c) l)" for c l
    using cell_put [OF ts(2) less(2) i] cell_put [OF table_ok_put [OF ts(2)] less(3) j(2)]
    by (simp add: word_unat_eq_iff)
  have inv': "seq_inv ts ?f'" using inv(2) by (simp add: seq_inv_def)
  have "slot_of ?t2 c fp = None" if "c \<in> {h1, b}" for c
    unfolding slot_of_def first_idx_None using that only lost ne by (auto simp: cells)
  with seq_find_result [OF inv', of evp k]
  have miss: "seq_find evp k ?f' = Inr (False, ?f')" by (simp add: fp_def [symmetric] buckets(1,2) [symmetric])
  have "slot_of (seq_hash_table f) b fp \<noteq> None"
    unfolding slot_of_def first_idx_not_None using i here by blast
  with seq_find_result [OF inv(2), of evp k]
  have hit: "seq_find evp k f = Inr (True, f)" by (simp add: fp_def [symmetric] buckets(1,2) [symmetric])
  have "fp \<in># fingerprints ts ?t2"
    unfolding fingerprints_def in_contents_iff
    using less(3) j(2) cells [of d j] md5_fingerprint_nonempty [OF inv(1), of k, folded fp_def]
    by (intro exI [of _ d] exI [of _ j] conjI) simp_all
  with ins miss hit show ?thesis by auto
qed

text \<open>
  A table with 6 buckets. Key 5 has the buckets 3 and 0, the partner of bucket 0 for its
  fingerprint is 5; key 8 has the buckets 0 and 3, and evicts key 5 from the first slot.
\<close>

definition seq_six :: seq_filter where
  "seq_six = \<lparr>seq_table_size = 6, seq_verbose = False, seq_hash_table =
     [[md5_fingerprint pad_evp [5], [1], [1], [1]], replicate 4 [], replicate 4 [], replicate 4 [2],
      replicate 4 [], replicate 4 []], seq_mtx = False\<rparr>"

lemma seq_insert_forgets_witness:
  "seq_find pad_evp [5] seq_six = Inr (True, seq_six) \<and>
   (\<exists>f'. seq_insert pad_evp (\<lambda>_. 0) [8] seq_six = Inr (True, f') \<and> seq_find pad_evp [5] f' = Inr (False, f'))"
proof -
  have inv: "seq_inv 6 seq_six"
    by (simp add: seq_inv_def seq_six_def table_ok_def rect_def NUM_ITEMS_PER_ENTRY_def)
  have "md5_fingerprint pad_evp [8] \<noteq> md5_fingerprint pad_evp [5]"
    "3 = jenkins_hash [5] mod (6 :: u32)" "0 = get_next_hash_index 6 3 (md5_fingerprint pad_evp [5])"
    "5 = get_next_hash_index 6 0 (md5_fingerprint pad_evp [5])"
    "0 = jenkins_hash [8] mod (6 :: u32)" "3 = get_next_hash_index 6 0 (md5_fingerprint pad_evp [8])"
    "empty_slot (seq_hash_table seq_six) 0 = None" "empty_slot (seq_hash_table seq_six) 3 = None"
    "(0 :: u32) = (if (\<lambda>_. 0) 0 mod 2 = (0 :: nat) then 0 else 3)" "(0 :: nat) = (\<lambda>_. 0) 1 mod NUM_ITEMS_PER_ENTRY"
    "\<forall>c \<in> {3, 0 :: u32}. \<forall>j < NUM_ITEMS_PER_ENTRY.
       cell (seq_hash_table seq_six) (unat c) j = md5_fingerprint pad_evp [5] \<longleftrightarrow> c = 0 \<and> j = 0"
    "empty_slot (seq_hash_table seq_six) 5 \<noteq> None" "(5 :: u32) \<notin> {3, 0}"
    by code_simp+
  from seq_insert_forgets [OF pad_evp_ok inv this] show ?thesis by blast
qed

end
