(* ===== verification/Fine_Grained.thy ===== *)
theory Fine_Grained
  imports Seq_Filter
begin

text \<open>
  \<open>fine_grained_locked_filter.h\<close> and \<open>fine_grained_locked_filter.cpp\<close>: the filter under
  eight \<open>std::shared_mutex\<close>es, bucket \<open>b\<close> being guarded by mutex \<open>b % 8\<close>. Here an operation is
  a program: a tree of the shared-memory and lock actions it performs, each followed by a
  continuation on the value it yields. One definition per operation then has two readings,
  run alone (\<open>fg_run\<close>) and interleaved with other threads (\<open>fg_step\<close>). The printing is left out.
\<close>

unbundle bit_operations_syntax

section \<open>Programs\<close>

text \<open>
  \<open>FLock x m\<close> constructs a \<open>unique_lock\<close> (\<open>x\<close> true) or \<open>shared_lock\<close> on mutex \<open>m\<close>;
  \<open>FUnlock\<close> is the explicit \<open>unlock\<close> or the destructor at a \<open>return\<close>. \<open>FRead\<close> and \<open>FWrite\<close>
  access \<open>hash_table[b][i]\<close>, \<open>FRand\<close> calls \<open>rand\<close>, \<open>FDivByZero\<close> is \<open>% table_size\<close> on an
  empty table.
\<close>

datatype 'a fg_prog =
    FRet 'a
  | FDivByZero
  | FLock bool nat "'a fg_prog"
  | FUnlock bool nat "'a fg_prog"
  | FRead u32 nat "bytes \<Rightarrow> 'a fg_prog"
  | FWrite u32 nat bytes "'a fg_prog"
  | FRand "nat \<Rightarrow> 'a fg_prog"

primrec fg_bind :: "'a fg_prog \<Rightarrow> ('a \<Rightarrow> 'b fg_prog) \<Rightarrow> 'b fg_prog" where
  "fg_bind (FRet a) f = f a"
| "fg_bind FDivByZero f = FDivByZero"
| "fg_bind (FLock x m p) f = FLock x m (fg_bind p f)"
| "fg_bind (FUnlock x m p) f = FUnlock x m (fg_bind p f)"
| "fg_bind (FRead b i k) f = FRead b i (\<lambda>v. fg_bind (k v) f)"
| "fg_bind (FWrite b i v p) f = FWrite b i v (fg_bind p f)"
| "fg_bind (FRand k) f = FRand (\<lambda>v. fg_bind (k v) f)"

section \<open>The code\<close>

definition NUM_MUTEXES :: nat where
  "NUM_MUTEXES = 8"

definition mutex_of :: "u32 \<Rightarrow> nat" where
  "mutex_of b = unat b mod NUM_MUTEXES"

text \<open>A \<open>for\<close> loop over slots that leaves at the first slot passing the test.\<close>

primrec fg_scan ::
  "nat list \<Rightarrow> (bytes \<Rightarrow> bool) \<Rightarrow> u32 \<Rightarrow> (nat \<Rightarrow> 'a fg_prog) \<Rightarrow> 'a fg_prog \<Rightarrow> 'a fg_prog" where
  "fg_scan [] P b hit miss = miss"
| "fg_scan (i # is) P b hit miss =
     FRead b i (\<lambda>s. if P s then hit i else fg_scan is P b hit miss)"

definition fg_get_next_hash_index :: "u32 \<Rightarrow> u32 \<Rightarrow> bytes \<Rightarrow> u32" where
  "fg_get_next_hash_index table_size curr_idx fingerprint =
     (curr_idx XOR (jenkins_hash fingerprint mod table_size)) mod table_size"

primrec fg_kick :: "nat \<Rightarrow> u32 \<Rightarrow> u32 \<Rightarrow> bytes \<Rightarrow> bool fg_prog" where
  "fg_kick 0 ts replace_hash fingerprint = FRet False"
| "fg_kick (Suc n) ts replace_hash fingerprint =
     FRand (\<lambda>r. let bucket_idx = r mod NUM_ITEMS_PER_ENTRY in
       FRead replace_hash bucket_idx (\<lambda>evicted.
         FWrite replace_hash bucket_idx fingerprint
           (let replace_hash = fg_get_next_hash_index ts replace_hash evicted;
                m = mutex_of replace_hash
            in FLock True m
                 (fg_scan [0..<NUM_ITEMS_PER_ENTRY] (\<lambda>s. s = []) replace_hash
                    (\<lambda>i. FWrite replace_hash i evicted (FUnlock True m (FRet True)))
                    (FUnlock True m (fg_kick n ts replace_hash evicted))))))"

definition fg_insert :: "evp_digest \<Rightarrow> u32 \<Rightarrow> bytes \<Rightarrow> bool fg_prog" where
  "fg_insert evp ts key =
     (let fingerprint = md5_fingerprint evp key in
      if ts = 0 then FDivByZero else
      let hash1 = jenkins_hash key mod ts;
          hash2 = fg_get_next_hash_index ts hash1 fingerprint;
          m1 = mutex_of hash1; m2 = mutex_of hash2
      in FLock True m1
           (fg_scan [0..<NUM_ITEMS_PER_ENTRY] (\<lambda>s. s = []) hash1
              (\<lambda>i. FWrite hash1 i fingerprint (FUnlock True m1 (FRet True)))
              (FUnlock True m1
                (FLock True m2
                   (fg_scan [0..<NUM_ITEMS_PER_ENTRY] (\<lambda>s. s = []) hash2
                      (\<lambda>i. FWrite hash2 i fingerprint (FUnlock True m2 (FRet True)))
                      (FUnlock True m2
                        (FRand (\<lambda>r. let flag = r mod 2;
                                        replace_hash = (if flag = 0 then hash1 else hash2)
                                    in fg_kick NUM_MAX_KICKS ts replace_hash fingerprint))))))))"

definition fg_find :: "evp_digest \<Rightarrow> u32 \<Rightarrow> bytes \<Rightarrow> bool fg_prog" where
  "fg_find evp ts key =
     (let fingerprint = md5_fingerprint evp key in
      if ts = 0 then FDivByZero else
      let hash1 = jenkins_hash key mod ts;
          hash2 = fg_get_next_hash_index ts hash1 fingerprint;
          m1 = mutex_of hash1; m2 = mutex_of hash2
      in FLock False m1
           (fg_scan [0..<NUM_ITEMS_PER_ENTRY] (\<lambda>s. s = fingerprint) hash1
              (\<lambda>i. FUnlock False m1 (FRet True))
              (FUnlock False m1
                (FLock False m2
                   (fg_scan [0..<NUM_ITEMS_PER_ENTRY] (\<lambda>s. s = fingerprint) hash2
                      (\<lambda>i. FUnlock False m2 (FRet True))
                      (FUnlock False m2 (FRet False)))))))"

definition fg_remove :: "evp_digest \<Rightarrow> u32 \<Rightarrow> bytes \<Rightarrow> bool fg_prog" where
  "fg_remove evp ts key =
     (let fingerprint = md5_fingerprint evp key in
      if ts = 0 then FDivByZero else
      let hash1 = jenkins_hash key mod ts;
          hash2 = fg_get_next_hash_index ts hash1 fingerprint;
          m1 = mutex_of hash1; m2 = mutex_of hash2
      in FLock True m1
           (fg_scan [0..<NUM_ITEMS_PER_ENTRY] (\<lambda>s. length s \<noteq> 0 \<and> s = fingerprint) hash1
              (\<lambda>i. FWrite hash1 i [] (FUnlock True m1 (FRet True)))
              (FUnlock True m1
                (FLock True m2
                   (fg_scan [0..<NUM_ITEMS_PER_ENTRY] (\<lambda>s. length s \<noteq> 0 \<and> s = fingerprint) hash2
                      (\<lambda>i. FWrite hash2 i [] (FUnlock True m2 (FRet True)))
                      (FUnlock True m2 (FRet False)))))))"

section \<open>State\<close>

text \<open>A \<open>shared_mutex\<close>: the thread that holds it exclusively, or the threads that share it.\<close>

datatype rwlock = RW (rw_writer: "nat option") (rw_readers: "nat list")

record fg_filter =
  fg_table_size :: u32
  fg_verbose :: bool
  fg_hash_table :: string_table
  fg_mutexes :: "rwlock list"
  fg_rand :: nat \<comment> \<open>calls of \<open>rand\<close> made by the process so far\<close>

definition fg_new :: "u32 \<Rightarrow> bool \<Rightarrow> nat \<Rightarrow> seq_error + fg_filter" where
  "fg_new capacity verbose calls =
     (if sint capacity < 0 then Inl LengthError
      else Inr \<lparr>fg_table_size = capacity, fg_verbose = verbose,
                fg_hash_table = replicate (unat capacity) (replicate NUM_ITEMS_PER_ENTRY []),
                fg_mutexes = replicate NUM_MUTEXES (RW None []), fg_rand = calls\<rparr>)"

definition fg_new_quiet :: "u32 \<Rightarrow> nat \<Rightarrow> seq_error + fg_filter" where
  "fg_new_quiet capacity calls = fg_new capacity False calls"

definition fg_size :: "fg_filter \<Rightarrow> u32" where
  "fg_size s = fg_table_size s"

section \<open>One action\<close>

definition can_lock :: "bool \<Rightarrow> rwlock \<Rightarrow> bool" where
  "can_lock x l \<longleftrightarrow> rw_writer l = None \<and> (x \<longrightarrow> rw_readers l = [])"

definition acquire :: "nat \<Rightarrow> bool \<Rightarrow> rwlock \<Rightarrow> rwlock" where
  "acquire t x l = (if x then RW (Some t) (rw_readers l) else RW (rw_writer l) (t # rw_readers l))"

definition release :: "nat \<Rightarrow> bool \<Rightarrow> rwlock \<Rightarrow> rwlock" where
  "release t x l = (if x then RW None (rw_readers l) else RW (rw_writer l) (remove1 t (rw_readers l)))"

definition on_mutex :: "nat \<Rightarrow> (rwlock \<Rightarrow> rwlock) \<Rightarrow> fg_filter \<Rightarrow> fg_filter" where
  "on_mutex m g s = s\<lparr>fg_mutexes := (fg_mutexes s)[m := g (fg_mutexes s ! m)]\<rparr>"

definition fg_put :: "u32 \<Rightarrow> nat \<Rightarrow> bytes \<Rightarrow> fg_filter \<Rightarrow> fg_filter" where
  "fg_put b i v s = s\<lparr>fg_hash_table := put_cell (fg_hash_table s) (unat b) i v\<rparr>"

text \<open>
  \<open>fg_act rnd t p s\<close>: the next action of program \<open>p\<close> run by thread \<open>t\<close>; \<open>None\<close> when the
  program has ended or waits for a mutex. \<open>rnd\<close> gives the results of \<open>rand\<close>.
\<close>

fun fg_act ::
  "(nat \<Rightarrow> nat) \<Rightarrow> nat \<Rightarrow> 'a fg_prog \<Rightarrow> fg_filter \<Rightarrow> ('a fg_prog \<times> fg_filter) option" where
  "fg_act rnd t (FRet a) s = None"
| "fg_act rnd t FDivByZero s = None"
| "fg_act rnd t (FLock x m p) s =
     (if can_lock x (fg_mutexes s ! m) then Some (p, on_mutex m (acquire t x) s) else None)"
| "fg_act rnd t (FUnlock x m p) s = Some (p, on_mutex m (release t x) s)"
| "fg_act rnd t (FRead b i k) s = Some (k (cell (fg_hash_table s) (unat b) i), s)"
| "fg_act rnd t (FWrite b i v p) s = Some (p, fg_put b i v s)"
| "fg_act rnd t (FRand k) s = Some (k (rnd (fg_rand s)), s\<lparr>fg_rand := Suc (fg_rand s)\<rparr>)"

section \<open>A program run alone\<close>

datatype 'a fg_result = Returned 'a | Waiting | Crashed

primrec fg_run ::
  "(nat \<Rightarrow> nat) \<Rightarrow> nat \<Rightarrow> 'a fg_prog \<Rightarrow> fg_filter \<Rightarrow> 'a fg_result \<times> fg_filter" where
  "fg_run rnd t (FRet a) s = (Returned a, s)"
| "fg_run rnd t FDivByZero s = (Crashed, s)"
| "fg_run rnd t (FLock x m p) s =
     (if can_lock x (fg_mutexes s ! m) then fg_run rnd t p (on_mutex m (acquire t x) s)
      else (Waiting, s))"
| "fg_run rnd t (FUnlock x m p) s = fg_run rnd t p (on_mutex m (release t x) s)"
| "fg_run rnd t (FRead b i k) s = fg_run rnd t (k (cell (fg_hash_table s) (unat b) i)) s"
| "fg_run rnd t (FWrite b i v p) s = fg_run rnd t p (fg_put b i v s)"
| "fg_run rnd t (FRand k) s = fg_run rnd t (k (rnd (fg_rand s))) (s\<lparr>fg_rand := Suc (fg_rand s)\<rparr>)"


section \<open>Locks taken and given back\<close>

text \<open>No mutex is held; and the sequential filter with the same table.\<close>

definition quiet :: "fg_filter \<Rightarrow> bool" where
  "quiet s \<longleftrightarrow> fg_mutexes s = replicate NUM_MUTEXES (RW None [])"

definition fg_abs :: "fg_filter \<Rightarrow> seq_filter" where
  "fg_abs s = \<lparr>seq_table_size = fg_table_size s, seq_verbose = fg_verbose s,
     seq_hash_table = fg_hash_table s, seq_mtx = False\<rparr>"

lemma mutex_of_less [simp]: "mutex_of b < NUM_MUTEXES"
  by (simp add: mutex_of_def NUM_MUTEXES_def)

lemma fg_next_eq [simp]: "fg_get_next_hash_index = get_next_hash_index"
  by (intro ext) (simp add: fg_get_next_hash_index_def get_next_hash_index_def)

lemma fg_abs_simps [simp]:
  "seq_table_size (fg_abs s) = fg_table_size s"
  "seq_hash_table (fg_abs s) = fg_hash_table s"
  "\<not> seq_mtx (fg_abs s)"
  by (simp_all add: fg_abs_def)

lemma fg_abs_put [simp]: "fg_abs (fg_put b i v s) = seq_put b i v (fg_abs s)"
  by (simp add: fg_abs_def fg_put_def seq_put_def)

lemma fg_abs_on_mutex [simp]: "fg_abs (on_mutex m g s) = fg_abs s"
  by (simp add: fg_abs_def on_mutex_def)

lemma fg_abs_rand [simp]: "fg_abs (s\<lparr>fg_rand := n\<rparr>) = fg_abs s"
  by (simp add: fg_abs_def)

lemma fg_put_simps [simp]:
  "fg_table_size (fg_put b i v s) = fg_table_size s"
  "fg_mutexes (fg_put b i v s) = fg_mutexes s"
  "fg_rand (fg_put b i v s) = fg_rand s"
  "fg_hash_table (fg_put b i v s) = put_cell (fg_hash_table s) (unat b) i v"
  by (simp_all add: fg_put_def)

lemma on_mutex_simps [simp]:
  "fg_table_size (on_mutex m g s) = fg_table_size s"
  "fg_hash_table (on_mutex m g s) = fg_hash_table s"
  "fg_rand (on_mutex m g s) = fg_rand s"
  "fg_mutexes (on_mutex m g s) = (fg_mutexes s)[m := g (fg_mutexes s ! m)]"
  by (simp_all add: on_mutex_def)

lemma quiet_can_lock [simp]: "quiet s \<Longrightarrow> m < NUM_MUTEXES \<Longrightarrow> can_lock x (fg_mutexes s ! m)"
  by (simp add: quiet_def can_lock_def)

lemma lock_unlock [simp]:
  assumes "quiet s" "m < NUM_MUTEXES"
  shows "on_mutex m (release t x) (on_mutex m (acquire t x) s) = s"
    and "on_mutex m (release t x) (fg_put b i v (on_mutex m (acquire t x) s)) = fg_put b i v s"
proof -
  have "release t x (acquire t x (RW None [])) = RW None []"
    by (simp add: release_def acquire_def)
  moreover have "(fg_mutexes s)[m := RW None []] = fg_mutexes s"
    using assms by (metis list_update_id nth_replicate quiet_def)
  ultimately show "on_mutex m (release t x) (on_mutex m (acquire t x) s) = s"
    and "on_mutex m (release t x) (fg_put b i v (on_mutex m (acquire t x) s)) = fg_put b i v s"
    using assms by (simp_all add: on_mutex_def fg_put_def quiet_def)
qed

lemma quiet_put [simp]: "quiet (fg_put b i v s) = quiet s"
  by (simp add: quiet_def)

lemma quiet_rand [simp]: "quiet (s\<lparr>fg_rand := n\<rparr>) = quiet s"
  by (simp add: quiet_def)

section \<open>Run alone, the operations are those of the coarse-grained filter\<close>

lemma fg_run_scan:
  "fg_run rnd t (fg_scan is P b hit miss) s =
     (case find (\<lambda>i. P (cell (fg_hash_table s) (unat b) i)) is of
        Some i \<Rightarrow> fg_run rnd t (hit i) s | None \<Rightarrow> fg_run rnd t miss s)"
  by (induction "is") auto

lemmas fg_run_bucket_scan =
  fg_run_scan [of _ _ "[0..<NUM_ITEMS_PER_ENTRY]", folded first_idx_def]

lemma fg_kick_run:
  assumes "quiet s" "seq_unlock f = fg_abs s" "fg_table_size s = ts"
    and "\<And>i. rnd' (j + i) = rnd (fg_rand s + i)"
  shows "\<exists>s'. fg_run rnd t (fg_kick n ts b fp) s = (Returned (fst (seq_kick n rnd' j b fp f)), s') \<and>
    fg_abs s' = snd (seq_kick n rnd' j b fp f) \<and> quiet s'"
  using assms
proof (induction n arbitrary: s f j b fp)
  case 0
  then show ?case by auto
next
  case (Suc n)
  have tab: "seq_hash_table f = fg_hash_table s" "seq_table_size f = ts"
    using Suc.prems(2,3) by (metis fg_abs_simps(1,2) seq_unlock_simps(1,2))+
  define k where "k = rnd' j mod NUM_ITEMS_PER_ENTRY"
  define ev where "ev = cell (fg_hash_table s) (unat b) k"
  define s1 where "s1 = fg_put b k fp (s\<lparr>fg_rand := Suc (fg_rand s)\<rparr>)"
  define f1 where "f1 = seq_put b k fp f"
  define b1 where "b1 = get_next_hash_index ts b ev"
  have r: "rnd (fg_rand s) = rnd' j" using Suc.prems(4) [of 0] by simp
  have q1: "quiet s1" using Suc.prems(1) by (simp add: s1_def)
  have unl: "seq_unlock (seq_put c i v f) = seq_put c i v (seq_unlock f)" for c i v f
    by (simp add: seq_unlock_def seq_put_def)
  have a1: "seq_unlock f1 = fg_abs s1"
    using Suc.prems(2) by (simp add: f1_def s1_def unl)
  have t1: "seq_hash_table f1 = fg_hash_table s1" "fg_table_size s1 = ts"
    using tab Suc.prems(3) by (simp_all add: f1_def s1_def)
  have R1: "rnd' (Suc j + i) = rnd (fg_rand s1 + i)" for i
    using Suc.prems(4) [of "Suc i"] by (simp add: s1_def)
  have run: "fg_run rnd t (fg_kick (Suc n) ts b fp) s =
      (case empty_slot (fg_hash_table s1) b1 of
         Some i \<Rightarrow> (Returned True, fg_put b1 i ev s1)
       | None \<Rightarrow> fg_run rnd t (fg_kick n ts b1 ev) s1)"
    using q1 unfolding s1_def
    by (simp add: r k_def [symmetric] ev_def [symmetric] b1_def [symmetric] Let_def
        fg_run_bucket_scan empty_slot_def del: first_idx_None split: option.split)
  have kick: "seq_kick (Suc n) rnd' j b fp f =
      (case empty_slot (seq_hash_table f1) b1 of
         Some i \<Rightarrow> (True, seq_unlock (seq_put b1 i ev f1))
       | None \<Rightarrow> seq_kick n rnd' (Suc j) b1 ev f1)"
    by (simp add: Let_def k_def f1_def b1_def ev_def tab cong: option.case_cong)
  show ?case
  proof (cases "empty_slot (fg_hash_table s1) b1")
    case (Some i)
    then show ?thesis unfolding run kick t1 using a1 q1 by (simp add: unl)
  next
    case None
    then show ?thesis
      unfolding run kick t1 using Suc.IH [OF q1 a1 t1(2) R1] by simp
  qed
qed

text \<open>Any result of a sequential operation, with the fine-grained run that reproduces it.\<close>

definition fg_agrees ::
  "bool fg_result \<times> fg_filter \<Rightarrow> seq_error + bool \<times> seq_filter \<Rightarrow> bool" where
  "fg_agrees c r \<longleftrightarrow> (case r of
       Inl e \<Rightarrow> fst c = Crashed
     | Inr (b, f) \<Rightarrow> fst c = Returned b \<and> fg_abs (snd c) = f) \<and> quiet (snd c)"

lemma seq_unlock_abs: "seq_unlock ((fg_abs s)\<lparr>seq_mtx := True\<rparr>) = fg_abs s"
  "seq_unlock (seq_put b i v ((fg_abs s)\<lparr>seq_mtx := True\<rparr>)) = seq_put b i v (fg_abs s)"
  by (simp_all add: seq_unlock_def seq_put_def fg_abs_def)

lemma fg_find_run:
  assumes "quiet s"
  shows "fg_agrees (fg_run rnd t (fg_find evp (fg_table_size s) key) s) (seq_find evp key (fg_abs s))"
proof (cases "fg_table_size s = 0")
  case True
  with assms show ?thesis by (simp add: fg_agrees_def fg_find_def seq_find_def)
next
  case False
  with assms show ?thesis
    by (auto simp: fg_agrees_def fg_find_def seq_find_def Let_def fg_run_bucket_scan slot_of_def
        seq_unlock_abs simp del: first_idx_None split: option.splits)
qed

lemma fg_remove_run:
  assumes "quiet s"
  shows "fg_agrees (fg_run rnd t (fg_remove evp (fg_table_size s) key) s)
    (seq_remove evp key (fg_abs s))"
proof (cases "fg_table_size s = 0")
  case True
  with assms show ?thesis by (simp add: fg_agrees_def fg_remove_def seq_remove_def)
next
  case False
  with assms show ?thesis
    by (auto simp: fg_agrees_def fg_remove_def seq_remove_def Let_def fg_run_bucket_scan
        nonempty_slot_of_def seq_unlock_abs simp del: first_idx_None split: option.splits)
qed

lemma fg_insert_run:
  assumes "quiet s"
  shows "fg_agrees (fg_run rnd t (fg_insert evp (fg_table_size s) key) s)
    (seq_insert evp (\<lambda>i. rnd (fg_rand s + i)) key (fg_abs s))"
proof (cases "fg_table_size s = 0")
  case True
  with assms show ?thesis by (simp add: fg_agrees_def fg_insert_def seq_insert_def)
next
  case False
  let ?R = "\<lambda>i. rnd (fg_rand s + i)" and ?f = "(fg_abs s)\<lparr>seq_mtx := True\<rparr>"
  have kick: "fg_agrees (fg_run rnd t (fg_kick NUM_MAX_KICKS (fg_table_size s) b fp)
        (s\<lparr>fg_rand := Suc (fg_rand s)\<rparr>)) (Inr (seq_kick NUM_MAX_KICKS ?R (Suc 0) b fp ?f))" for b fp
    using fg_kick_run [of "s\<lparr>fg_rand := Suc (fg_rand s)\<rparr>" ?f "fg_table_size s" ?R 1 rnd t
        NUM_MAX_KICKS b fp] assms
    by (auto simp: fg_agrees_def seq_unlock_abs split: prod.split)
  from False assms show ?thesis
    unfolding fg_insert_def seq_insert_def
    by (simp add: Let_def fg_run_bucket_scan empty_slot_def seq_unlock_abs kick
        del: first_idx_None split: option.split)
      (simp add: fg_agrees_def)
qed


section \<open>The filter contract, for calls that do not overlap\<close>

definition fg_ready :: "evp_digest \<Rightarrow> u32 \<Rightarrow> fg_filter \<Rightarrow> bool" where
  "fg_ready evp ts s \<longleftrightarrow> quiet s \<and> seq_ready evp ts (fg_abs s)"

definition fg_items :: "fg_filter \<Rightarrow> (bytes \<times> u32 set) multiset" where
  "fg_items s = seq_items (fg_abs s)"

definition fg_ins :: "evp_digest \<Rightarrow> bytes \<Rightarrow> fg_filter \<Rightarrow> bool \<Rightarrow> fg_filter \<Rightarrow> bool" where
  "fg_ins evp key s r s' \<longleftrightarrow>
     (\<exists>rnd t. fg_run rnd t (fg_insert evp (fg_table_size s) key) s = (Returned r, s'))"

definition fg_fnd :: "evp_digest \<Rightarrow> bytes \<Rightarrow> fg_filter \<Rightarrow> bool \<Rightarrow> fg_filter \<Rightarrow> bool" where
  "fg_fnd evp key s r s' \<longleftrightarrow>
     (\<exists>rnd t. fg_run rnd t (fg_find evp (fg_table_size s) key) s = (Returned r, s'))"

definition fg_del :: "evp_digest \<Rightarrow> bytes \<Rightarrow> fg_filter \<Rightarrow> bool \<Rightarrow> fg_filter \<Rightarrow> bool" where
  "fg_del evp key s r s' \<longleftrightarrow>
     (\<exists>rnd t. fg_run rnd t (fg_remove evp (fg_table_size s) key) s = (Returned r, s'))"

lemma fg_agrees_Returned:
  "fg_agrees (Returned r, s') c \<Longrightarrow> c = Inr (r, fg_abs s') \<and> quiet s'"
  by (auto simp: fg_agrees_def split: sum.splits)

lemma fg_seq_rel:
  assumes "quiet s"
  shows "fg_ins evp k s r s' \<Longrightarrow> seq_ins evp k (fg_abs s) r (fg_abs s') \<and> quiet s'"
    and "fg_fnd evp k s r s' \<Longrightarrow> seq_fnd evp k (fg_abs s) r (fg_abs s') \<and> quiet s'"
    and "fg_del evp k s r s' \<Longrightarrow> seq_del evp k (fg_abs s) r (fg_abs s') \<and> quiet s'"
  using fg_insert_run [OF assms] fg_find_run [OF assms] fg_remove_run [OF assms]
  unfolding fg_ins_def fg_fnd_def fg_del_def seq_ins_def seq_fnd_def seq_del_def
  by (metis fg_agrees_Returned)+

interpretation fg: amq "fg_ready evp ts" fg_items "key_item evp ts" "fg_ins evp" "fg_fnd evp"
    "fg_del evp" for evp ts
proof unfold_locales
  fix s k r t
  assume s: "fg_ready evp ts s"
  then have q: "quiet s" and r: "seq_ready evp ts (fg_abs s)" by (simp_all add: fg_ready_def)
  show "fg_ready evp ts t" if "fg_ins evp k s r t"
    using fg_seq_rel(1) [OF q that] seq.ins_inv [OF r] by (auto simp: fg_ready_def)
  show "fg_ready evp ts t" if "fg_fnd evp k s r t"
    using fg_seq_rel(2) [OF q that] seq.fnd_inv [OF r] by (auto simp: fg_ready_def)
  show "fg_ready evp ts t" if "fg_del evp k s r t"
    using fg_seq_rel(3) [OF q that] seq.del_inv [OF r] by (auto simp: fg_ready_def)
  show "fg_items t = add_mset (key_item evp ts k) (fg_items s)" if "fg_ins evp k s True t"
    using fg_seq_rel(1) [OF q that] seq.ins_True [OF r] by (auto simp: fg_items_def)
  show "\<exists>x. add_mset x (fg_items t) = add_mset (key_item evp ts k) (fg_items s)"
    if "fg_ins evp k s False t"
    using fg_seq_rel(1) [OF q that] seq.ins_False [OF r] by (auto simp: fg_items_def)
  show "fg_items t = fg_items s" "r \<longleftrightarrow> key_item evp ts k \<in># fg_items s"
    if "fg_fnd evp k s r t"
    using fg_seq_rel(2) [OF q that] seq.fnd_items [OF r] seq.fnd_result [OF r]
    by (auto simp: fg_items_def)
  show "r \<longleftrightarrow> key_item evp ts k \<in># fg_items s"
    "fg_items t = fg_items s - {#key_item evp ts k#}" if "fg_del evp k s r t"
    using fg_seq_rel(3) [OF q that] seq.del_items [OF r] seq.del_result [OF r]
    by (auto simp: fg_items_def)
qed

lemma fg_new_abs:
  assumes "fg_new capacity v calls = Inr s"
  shows "quiet s \<and> seq_new capacity v = Inr (fg_abs s)"
  using assms by (auto simp: fg_new_def seq_new_def quiet_def fg_abs_def split: if_splits)

definition fg_demo :: fg_filter where
  "fg_demo = \<lparr>fg_table_size = 4, fg_verbose = False,
     fg_hash_table = replicate 4 (replicate 4 []),
     fg_mutexes = replicate 8 (RW None []), fg_rand = 0\<rparr>"

lemma fg_demo_new: "fg_new 4 False 0 = Inr fg_demo"
  by (simp add: fg_new_def fg_demo_def NUM_ITEMS_PER_ENTRY_def NUM_MUTEXES_def)

section \<open>Properties\<close>

text \<open>
  C15. Equivalence: while no other thread runs, each operation of the fine-grained filter
  computes what the coarse-grained filter computes with the same table and the same results
  of \<open>rand\<close>: the same Boolean, the same table, the same crash on an empty table; it never
  waits, and when it returns all mutexes are free again.
\<close>

theorem fg_alone_equals_seq:
  assumes "quiet s"
  shows "fg_agrees (fg_run rnd t (fg_insert evp (fg_table_size s) key) s)
      (seq_insert evp (\<lambda>i. rnd (fg_rand s + i)) key (fg_abs s)) \<and>
    fg_agrees (fg_run rnd t (fg_find evp (fg_table_size s) key) s)
      (seq_find evp key (fg_abs s)) \<and>
    fg_agrees (fg_run rnd t (fg_remove evp (fg_table_size s) key) s)
      (seq_remove evp key (fg_abs s))"
  using fg_insert_run [OF assms] fg_find_run [OF assms] fg_remove_run [OF assms] by blast

lemma fg_alone_equals_seq_witness:
  "quiet fg_demo \<and> fg_agrees (fg_run (\<lambda>_. 0) 0 (fg_find pad_evp (fg_table_size fg_demo) [7]) fg_demo)
      (seq_find pad_evp [7] (fg_abs fg_demo))"
  using fg_alone_equals_seq [of fg_demo "\<lambda>_. 0" 0 pad_evp "[7]"] fg_new_abs [OF fg_demo_new]
  by blast

text \<open>
  No false negatives over histories of non-overlapping calls on a fresh fine-grained
  filter of power-of-two size, as for the coarse-grained one.
\<close>

lemma fg_find_after_history:
  assumes "evp_md5_ok evp" "is_pow2 capacity" "fg_new capacity v calls = Inr s0"
    and "history (fg_ins evp) (fg_fnd evp) (fg_del evp) s0 hs s" "no_failed_insert hs"
    and "fg_run rnd t (fg_find evp (fg_table_size s) key) s = (Returned r, s')"
  shows "r \<longleftrightarrow> count (image_mset (key_item evp capacity) (removed hs)) (key_item evp capacity key)
    < count (image_mset (key_item evp capacity) (inserted hs)) (key_item evp capacity key)"
proof -
  have new: "quiet s0" "seq_new capacity v = Inr (fg_abs s0)"
    using fg_new_abs [OF assms(3)] by simp_all
  with seq_new_inv [OF new(2) is_pow2_neq_0 [OF assms(2)]] assms(1,2)
  have ready: "fg_ready evp capacity s0" and empty: "fg_items s0 = {#}"
    by (simp_all add: fg_ready_def seq_ready_def fg_items_def)
  show ?thesis
    by (rule fg.query_balance [OF assms(4) ready empty assms(5)])
      (use assms(6) in \<open>auto simp: fg_fnd_def\<close>)
qed

lemma fg_find_after_history_witness:
  "\<exists>s. history (fg_ins pad_evp) (fg_fnd pad_evp) (fg_del pad_evp) fg_demo [] s \<and>
     fst (fg_run (\<lambda>_. 0) 0 (fg_find pad_evp (fg_table_size s) [7]) s) = Returned False"
proof -
  have "fst (fg_run (\<lambda>_. 0) 0 (fg_find pad_evp (fg_table_size fg_demo) [7]) fg_demo)
      = Returned False"
    by code_simp
  then obtain s' r where run: "fg_run (\<lambda>_. 0) 0 (fg_find pad_evp (fg_table_size fg_demo) [7]) fg_demo
      = (Returned r, s')"
    by (metis prod.collapse)
  have "r \<longleftrightarrow> count (image_mset (key_item pad_evp 4) (removed [])) (key_item pad_evp 4 [7])
      < count (image_mset (key_item pad_evp 4) (inserted [])) (key_item pad_evp 4 [7])"
    by (rule fg_find_after_history [OF pad_evp_ok is_pow2_4 fg_demo_new history_Nil _ run])
      (simp add: no_failed_insert_def)
  with run show ?thesis by (intro exI [of _ fg_demo]) (simp add: history_Nil)
qed

end
