(* ===== verification/Interleaving.thy ===== *)
theory Interleaving
  imports "HOL-Library.Multiset"
begin

text \<open>
  Threads that share a state, one atomic action at a time. \<open>act t p s\<close> is the next action of
  thread \<open>t\<close> with program \<open>p\<close> in state \<open>s\<close>: the rest of the program and the new state, or
  \<open>None\<close> when the thread has ended or must wait. A configuration is the shared state with the
  programs of the threads. The locale \<open>thread_logic\<close> is the rule by which a theory shows
  that all reachable configurations satisfy an invariant: each thread keeps it, and no thread
  destroys what another one relies on. The locale \<open>thread_budget\<close> bounds the schedules: each
  action of a thread costs one unit of a budget that no other thread touches.
\<close>

section \<open>Steps, reachability, schedules\<close>

inductive thread_step ::
  "(nat \<Rightarrow> 'p \<Rightarrow> 's \<Rightarrow> ('p \<times> 's) option) \<Rightarrow> 's \<times> 'p list \<Rightarrow> 's \<times> 'p list \<Rightarrow> bool" for act where
  thread_stepI: "t < length ps \<Longrightarrow> act t (ps ! t) s = Some (p, s') \<Longrightarrow>
    thread_step act (s, ps) (s', ps[t := p])"

inductive thread_reach ::
  "(nat \<Rightarrow> 'p \<Rightarrow> 's \<Rightarrow> ('p \<times> 's) option) \<Rightarrow> 's \<times> 'p list \<Rightarrow> 's \<times> 'p list \<Rightarrow> bool" for act c where
  thread_reach_refl: "thread_reach act c c"
| thread_reach_step: "thread_reach act c d \<Longrightarrow> thread_step act d e \<Longrightarrow> thread_reach act c e"

inductive_cases thread_stepE: "thread_step act (s, ps) d"

text \<open>A schedule run on a configuration; \<open>None\<close> when the scheduled thread cannot act.\<close>

primrec thread_exec ::
  "(nat \<Rightarrow> 'p \<Rightarrow> 's \<Rightarrow> ('p \<times> 's) option) \<Rightarrow> nat list \<Rightarrow> 's \<times> 'p list \<Rightarrow> ('s \<times> 'p list) option" where
  "thread_exec act [] c = Some c"
| "thread_exec act (t # ts) c =
     (case c of (s, ps) \<Rightarrow>
        if t < length ps then
          (case act t (ps ! t) s of
             None \<Rightarrow> None
           | Some (p, s') \<Rightarrow> thread_exec act ts (s', ps[t := p]))
        else None)"

lemma thread_reach_trans: "thread_reach act d e \<Longrightarrow> thread_reach act c d \<Longrightarrow> thread_reach act c e"
  by (induction rule: thread_reach.induct) (auto intro: thread_reach_step)

lemma thread_exec_reach: "thread_exec act sched c = Some d \<Longrightarrow> thread_reach act c d"
proof (induction sched arbitrary: c)
  case (Cons t sched)
  obtain s ps where c: "c = (s, ps)" by force
  from Cons.prems obtain p s' where act: "t < length ps" "act t (ps ! t) s = Some (p, s')"
    and rest: "thread_exec act sched (s', ps[t := p]) = Some d"
    by (auto simp: c split: if_splits option.splits)
  have "thread_reach act c (s', ps[t := p])"
    unfolding c by (rule thread_reach_step [OF thread_reach_refl thread_stepI [where act = act, OF act]])
  then show ?case by (rule thread_reach_trans [OF Cons.IH [OF rest]])
qed (simp add: thread_reach_refl)

lemma thread_exec_append:
  "thread_exec act (us @ vs) c =
     (case thread_exec act us c of None \<Rightarrow> None | Some d \<Rightarrow> thread_exec act vs d)"
  by (induction us arbitrary: c) (auto split: option.splits prod.splits)

text \<open>If the program of a thread gets a property, then by one of the thread's own actions.\<close>

lemma thread_exec_change:
  assumes "thread_exec act sched (s, ps) = Some (s', ps')" "t < length ps" "\<not> P (ps ! t)" "P (ps' ! t)"
  shows "\<exists>us vs s1 ps1 p s2. sched = us @ t # vs \<and> thread_exec act us (s, ps) = Some (s1, ps1) \<and>
    \<not> P (ps1 ! t) \<and> act t (ps1 ! t) s1 = Some (p, s2) \<and> P p"
  using assms
proof (induction sched arbitrary: s ps)
  case (Cons u sched)
  from Cons.prems(1) obtain p s1 where u: "u < length ps" "act u (ps ! u) s = Some (p, s1)"
    and rest: "thread_exec act sched (s1, ps[u := p]) = Some (s', ps')"
    by (auto split: if_splits option.splits)
  show ?case
  proof (cases "P (ps[u := p] ! t)")
    case True
    with Cons.prems(2,3) u have "u = t" "P p" by (auto simp: nth_list_update split: if_splits)
    with Cons.prems(3) u show ?thesis
      by (intro exI [of _ "[]"] exI [of _ sched] exI [of _ s] exI [of _ ps] exI [of _ p] exI [of _ s1]) simp
  next
    case False
    from Cons.IH [OF rest _ False Cons.prems(4)] Cons.prems(2)
    obtain us vs s2 ps2 q s3 where IH: "sched = us @ t # vs" "thread_exec act us (s1, ps[u := p]) = Some (s2, ps2)"
      "\<not> P (ps2 ! t)" "act t (ps2 ! t) s2 = Some (q, s3)" "P q"
      by auto
    with u show ?thesis
      by (intro exI [of _ "u # us"] exI [of _ vs] exI [of _ s2] exI [of _ ps2] exI [of _ q] exI [of _ s3]) simp
  qed
qed simp

lemma thread_reach_length:
  "thread_reach act c d \<Longrightarrow> length (snd d) = length (snd c)"
  by (induction rule: thread_reach.induct) (auto elim!: thread_step.cases)

section \<open>Thread-wise invariants\<close>

text \<open>
  \<open>inv\<close> is the invariant of the shared state, \<open>ok t s p\<close> what thread \<open>t\<close> with remaining program
  \<open>p\<close> relies on in state \<open>s\<close>, and \<open>evolves\<close> the changes that any action may make to the
  state.
\<close>

locale thread_logic =
  fixes act :: "nat \<Rightarrow> 'p \<Rightarrow> 's \<Rightarrow> ('p \<times> 's) option"
    and inv :: "'s \<Rightarrow> bool"
    and ok :: "nat \<Rightarrow> 's \<Rightarrow> 'p \<Rightarrow> bool"
    and evolves :: "'s \<Rightarrow> 's \<Rightarrow> bool"
  assumes evolves_refl: "evolves s s"
    and evolves_trans: "evolves s s' \<Longrightarrow> evolves s' s'' \<Longrightarrow> evolves s s''"
    and act_keeps: "inv s \<Longrightarrow> ok t s p \<Longrightarrow> act t p s = Some (p', s') \<Longrightarrow>
      inv s' \<and> ok t s' p' \<and> evolves s s'"
    and ok_stable: "ok u s p \<Longrightarrow> evolves s s' \<Longrightarrow> ok u s' p"
begin

definition conf_ok :: "'s \<times> 'p list \<Rightarrow> bool" where
  "conf_ok c \<longleftrightarrow> inv (fst c) \<and> (\<forall>t < length (snd c). ok t (fst c) (snd c ! t))"

lemma step_keeps:
  assumes "conf_ok c" "thread_step act c d"
  shows "conf_ok d \<and> evolves (fst c) (fst d)"
  using assms(2)
proof cases
  case (thread_stepI t ps s p s')
  have c: "inv s" "ok t s (ps ! t)" "\<forall>u < length ps. ok u s (ps ! u)"
    using assms(1) thread_stepI(1,3) by (simp_all add: conf_ok_def)
  have k: "inv s' \<and> ok t s' p \<and> evolves s s'"
    by (rule act_keeps [OF c(1,2) thread_stepI(4)])
  moreover have "ok u s' (ps ! u)" if "u < length ps" for u
    using c(3) that k ok_stable by blast
  ultimately show ?thesis
    using thread_stepI(1-3) by (auto simp: conf_ok_def nth_list_update)
qed

lemma reach_keeps: "thread_reach act c d \<Longrightarrow> conf_ok c \<Longrightarrow> conf_ok d \<and> evolves (fst c) (fst d)"
proof (induction rule: thread_reach.induct)
  case thread_reach_refl
  then show ?case by (simp add: evolves_refl)
next
  case (thread_reach_step d e)
  then show ?case using step_keeps [of d e] evolves_trans by blast
qed

lemma reach_inv: "thread_reach act c d \<Longrightarrow> conf_ok c \<Longrightarrow> inv (fst d)"
  using reach_keeps by (auto simp: conf_ok_def)

lemma reach_ok: "thread_reach act c d \<Longrightarrow> conf_ok c \<Longrightarrow> t < length (snd d) \<Longrightarrow> ok t (fst d) (snd d ! t)"
  using reach_keeps by (auto simp: conf_ok_def)

lemma reach_evolves: "thread_reach act c d \<Longrightarrow> conf_ok c \<Longrightarrow> evolves (fst c) (fst d)"
  using reach_keeps by blast

end

section \<open>Thread-wise budgets\<close>

text \<open>
  The logic for wait-freedom: \<open>ok t n s p\<close> says that thread \<open>t\<close> with program \<open>p\<close> needs at most
  \<open>n\<close> more actions, whatever the others do within \<open>evolves\<close>. Every action spends one unit, and
  what it takes out of the shared stock the program then holds in its hands.
\<close>

locale thread_budget =
  fixes act :: "nat \<Rightarrow> 'p \<Rightarrow> 's \<Rightarrow> ('p \<times> 's) option"
    and ok :: "nat \<Rightarrow> nat \<Rightarrow> 's \<Rightarrow> 'p \<Rightarrow> bool"
    and evolves :: "'s \<Rightarrow> 's \<Rightarrow> bool"
    and stock :: "'s \<Rightarrow> 'i multiset"
    and held :: "'p \<Rightarrow> 'i multiset"
  assumes evolves_refl: "evolves s s"
    and evolves_trans: "evolves s s' \<Longrightarrow> evolves s' s'' \<Longrightarrow> evolves s s''"
    and act_spends: "ok t n s p \<Longrightarrow> act t p s = Some (p', s') \<Longrightarrow>
      0 < n \<and> ok t (n - 1) s' p' \<and> evolves s s' \<and> stock s' + held p' = stock s + held p"
    and ok_stable: "ok t n s p \<Longrightarrow> evolves s s' \<Longrightarrow> ok t n s' p"
begin

definition total_held :: "'p list \<Rightarrow> 'i multiset" where
  "total_held ps = sum_list (map held ps)"

lemma total_held_update:
  "t < length ps \<Longrightarrow> total_held (ps[t := p]) + held (ps ! t) = total_held ps + held p"
proof (induction ps arbitrary: t)
  case (Cons q ps)
  show ?case
  proof (cases t)
    case (Suc k)
    with Cons.IH [of k] Cons.prems show ?thesis by (simp add: total_held_def add.assoc)
  qed (simp add: total_held_def ac_simps)
qed simp

lemma total_held_empty: "\<forall>p \<in> set ps. held p = {#} \<Longrightarrow> total_held ps = {#}"
  unfolding total_held_def by (induction ps) auto

lemma exec_spends:
  assumes "thread_exec act sched (s, ps) = Some (s', ps')" "\<forall>t < length ps. ok t (N t) s (ps ! t)"
  shows "length ps' = length ps \<and> evolves s s' \<and>
    (\<forall>t < length ps. count_list sched t \<le> N t \<and> ok t (N t - count_list sched t) s' (ps' ! t)) \<and>
    stock s' + total_held ps' = stock s + total_held ps"
  using assms
proof (induction sched arbitrary: s ps N)
  case Nil
  then show ?case by (simp add: evolves_refl)
next
  case (Cons u sched)
  from Cons.prems(1) obtain p s1 where u: "u < length ps" "act u (ps ! u) s = Some (p, s1)"
    and rest: "thread_exec act sched (s1, ps[u := p]) = Some (s', ps')"
    by (auto split: if_splits option.splits)
  have "ok u (N u) s (ps ! u)" using Cons.prems(2) u(1) by blast
  from act_spends [OF this u(2)] have step: "0 < N u" "ok u (N u - 1) s1 p" "evolves s s1"
    "stock s1 + held p = stock s + held (ps ! u)"
    by simp_all
  let ?N = "N(u := N u - 1)"
  have "ok t (?N t) s1 (ps[u := p] ! t)" if "t < length (ps[u := p])" for t
    using that step(2) ok_stable [OF _ step(3)] Cons.prems(2) u(1) by (auto simp: nth_list_update)
  with Cons.IH [OF rest, of ?N] have IH: "length ps' = length ps" "evolves s1 s'"
    "\<And>t. t < length ps \<Longrightarrow> count_list sched t \<le> ?N t \<and> ok t (?N t - count_list sched t) s' (ps' ! t)"
    "stock s' + total_held ps' = stock s1 + total_held (ps[u := p])"
    by simp_all
  have "stock s1 + total_held (ps[u := p]) + (held (ps ! u) + held p) =
      stock s + total_held ps + (held (ps ! u) + held p)"
    using total_held_update [OF u(1), of p] step(4) by (simp add: ac_simps)
  then have "stock s' + total_held ps' = stock s + total_held ps" using IH(4) by simp
  moreover have "count_list (u # sched) t \<le> N t \<and> ok t (N t - count_list (u # sched) t) s' (ps' ! t)"
    if "t < length ps" for t
    using IH(3) [OF that] step(1) by (auto split: if_splits)
  ultimately show ?case using IH(1,2) evolves_trans [OF step(3)] by blast
qed

end

end
