(* ===== verification/Fine_Grained_Conc.thy ===== *)
theory Fine_Grained_Conc
  imports Fine_Grained Interleaving
begin

text \<open>
  Threads on one \<open>FineGrainedFilter\<close>, interleaved action by action: lock discipline, freedom
  from deadlock, freedom from data races for \<open>find\<close> and \<open>remove\<close>, and what goes wrong in the
  replacement phase of \<open>insert\<close>, which swaps a slot without holding the bucket's mutex.
\<close>

section \<open>Interleaving\<close>

type_synonym 'a fg_conf = "fg_filter \<times> 'a fg_prog list"

abbreviation fg_step :: "(nat \<Rightarrow> nat) \<Rightarrow> 'a fg_conf \<Rightarrow> 'a fg_conf \<Rightarrow> bool" where
  "fg_step rnd \<equiv> thread_step (fg_act rnd)"

abbreviation fg_reach :: "(nat \<Rightarrow> nat) \<Rightarrow> 'a fg_conf \<Rightarrow> 'a fg_conf \<Rightarrow> bool" where
  "fg_reach rnd \<equiv> thread_reach (fg_act rnd)"

abbreviation fg_exec :: "(nat \<Rightarrow> nat) \<Rightarrow> nat list \<Rightarrow> 'a fg_conf \<Rightarrow> 'a fg_conf option" where
  "fg_exec rnd \<equiv> thread_exec (fg_act rnd)"

section \<open>Clients\<close>

primrec fg_op :: "evp_digest \<Rightarrow> u32 \<Rightarrow> filter_call \<Rightarrow> bool fg_prog" where
  "fg_op evp ts (InsertKey k) = fg_insert evp ts k"
| "fg_op evp ts (FindKey k) = fg_find evp ts k"
| "fg_op evp ts (RemoveKey k) = fg_remove evp ts k"

text \<open>A thread that makes the calls \<open>cs\<close> one after the other and collects their results.\<close>

primrec fg_client :: "evp_digest \<Rightarrow> u32 \<Rightarrow> filter_call list \<Rightarrow> bool list fg_prog" where
  "fg_client evp ts [] = FRet []"
| "fg_client evp ts (c # cs) =
     fg_bind (fg_op evp ts c) (\<lambda>r. fg_bind (fg_client evp ts cs) (\<lambda>rs. FRet (r # rs)))"

text \<open>The same with the answers so far: a thread that has the answers \<open>rs\<close> and still makes the calls \<open>cs\<close>.\<close>

fun fg_calls :: "(filter_call \<Rightarrow> bool fg_prog) \<Rightarrow> bool list \<Rightarrow> filter_call list \<Rightarrow> bool list fg_prog" where
  "fg_calls op rs [] = FRet rs"
| "fg_calls op rs (c # cs) = fg_bind (op c) (\<lambda>r. fg_calls op (rs @ [r]) cs)"

lemma fg_bind_assoc: "fg_bind (fg_bind p f) g = fg_bind p (\<lambda>a. fg_bind (f a) g)"
  by (induction p) auto

lemma fg_calls_client: "fg_calls (fg_op evp ts) rs cs = fg_bind (fg_client evp ts cs) (\<lambda>rs'. FRet (rs @ rs'))"
  by (induction cs arbitrary: rs) (simp_all add: fg_bind_assoc)

lemma fg_bind_FRet [simp]: "fg_bind p FRet = p"
  by (induction p) auto

lemma fg_client_calls: "fg_client evp ts cs = fg_calls (fg_op evp ts) [] cs"
  by (simp add: fg_calls_client)

definition fg_start :: "evp_digest \<Rightarrow> fg_filter \<Rightarrow> filter_call list list \<Rightarrow> bool list fg_conf" where
  "fg_start evp s css = (s, map (fg_client evp (fg_table_size s)) css)"

section \<open>Lock discipline of a program\<close>

text \<open>
  \<open>disciplined g h p\<close>: a program that holds \<open>h\<close> (nothing, or one mutex in one mode) only
  locks while it holds nothing, unlocks what it holds, ends holding nothing, and, if \<open>g\<close>,
  reads a bucket only under its mutex and writes it only under its mutex held exclusively.
\<close>

primrec disciplined :: "bool \<Rightarrow> (bool \<times> nat) option \<Rightarrow> 'a fg_prog \<Rightarrow> bool" where
  "disciplined g h (FRet a) = (h = None)"
| "disciplined g h FDivByZero = (h = None)"
| "disciplined g h (FLock x m p) = (h = None \<and> m < NUM_MUTEXES \<and> disciplined g (Some (x, m)) p)"
| "disciplined g h (FUnlock x m p) = (h = Some (x, m) \<and> m < NUM_MUTEXES \<and> disciplined g None p)"
| "disciplined g h (FRead b i k) =
     ((g \<longrightarrow> (\<exists>x. h = Some (x, mutex_of b))) \<and> (\<forall>v. disciplined g h (k v)))"
| "disciplined g h (FWrite b i v p) =
     ((g \<longrightarrow> h = Some (True, mutex_of b)) \<and> disciplined g h p)"
| "disciplined g h (FRand k) = (\<forall>v. disciplined g h (k v))"

lemma disciplined_bind:
  "disciplined g h p \<Longrightarrow> (\<And>a. disciplined g None (f a)) \<Longrightarrow> disciplined g h (fg_bind p f)"
  by (induction p arbitrary: h) auto

lemma disciplined_scan:
  assumes "\<And>i. i \<in> set is \<Longrightarrow> disciplined g h (hit i)" "disciplined g h miss"
    and "g \<longrightarrow> (\<exists>x. h = Some (x, mutex_of b))"
  shows "disciplined g h (fg_scan is P b hit miss)"
  using assms by (induction "is") auto

lemma disciplined_kick: "disciplined False None (fg_kick n ts b fp)"
  by (induction n arbitrary: b fp) (auto simp: Let_def intro!: disciplined_scan)

lemma disciplined_insert: "disciplined False None (fg_insert evp ts k)"
  by (auto simp: fg_insert_def Let_def intro!: disciplined_scan disciplined_kick)

lemma disciplined_find: "disciplined g None (fg_find evp ts k)"
  by (auto simp: fg_find_def Let_def intro!: disciplined_scan)

lemma disciplined_remove: "disciplined g None (fg_remove evp ts k)"
  by (auto simp: fg_remove_def Let_def intro!: disciplined_scan)

fun is_insert :: "filter_call \<Rightarrow> bool" where
  "is_insert (InsertKey k) = True"
| "is_insert _ = False"

lemma disciplined_client:
  "(g \<longrightarrow> (\<forall>c \<in> set cs. \<not> is_insert c)) \<Longrightarrow> disciplined g None (fg_client evp ts cs)"
proof (induction cs)
  case (Cons c cs)
  have "disciplined g None (fg_op evp ts c)"
    using Cons.prems
    by (cases c; cases g) (auto intro: disciplined_insert disciplined_find disciplined_remove)
  with Cons show ?case by (auto intro!: disciplined_bind)
qed simp


section \<open>The invariant: who holds which mutex\<close>

definition lock_table :: "(nat \<Rightarrow> (bool \<times> nat) option) \<Rightarrow> rwlock list \<Rightarrow> bool" where
  "lock_table hs ms \<longleftrightarrow> length ms = NUM_MUTEXES \<and>
     (\<forall>m < NUM_MUTEXES.
        (\<forall>t. rw_writer (ms ! m) = Some t \<longleftrightarrow> hs t = Some (True, m)) \<and>
        set (rw_readers (ms ! m)) = {t. hs t = Some (False, m)} \<and>
        distinct (rw_readers (ms ! m)) \<and>
        (rw_writer (ms ! m) \<noteq> None \<longrightarrow> rw_readers (ms ! m) = []))"

definition fg_inv :: "bool \<Rightarrow> (nat \<Rightarrow> (bool \<times> nat) option) \<Rightarrow> 'a fg_conf \<Rightarrow> bool" where
  "fg_inv g hs c \<longleftrightarrow> lock_table hs (fg_mutexes (fst c)) \<and>
     (\<forall>t < length (snd c). disciplined g (hs t) (snd c ! t)) \<and>
     (\<forall>t \<ge> length (snd c). hs t = None)"

lemma lock_table_writer:
  "lock_table hs ms \<Longrightarrow> m < NUM_MUTEXES \<Longrightarrow> rw_writer (ms ! m) = Some t \<longleftrightarrow> hs t = Some (True, m)"
  by (simp add: lock_table_def)

lemma lock_table_readers:
  "lock_table hs ms \<Longrightarrow> m < NUM_MUTEXES \<Longrightarrow> t \<in> set (rw_readers (ms ! m)) \<longleftrightarrow> hs t = Some (False, m)"
  by (simp add: lock_table_def)

lemma lock_table_writer_alone:
  "lock_table hs ms \<Longrightarrow> m < NUM_MUTEXES \<Longrightarrow> rw_writer (ms ! m) = Some t \<Longrightarrow> rw_readers (ms ! m) = []"
  unfolding lock_table_def by blast

lemma lock_table_acquire:
  assumes "lock_table hs ms" "hs t = None" "m < NUM_MUTEXES" "can_lock x (ms ! m)"
  shows "lock_table (hs(t := Some (x, m))) (ms[m := acquire t x (ms ! m)])"
proof -
  have "t \<notin> set (rw_readers (ms ! m'))" if "m' < NUM_MUTEXES" for m'
    using assms(1,2) that by (auto simp: lock_table_def)
  moreover have "rw_writer (ms ! m') \<noteq> Some t" if "m' < NUM_MUTEXES" for m'
    using assms(1,2) that by (auto simp: lock_table_def)
  ultimately show ?thesis
    using assms
    by (auto simp: lock_table_def acquire_def can_lock_def nth_list_update)
qed

lemma lock_table_release:
  assumes "lock_table hs ms" "hs t = Some (x, m)" "m < NUM_MUTEXES"
  shows "lock_table (hs(t := None)) (ms[m := release t x (ms ! m)])"
proof -
  have "u = t" if "x" "hs u = Some (True, m)" for u
    using lock_table_writer [OF assms(1,3), of t] lock_table_writer [OF assms(1,3), of u] that assms(2)
    by simp
  then show ?thesis
    using assms by (auto simp: lock_table_def release_def nth_list_update)
qed

text \<open>What a thread holds after its next action.\<close>

fun hold_after :: "'a fg_prog \<Rightarrow> (bool \<times> nat) option \<Rightarrow> (bool \<times> nat) option" where
  "hold_after (FLock x m p) h = Some (x, m)"
| "hold_after (FUnlock x m p) h = None"
| "hold_after p h = h"

lemma fg_inv_act:
  assumes "fg_inv g hs (s, ps)" "t < length ps" "fg_act rnd t (ps ! t) s = Some (p, s')"
  shows "fg_inv g (hs(t := hold_after (ps ! t) (hs t))) (s', ps[t := p])"
proof -
  have inv: "lock_table hs (fg_mutexes s)" "disciplined g (hs t) (ps ! t)"
    "\<forall>u < length ps. disciplined g (hs u) (ps ! u)" "\<forall>u \<ge> length ps. hs u = None"
    using assms(1,2) by (auto simp: fg_inv_def)
  have keep: "fg_inv g hs (s', ps[t := p])" if "fg_mutexes s' = fg_mutexes s" "disciplined g (hs t) p"
    using that inv assms(2) by (auto simp: fg_inv_def nth_list_update)
  show ?thesis
  proof (cases "ps ! t")
    case (FLock x m q)
    with inv(2) assms(3) have h: "hs t = None" "m < NUM_MUTEXES" "disciplined g (Some (x, m)) q"
      and p: "p = q" "s' = on_mutex m (acquire t x) s" "can_lock x (fg_mutexes s ! m)"
      by (auto split: if_splits)
    show ?thesis
      using lock_table_acquire [OF inv(1) h(1,2) p(3)] inv(3,4) h(3) assms(2) FLock
      by (auto simp: fg_inv_def p(1,2) nth_list_update)
  next
    case (FUnlock x m q)
    with inv(2) assms(3) have h: "hs t = Some (x, m)" "m < NUM_MUTEXES" "disciplined g None q"
      and p: "p = q" "s' = on_mutex m (release t x) s"
      by (auto split: if_splits)
    show ?thesis
      using lock_table_release [OF inv(1) h(1,2)] inv(3,4) h(3) assms(2) FUnlock
      by (auto simp: fg_inv_def p(1,2) nth_list_update)
  qed (use inv(2) assms(3) keep in auto)
qed

lemma fg_inv_step:
  assumes "fg_inv g hs c" "fg_step rnd c d"
  shows "\<exists>hs'. fg_inv g hs' d"
  using assms(2)
proof cases
  case (thread_stepI t ps s p s')
  with fg_inv_act [of g hs s ps t rnd p s'] assms(1) show ?thesis by auto
qed

lemma fg_inv_reach: "fg_reach rnd c d \<Longrightarrow> fg_inv g hs c \<Longrightarrow> \<exists>hs'. fg_inv g hs' d"
  by (induction rule: thread_reach.induct) (auto dest: fg_inv_step)

lemma fg_inv_start:
  assumes "quiet s" "g \<longrightarrow> (\<forall>cs \<in> set css. \<forall>c \<in> set cs. \<not> is_insert c)"
  shows "fg_inv g (\<lambda>_. None) (fg_start evp s css)"
  using assms
  by (auto simp: fg_inv_def fg_start_def lock_table_def quiet_def intro!: disciplined_client)

text \<open>What the invariant says of a reachable configuration.\<close>

lemma lock_table_excl:
  assumes "lock_table hs ms" "hs t = Some (True, m)" "hs u = Some (x, m)" "m < NUM_MUTEXES"
  shows "t = u"
proof -
  have w: "rw_writer (ms ! m) = Some t" using assms by (simp add: lock_table_writer)
  then have "u \<notin> set (rw_readers (ms ! m))" using assms by (simp add: lock_table_writer_alone)
  then have "x" using assms by (cases x) (simp_all add: lock_table_readers)
  then have "rw_writer (ms ! m) = Some u" using assms by (simp add: lock_table_writer)
  with w show ?thesis by simp
qed

definition ended :: "'a fg_prog \<Rightarrow> bool" where
  "ended p \<longleftrightarrow> (case p of FRet _ \<Rightarrow> True | FDivByZero \<Rightarrow> True | _ \<Rightarrow> False)"

lemma fg_inv_progress:
  assumes inv: "fg_inv g hs (s, ps)" and "t < length ps" "\<not> ended (ps ! t)"
  shows "\<exists>d. fg_step rnd (s, ps) d"
proof -
  have act: "\<exists>p s'. fg_act rnd u (ps ! u) s = Some (p, s')"
    if "\<not> ended (ps ! u)" "\<And>x m p. ps ! u = FLock x m p \<Longrightarrow> can_lock x (fg_mutexes s ! m)" for u
    using that by (cases "ps ! u") (auto simp: ended_def)
  have step: ?thesis if "u < length ps" "\<exists>p s'. fg_act rnd u (ps ! u) s = Some (p, s')" for u
    using that by (auto intro: thread_step.intros)
  show ?thesis
  proof (cases "\<exists>u < length ps. hs u \<noteq> None")
    case True
    then obtain u h where u: "u < length ps" "hs u = Some h" by auto
    then have "disciplined g (Some h) (ps ! u)" using inv by (auto simp: fg_inv_def)
    then have "\<not> ended (ps ! u)" "ps ! u \<noteq> FLock x m p" for x m p
      by (auto simp: ended_def split: fg_prog.splits)
    then show ?thesis by (intro step [OF u(1)] act) auto
  next
    case False
    have none: "hs u = None" for u
    proof (cases "u < length ps")
      case True
      with False show ?thesis by blast
    next
      case False
      with inv show ?thesis by (simp add: fg_inv_def)
    qed
    have "disciplined g None (ps ! t)" using inv assms(2) none by (auto simp: fg_inv_def)
    moreover have "can_lock x (fg_mutexes s ! m)" if "m < NUM_MUTEXES" for x m
    proof -
      have "rw_writer (fg_mutexes s ! m) \<noteq> Some u" for u
        using inv that none by (auto simp: fg_inv_def lock_table_def)
      moreover have "rw_readers (fg_mutexes s ! m) = []"
        using inv that none by (auto simp: fg_inv_def lock_table_def)
      ultimately show ?thesis by (auto simp: can_lock_def)
    qed
    ultimately show ?thesis by (intro step [OF assms(2)] act [OF assms(3)]) auto
  qed
qed

section \<open>Data races\<close>

text \<open>The memory access a program is about to make: written or read, bucket and slot.\<close>

fun next_access :: "'a fg_prog \<Rightarrow> (bool \<times> u32 \<times> nat) option" where
  "next_access (FRead b i k) = Some (False, b, i)"
| "next_access (FWrite b i v p) = Some (True, b, i)"
| "next_access _ = None"

text \<open>Two threads about to access the same slot, at least one of them to write it.\<close>

definition data_race :: "'a fg_conf \<Rightarrow> bool" where
  "data_race c \<longleftrightarrow> (\<exists>t < length (snd c). \<exists>u < length (snd c). t \<noteq> u \<and>
     (\<exists>b i w. next_access (snd c ! t) = Some (True, b, i) \<and>
              next_access (snd c ! u) = Some (w, b, i)))"

lemma fg_inv_no_race: "fg_inv True hs c \<Longrightarrow> \<not> data_race c"
proof
  assume inv: "fg_inv True hs c" and "data_race c"
  then obtain t u b i w where tu: "t < length (snd c)" "u < length (snd c)" "t \<noteq> u"
    and acc: "next_access (snd c ! t) = Some (True, b, i)" "next_access (snd c ! u) = Some (w, b, i)"
    by (auto simp: data_race_def)
  from inv tu have d: "disciplined True (hs t) (snd c ! t)" "disciplined True (hs u) (snd c ! u)"
    by (simp_all add: fg_inv_def)
  from d(1) acc(1) have "hs t = Some (True, mutex_of b)"
    by (auto elim!: next_access.elims)
  moreover from d(2) acc(2) have "\<exists>x. hs u = Some (x, mutex_of b)"
    by (auto elim!: next_access.elims)
  ultimately show False
    using lock_table_excl tu(3) inv mutex_of_less unfolding fg_inv_def by blast
qed


section \<open>Bounded executions\<close>

text \<open>\<open>acts_within p n\<close>: on every path, \<open>p\<close> ends after at most \<open>n\<close> actions.\<close>

primrec acts_within :: "'a fg_prog \<Rightarrow> nat \<Rightarrow> bool" where
  "acts_within (FRet a) n = True"
| "acts_within FDivByZero n = True"
| "acts_within (FLock x m p) n = (0 < n \<and> acts_within p (n - 1))"
| "acts_within (FUnlock x m p) n = (0 < n \<and> acts_within p (n - 1))"
| "acts_within (FRead b i k) n = (0 < n \<and> (\<forall>v. acts_within (k v) (n - 1)))"
| "acts_within (FWrite b i v p) n = (0 < n \<and> acts_within p (n - 1))"
| "acts_within (FRand k) n = (0 < n \<and> (\<forall>v. acts_within (k v) (n - 1)))"

lemma acts_within_mono: "acts_within p n \<Longrightarrow> n \<le> n' \<Longrightarrow> acts_within p n'"
proof (induction p arbitrary: n n')
  case (FRead b i k)
  have "acts_within (k v) (n' - 1)" for v
    using FRead.prems by - (rule FRead.IH [of _ "n - 1"], auto)
  with FRead.prems show ?case by auto
next
  case (FRand k)
  have "acts_within (k v) (n' - 1)" for v
    using FRand.prems by - (rule FRand.IH [of _ "n - 1"], auto)
  with FRand.prems show ?case by auto
qed (auto intro: diff_le_mono)

lemma acts_within_bind:
  "acts_within p n \<Longrightarrow> (\<And>a. acts_within (f a) n') \<Longrightarrow> acts_within (fg_bind p f) (n + n')"
proof (induction p arbitrary: n)
  case (FRet a)
  then show ?case by (auto intro: acts_within_mono [of _ n'])
next
  case (FLock x m p)
  then show ?case using FLock.IH [of "n - 1"] by auto
next
  case (FUnlock x m p)
  then show ?case using FUnlock.IH [of "n - 1"] by auto
next
  case (FRead b i k)
  then show ?case using FRead.IH [of _ "n - 1"] by auto
next
  case (FWrite b i v p)
  then show ?case using FWrite.IH [of "n - 1"] by auto
next
  case (FRand k)
  then show ?case using FRand.IH [of _ "n - 1"] by auto
qed simp

lemma acts_within_scan:
  "(\<And>i. acts_within (hit i) n) \<Longrightarrow> acts_within miss n \<Longrightarrow>
    acts_within (fg_scan is P b hit miss) (length is + n)"
proof (induction "is")
  case (Cons i "is")
  then show ?case by (auto intro: acts_within_mono [of _ n])
qed simp

lemma acts_within_bucket:
  assumes "4 \<le> n" "\<And>i. acts_within (hit i) (n - 4)" "acts_within miss (n - 4)"
  shows "acts_within (fg_scan [0..<NUM_ITEMS_PER_ENTRY] P b hit miss) n"
  using acts_within_scan [of hit "n - 4" miss "[0..<NUM_ITEMS_PER_ENTRY]" P b] assms
  by (simp add: NUM_ITEMS_PER_ENTRY_def)

lemma acts_within_kick: "acts_within (fg_kick n ts b fp) (9 * n + 1)"
  by (induction n arbitrary: b fp) (auto simp: Let_def intro!: acts_within_bucket)

lemma acts_within_insert: "acts_within (fg_insert evp ts k) 104"
  unfolding fg_insert_def Let_def
  by (auto intro!: acts_within_bucket acts_within_mono [OF acts_within_kick]
      simp: NUM_MAX_KICKS_def)

lemma acts_within_find: "acts_within (fg_find evp ts k) 104"
  unfolding fg_find_def Let_def by (auto intro!: acts_within_bucket)

lemma acts_within_remove: "acts_within (fg_remove evp ts k) 104"
  unfolding fg_remove_def Let_def by (auto intro!: acts_within_bucket)

lemma acts_within_op: "acts_within (fg_op evp ts c) 104"
  by (cases c) (auto intro: acts_within_insert acts_within_find acts_within_remove)

lemma acts_within_client: "acts_within (fg_client evp ts cs) (104 * length cs)"
proof (induction cs)
  case (Cons c cs)
  have "acts_within (fg_bind (fg_client evp ts cs) (\<lambda>rs. FRet (r # rs))) (104 * length cs + 0)" for r
    by (rule acts_within_bind [OF Cons.IH]) simp
  then have "acts_within (fg_client evp ts (c # cs)) (104 + 104 * length cs)"
    by (simp add: acts_within_bind [OF acts_within_op])
  then show ?case by simp
qed simp

lemma fg_act_within:
  "fg_act rnd t p s = Some (q, s') \<Longrightarrow> acts_within p n \<Longrightarrow> 0 < n \<and> acts_within q (n - 1)"
  by (cases p) (auto split: if_splits)

text \<open>Whatever an action means for the state, it takes one step of the program.\<close>

lemma exec_bound:
  assumes one: "\<And>t p s q s' n. act t p s = Some (q, s') \<Longrightarrow> acts_within p n \<Longrightarrow> 0 < n \<and> acts_within q (n - 1)"
    and "thread_exec act sched (s, ps) = Some d" "length ns = length ps"
    and "\<forall>t < length ps. acts_within (ps ! t) (ns ! t)"
  shows "length sched \<le> sum_list ns"
  using assms(2-)
proof (induction sched arbitrary: s ps ns)
  case (Cons t sched)
  from Cons.prems(1) obtain p s' where act: "t < length ps" "act t (ps ! t) s = Some (p, s')"
    and rest: "thread_exec act sched (s', ps[t := p]) = Some d"
    by (auto split: if_splits option.splits)
  have w: "0 < ns ! t" "acts_within p (ns ! t - 1)"
    using one [OF act(2)] Cons.prems(3) act(1) by auto
  have "length sched \<le> sum_list (ns[t := ns ! t - 1])"
  proof (rule Cons.IH [OF rest])
    show "\<forall>u < length (ps[t := p]). acts_within (ps[t := p] ! u) (ns[t := ns ! t - 1] ! u)"
      using Cons.prems(2,3) w act(1) by (auto simp: nth_list_update)
  qed (use Cons.prems(2) in simp)
  moreover have "sum_list (ns[t := ns ! t - 1]) + 1 = sum_list ns"
    using w(1) act(1) Cons.prems(2) member_le_sum_list [of "ns ! t" ns]
    by (simp add: sum_list_update)
  ultimately show ?case by simp
qed simp

lemma fg_exec_bound:
  "fg_exec rnd sched (s, ps) = Some d \<Longrightarrow> length ns = length ps \<Longrightarrow>
    \<forall>t < length ps. acts_within (ps ! t) (ns ! t) \<Longrightarrow> length sched \<le> sum_list ns"
  by (rule exec_bound [of "fg_act rnd"]) (auto dest: fg_act_within)


section \<open>Concrete interleavings\<close>

text \<open>
  A filter with two buckets, the first full with key 8 and three copies of key 5, the second
  empty. Key 0 belongs into bucket 0 only, the other two into both buckets.
\<close>

definition fg_full :: fg_filter where
  "fg_full = \<lparr>fg_table_size = 2, fg_verbose = False,
     fg_hash_table = [[md5_fingerprint pad_evp [8], md5_fingerprint pad_evp [5],
                       md5_fingerprint pad_evp [5], md5_fingerprint pad_evp [5]],
                      [[], [], [], []]],
     fg_mutexes = replicate 8 (RW None []), fg_rand = 0\<rparr>"

lemma quiet_fg_full: "quiet fg_full"
  by (simp add: quiet_def fg_full_def NUM_MUTEXES_def)

definition result_of :: "'a fg_prog \<Rightarrow> 'a option" where
  "result_of p = (case p of FRet a \<Rightarrow> Some a | _ \<Rightarrow> None)"

text \<open>
  For evaluating schedules: congruence rules that keep the simplifier out of the continuation
  of an action until the action is performed.
\<close>

lemma fg_lazy:
  "x = x' \<Longrightarrow> m = m' \<Longrightarrow> FLock x m p = FLock x' m' p"
  "x = x' \<Longrightarrow> m = m' \<Longrightarrow> FUnlock x m p = FUnlock x' m' p"
  "b = b' \<Longrightarrow> i = i' \<Longrightarrow> FRead b i k = FRead b' i' k"
  "b = b' \<Longrightarrow> i = i' \<Longrightarrow> v = v' \<Longrightarrow> FWrite b i v p = FWrite b' i' v' p"
  "FRand k' = FRand k'"
  "js = js' \<Longrightarrow> fg_scan js P b hit miss = fg_scan js' P b hit miss"
  "q = q' \<Longrightarrow> fg_bind q f = fg_bind q' f"
  by simp_all

lemma demo_fingerprints:
  "md5_fingerprint pad_evp [8] \<noteq> []" "md5_fingerprint pad_evp [5] \<noteq> []"
  "md5_fingerprint pad_evp [0] \<noteq> []"
  "md5_fingerprint pad_evp [5] \<noteq> md5_fingerprint pad_evp [8]"
  "md5_fingerprint pad_evp [0] \<noteq> md5_fingerprint pad_evp [8]"
  "[] \<noteq> md5_fingerprint pad_evp [8]"
  by code_simp+

lemma demo_hashes:
  "jenkins_hash [0] mod 2 = 0" "jenkins_hash [8] mod 2 = 0"
  "get_next_hash_index 2 0 (md5_fingerprint pad_evp [0]) = 0"
  "get_next_hash_index 2 0 (md5_fingerprint pad_evp [8]) = 1"
  by code_simp+

lemmas fg_eval =
  fg_start_def fg_full_def fg_insert_def fg_find_def NUM_ITEMS_PER_ENTRY_def NUM_MUTEXES_def
  mutex_of_def on_mutex_def can_lock_def acquire_def release_def cell_def put_cell_def fg_put_def
  demo_fingerprints demo_hashes Let_def

lemma fg_kick_10:
  "fg_kick 10 ts b fp = FRand (\<lambda>r. FRead b (r mod 4) (\<lambda>ev. FWrite b (r mod 4) fp
     (FLock True (mutex_of (get_next_hash_index ts b ev))
       (fg_scan [0, 1, 2, 3] (\<lambda>s. s = []) (get_next_hash_index ts b ev)
         (\<lambda>i. FWrite (get_next_hash_index ts b ev) i ev
           (FUnlock True (mutex_of (get_next_hash_index ts b ev)) (FRet True)))
         (FUnlock True (mutex_of (get_next_hash_index ts b ev))
           (fg_kick 9 ts (get_next_hash_index ts b ev) ev))))))"
proof -
  have n: "(10 :: nat) = Suc 9" "[0..<4] = [0, 1, 2, 3 :: nat]"
    by (simp, simp add: numeral_eq_Suc upt_rec)
  show ?thesis
    unfolding n(1) fg_kick.simps(2) Let_def NUM_ITEMS_PER_ENTRY_def n(2) fg_next_eq by (rule refl)
qed

lemma demo_lists:
  "[0..<4] = [0, 1, 2, 3 :: nat]"
  "replicate 8 l = [l, l, l, l, l, l, l, l]"
  "replicate 4 t = [t, t, t, t]"
  "replicate 12 t = [t, t, t, t, t, t, t, t, t, t, t, t]"
  "replicate 15 t = [t, t, t, t, t, t, t, t, t, t, t, t, t, t, t]"
  "replicate 16 t = [t, t, t, t, t, t, t, t, t, t, t, t, t, t, t, t]"
  by (simp_all add: numeral_eq_Suc upt_rec)

definition demo_conf :: "bool list fg_conf" where
  "demo_conf = fg_start pad_evp fg_full [[InsertKey [0]], [FindKey [8]]]"

lemma demo_race:
  "\<exists>s ps. fg_exec (\<lambda>_. 0) (replicate 15 0 @ [1]) demo_conf = Some (s, ps) \<and>
     map next_access ps = [Some (True, 0, 0), Some (False, 0, 0)]"
  supply fg_lazy(1-4,6,7) [cong]
  by (simp add: demo_conf_def fg_eval demo_lists NUM_MAX_KICKS_def fg_kick_10)

lemma demo_solo: "fst (fg_run (\<lambda>_. 0) 0 (fg_find pad_evp 2 [8]) fg_full) = Returned True"
  supply fg_lazy(1-4,6,7) [cong]
  by (simp add: fg_eval demo_lists)

lemma demo_miss:
  "\<exists>s ps. fg_exec (\<lambda>_. 0) (replicate 16 0 @ replicate 12 1 @ replicate 4 0) demo_conf = Some (s, ps) \<and>
     map result_of ps = [Some [True], Some [False]] \<and>
     fst (fg_run (\<lambda>_. 0) 0 (fg_find pad_evp 2 [8]) s) = Returned True"
  supply fg_lazy(1-4,6,7) [cong]
  by (simp add: demo_conf_def fg_eval demo_lists NUM_MAX_KICKS_def fg_kick_10 result_of_def)

section \<open>Properties\<close>

definition holds_mutex :: "fg_filter \<Rightarrow> nat \<Rightarrow> nat \<Rightarrow> bool" where
  "holds_mutex s t m \<longleftrightarrow> rw_writer (fg_mutexes s ! m) = Some t \<or> t \<in> set (rw_readers (fg_mutexes s ! m))"

lemma holds_mutex_inv:
  "lock_table hs (fg_mutexes s) \<Longrightarrow> m < NUM_MUTEXES \<Longrightarrow>
    holds_mutex s t m \<longleftrightarrow> (\<exists>x. hs t = Some (x, m))"
  by (auto simp: holds_mutex_def lock_table_writer lock_table_readers)

lemma fg_start_reach_inv:
  assumes "quiet s" "fg_reach rnd (fg_start evp s css) (s', ps)"
  obtains hs where "fg_inv False hs (s', ps)"
proof -
  have "fg_inv False (\<lambda>_. None) (fg_start evp s css)"
    by (rule fg_inv_start [OF assms(1)]) simp
  from fg_inv_reach [OF assms(2) this] that show ?thesis by blast
qed

text \<open>
  C20. Lock discipline, in every configuration that any number of threads calling \<open>insert\<close>,
  \<open>find\<close> and \<open>remove\<close> can reach: a mutex held exclusively has no other holder, no thread holds
  two mutexes, and a thread that waits for a mutex or has finished its calls holds none.
\<close>

theorem fg_lock_discipline:
  assumes "quiet s" "fg_reach rnd (fg_start evp s css) (s', ps)" "m < NUM_MUTEXES" "m' < NUM_MUTEXES"
  shows "(rw_writer (fg_mutexes s' ! m) = Some t \<and> holds_mutex s' u m \<longrightarrow> u = t) \<and>
    (holds_mutex s' t m \<and> holds_mutex s' t m' \<longrightarrow> m' = m) \<and>
    (t < length ps \<and> (ended (ps ! t) \<or> (\<exists>x n p. ps ! t = FLock x n p)) \<longrightarrow> \<not> holds_mutex s' t m)"
proof -
  from fg_start_reach_inv [OF assms(1,2)] obtain hs where inv: "fg_inv False hs (s', ps)" .
  then have lt: "lock_table hs (fg_mutexes s')" by (simp add: fg_inv_def)
  note holds = holds_mutex_inv [OF lt]
  have "u = t" if "rw_writer (fg_mutexes s' ! m) = Some t" "holds_mutex s' u m"
    using that holds [OF assms(3)] lock_table_writer [OF lt assms(3)] lock_table_excl [OF lt]
      assms(3) by metis
  moreover have "m' = m" if "holds_mutex s' t m" "holds_mutex s' t m'"
    using that holds [OF assms(3)] holds [OF assms(4)] by auto
  moreover have "\<not> holds_mutex s' t m"
    if "t < length ps" "ended (ps ! t) \<or> (\<exists>x n p. ps ! t = FLock x n p)"
  proof -
    have "disciplined False (hs t) (ps ! t)" using inv that(1) by (auto simp: fg_inv_def)
    with that(2) have "hs t = None" by (auto simp: ended_def split: fg_prog.splits)
    then show ?thesis by (simp add: holds [OF assms(3)])
  qed
  ultimately show ?thesis by blast
qed

text \<open>A reachable configuration in which thread 0 is inside \<open>insert\<close>, for the witnesses.\<close>

lemma demo_reach:
  "\<exists>s ps. fg_reach (\<lambda>_. 0) (fg_start pad_evp fg_full [[InsertKey [0]], [FindKey [8]]]) (s, ps) \<and>
     map next_access ps = [Some (True, 0, 0), Some (False, 0, 0)]"
proof -
  from demo_race obtain s ps where
    run: "fg_exec (\<lambda>_. 0) (replicate 15 0 @ [1]) demo_conf = Some (s, ps)"
    and acc: "map next_access ps = [Some (True, 0, 0), Some (False, 0, 0)]" by metis
  show ?thesis
    by (rule exI [of _ s], rule exI [of _ ps], rule conjI, rule thread_exec_reach)
      (rule run [unfolded demo_conf_def], rule acc)
qed

lemma fg_lock_discipline_witness:
  "\<exists>s ps. fg_reach (\<lambda>_. 0) (fg_start pad_evp fg_full [[InsertKey [0]], [FindKey [8]]]) (s, ps) \<and>
     map next_access ps = [Some (True, 0, 0), Some (False, 0, 0)] \<and>
     (\<forall>u. rw_writer (fg_mutexes s ! 0) = Some 0 \<and> holds_mutex s u 0 \<longrightarrow> u = 0)"
proof -
  obtain s ps where r: "fg_reach (\<lambda>_. 0) (fg_start pad_evp fg_full [[InsertKey [0]], [FindKey [8]]]) (s, ps)"
    and acc: "map next_access ps = [Some (True, 0, 0), Some (False, 0, 0)]"
    using demo_reach by metis
  have "\<forall>u. rw_writer (fg_mutexes s ! 0) = Some 0 \<and> holds_mutex s u 0 \<longrightarrow> u = 0"
    using fg_lock_discipline [OF quiet_fg_full r, of 0 0] by (simp add: NUM_MUTEXES_def)
  with r acc show ?thesis by (intro exI [of _ s] exI [of _ ps] conjI)
qed

text \<open>
  C21. Progress and termination: no reachable configuration of such threads is a deadlock, and
  no schedule is longer than 104 actions per call, so under any scheduler every call returns.
\<close>

theorem fg_progress_and_termination:
  assumes "quiet s" "fg_exec rnd sched (fg_start evp s css) = Some (s', ps)"
  shows "length sched \<le> sum_list (map (\<lambda>cs. 104 * length cs) css) \<and>
    ((\<exists>t < length ps. \<not> ended (ps ! t)) \<longrightarrow> (\<exists>d. fg_step rnd (s', ps) d))"
proof -
  have "length sched \<le> sum_list (map (\<lambda>cs. 104 * length cs) css)"
    by (rule fg_exec_bound [OF assms(2) [unfolded fg_start_def]]) (simp_all add: acts_within_client)
  moreover have "\<exists>d. fg_step rnd (s', ps) d" if "t < length ps" "\<not> ended (ps ! t)" for t
    by (rule fg_start_reach_inv [OF assms(1) thread_exec_reach [OF assms(2)]])
      (rule fg_inv_progress [OF _ that])
  ultimately show ?thesis by blast
qed

lemma fg_progress_and_termination_witness:
  "\<exists>s ps. fg_exec (\<lambda>_. 0) (replicate 15 0 @ [1]) demo_conf = Some (s, ps) \<and>
     (\<exists>d. fg_step (\<lambda>_. 0) (s, ps) d)"
proof -
  from demo_race obtain s ps where
    run: "fg_exec (\<lambda>_. 0) (replicate 15 0 @ [1]) demo_conf = Some (s, ps)"
    and acc: "map next_access ps = [Some (True, 0, 0), Some (False, 0, 0)]" by metis
  from acc have "0 < length ps" "next_access (ps ! 0) = Some (True, 0, 0)" by auto
  then have "\<exists>t < length ps. \<not> ended (ps ! t)"
    by (intro exI [of _ 0]) (auto simp: ended_def split: fg_prog.splits)
  with fg_progress_and_termination [OF quiet_fg_full run [unfolded demo_conf_def]]
  have "\<exists>d. fg_step (\<lambda>_. 0) (s, ps) d" by metis
  with run show ?thesis by (intro exI [of _ s] exI [of _ ps] conjI)
qed

text \<open>
  Threads that only call \<open>find\<close> and \<open>remove\<close> never race: in no reachable configuration are
  two of them about to access the same slot with one of the accesses a write.
\<close>

lemma fg_no_race_without_insert:
  assumes "quiet s" "\<forall>cs \<in> set css. \<forall>c \<in> set cs. \<not> is_insert c"
    and "fg_reach rnd (fg_start evp s css) d"
  shows "\<not> data_race d"
proof -
  have "fg_inv True (\<lambda>_. None) (fg_start evp s css)"
    using assms(2) by (intro fg_inv_start [OF assms(1)]) simp
  from fg_inv_reach [OF assms(3) this] show ?thesis using fg_inv_no_race by blast
qed

lemma fg_no_race_without_insert_witness:
  "quiet fg_full \<and>
   \<not> data_race (fg_start pad_evp fg_full [[RemoveKey [8], FindKey [5]], [FindKey [8]]] :: bool list fg_conf)"
  using fg_no_race_without_insert [OF quiet_fg_full _ thread_reach_refl,
      of "[[RemoveKey [8], FindKey [5]], [FindKey [8]]]"] quiet_fg_full by simp

text \<open>
  C31. \<open>insert\<close> does race: its replacement phase swaps a slot of the full bucket after its lock
  guard has been released, and a \<open>find\<close> of another key reads that slot under the mutex the
  writer does not hold. Both accesses are enabled in one reachable configuration.
\<close>

theorem fg_insert_data_race:
  "\<exists>d. fg_reach (\<lambda>_. 0) (fg_start pad_evp fg_full [[InsertKey [0]], [FindKey [8]]]) d \<and> data_race d"
proof -
  obtain s ps where r: "fg_reach (\<lambda>_. 0) (fg_start pad_evp fg_full [[InsertKey [0]], [FindKey [8]]]) (s, ps)"
    and acc: "map next_access ps = [Some (True, 0, 0), Some (False, 0, 0)]"
    using demo_reach by metis
  from acc have "next_access (ps ! 0) = Some (True, 0, 0)" "next_access (ps ! 1) = Some (False, 0, 0)"
    "0 < length ps" "1 < length ps" by auto
  then have "data_race (s, ps)" unfolding data_race_def by (metis snd_conv zero_neq_one)
  with r show ?thesis by (intro exI [of _ "(s, ps)"] conjI)
qed

text \<open>
  C32. A key that is in the filter before, and is again after, is missed in between: while an
  \<open>insert\<close> of another key holds it as the evicted victim, \<open>find\<close> returns false.
\<close>

theorem fg_find_misses_evicted_key:
  "fst (fg_run (\<lambda>_. 0) 0 (fg_find pad_evp 2 [8]) fg_full) = Returned True \<and>
   (\<exists>s ps. fg_reach (\<lambda>_. 0) (fg_start pad_evp fg_full [[InsertKey [0]], [FindKey [8]]]) (s, ps) \<and>
      map result_of ps = [Some [True], Some [False]] \<and>
      fst (fg_run (\<lambda>_. 0) 0 (fg_find pad_evp 2 [8]) s) = Returned True)"
proof (rule conjI [OF demo_solo])
  obtain s ps where
    run: "fg_exec (\<lambda>_. 0) (replicate 16 0 @ replicate 12 1 @ replicate 4 0) demo_conf = Some (s, ps)"
    and res: "map result_of ps = [Some [True], Some [False]]"
      "fst (fg_run (\<lambda>_. 0) 0 (fg_find pad_evp 2 [8]) s) = Returned True"
    using demo_miss by metis
  from res thread_exec_reach [OF run [unfolded demo_conf_def]]
  show "\<exists>s ps. fg_reach (\<lambda>_. 0) (fg_start pad_evp fg_full [[InsertKey [0]], [FindKey [8]]]) (s, ps) \<and>
      map result_of ps = [Some [True], Some [False]] \<and>
      fst (fg_run (\<lambda>_. 0) 0 (fg_find pad_evp 2 [8]) s) = Returned True"
    by (intro exI [of _ s] exI [of _ ps] conjI)
qed

end
