(* ===== verification/Call_Log.thy ===== *)
theory Call_Log
  imports Seq_Filter
begin

text \<open>
  Logs of the calls of several threads. A log puts the calls of all threads into one order; with
  the answers it is a history of the sequential operations of \<open>Seq_Filter\<close>, and each thread finds
  its own calls in it. The lock-based filters are shown to have such logs for their runs.
\<close>

section \<open>Logs\<close>

text \<open>What a call does to the filter, as a relation.\<close>

primrec call_does :: "evp_digest \<Rightarrow> filter_call \<Rightarrow> seq_filter \<Rightarrow> bool \<Rightarrow> seq_filter \<Rightarrow> bool" where
  "call_does evp (InsertKey k) f r f' = seq_ins evp k f r f'"
| "call_does evp (FindKey k) f r f' = seq_fnd evp k f r f'"
| "call_does evp (RemoveKey k) f r f' = seq_del evp k f r f'"

text \<open>
  A log lists calls, each with its thread and its answer.
\<close>

type_synonym call_log = "(nat \<times> filter_call \<times> bool) list"

primrec as_call :: "filter_call \<Rightarrow> bool \<Rightarrow> bytes call" where
  "as_call (InsertKey k) r = Ins k r"
| "as_call (FindKey k) r = Fnd k r"
| "as_call (RemoveKey k) r = Del k r"

definition calls_of :: "call_log \<Rightarrow> bytes call list" where
  "calls_of hs = map (\<lambda>(t, c, r). as_call c r) hs"

abbreviation seq_history :: "evp_digest \<Rightarrow> seq_filter \<Rightarrow> call_log \<Rightarrow> seq_filter \<Rightarrow> bool" where
  "seq_history evp f hs f' \<equiv> history (seq_ins evp) (seq_fnd evp) (seq_del evp) f (calls_of hs) f'"

definition of_thread :: "nat \<Rightarrow> call_log \<Rightarrow> (filter_call \<times> bool) list" where
  "of_thread t hs = map snd (filter (\<lambda>e. fst e = t) hs)"

lemma of_thread_snoc [simp]:
  "of_thread t (hs @ [(u, c, r)]) = of_thread t hs @ (if u = t then [(c, r)] else [])"
  by (simp add: of_thread_def)

lemma calls_of_append [simp]: "calls_of (hs @ hs') = calls_of hs @ calls_of hs'"
  by (simp add: calls_of_def)

lemma history_append:
  "history ins fnd del s hs t \<Longrightarrow> history ins fnd del t hs' u \<Longrightarrow> history ins fnd del s (hs @ hs') u"
  by (induction rule: history.induct) (auto intro: history.intros)

lemma call_does_history: "call_does evp c f r f' \<Longrightarrow> seq_history evp f [(t, c, r)] f'"
  by (cases c) (auto simp: calls_of_def intro: history.intros)

lemma history_snoc:
  "seq_history evp f0 hs f \<Longrightarrow> call_does evp c f r f' \<Longrightarrow> seq_history evp f0 (hs @ [(t, c, r)]) f'"
  using history_append call_does_history by fastforce

lemma seq_ins_inv:
  assumes "seq_inv ts f" "seq_ins evp k f r f'"
  shows "seq_inv ts f'"
proof -
  from assms(2) obtain rnd where "seq_insert evp rnd k f = Inr (r, f')" by (auto simp: seq_ins_def)
  with seq_insert_inv [OF assms(1), of evp rnd k] show ?thesis by auto
qed

lemma seq_fnd_inv: "seq_inv ts f \<Longrightarrow> seq_fnd evp k f r f' \<Longrightarrow> seq_inv ts f'"
  using seq_find_result [of ts f evp k] by (simp add: seq_fnd_def)

lemma seq_del_inv: "seq_inv ts f \<Longrightarrow> seq_del evp k f r f' \<Longrightarrow> seq_inv ts f'"
  by (auto simp: seq_del_def seq_remove_def seq_inv_def Let_def split: option.splits)

lemma seq_history_inv:
  assumes "seq_history evp f hs f'" "seq_inv ts f"
  shows "seq_inv ts f'"
  using assms
proof (induction rule: history.induct)
  case (history_Ins k s r t hs u)
  then show ?case using seq_ins_inv by blast
next
  case (history_Fnd k s r t hs u)
  then show ?case using seq_fnd_inv by blast
next
  case (history_Del k s r t hs u)
  then show ?case using seq_del_inv by blast
qed simp

section \<open>What a log says\<close>

lemma of_thread_nth:
  "i < length (of_thread t hs) \<Longrightarrow>
    \<exists>hs1 hs2. hs = hs1 @ (t, of_thread t hs ! i) # hs2 \<and> of_thread t hs1 = take i (of_thread t hs)"
proof (induction hs arbitrary: i)
  case (Cons e hs)
  show ?case
  proof (cases "fst e = t")
    case False
    with Cons.IH [of i] Cons.prems obtain hs1 hs2 where
      "hs = hs1 @ (t, of_thread t hs ! i) # hs2" "of_thread t hs1 = take i (of_thread t hs)"
      by (auto simp: of_thread_def)
    with False show ?thesis by (intro exI [of _ "e # hs1"] exI [of _ hs2]) (simp add: of_thread_def)
  next
    case e: True
    show ?thesis
    proof (cases i)
      case 0
      with e show ?thesis by (intro exI [of _ "[]"] exI [of _ hs]) (auto simp: of_thread_def)
    next
      case (Suc k)
      with Cons.IH [of k] Cons.prems e obtain hs1 hs2 where
        "hs = hs1 @ (t, of_thread t hs ! k) # hs2" "of_thread t hs1 = take k (of_thread t hs)"
        by (auto simp: of_thread_def)
      with e Suc show ?thesis by (intro exI [of _ "e # hs1"] exI [of _ hs2]) (simp add: of_thread_def)
    qed
  qed
qed (simp add: of_thread_def)

lemma of_thread_mem: "(t, e) \<in> set hs \<longleftrightarrow> e \<in> set (of_thread t hs)"
  by (force simp: of_thread_def)

lemma history_appendE:
  assumes "history ins fnd del s (xs @ ys) u"
  obtains m where "history ins fnd del s xs m" "history ins fnd del m ys u"
proof -
  have "\<exists>m. history ins fnd del s xs m \<and> history ins fnd del m ys u"
    using assms
  proof (induction xs arbitrary: s)
    case (Cons c xs)
    from Cons.prems show ?case by (cases c) (auto elim!: history_InsE history_FndE history_DelE
          dest!: Cons.IH intro: history.intros)
  qed (auto intro: history.intros)
  then show thesis using that by blast
qed

lemma in_inserted: "k \<in># inserted hs \<longleftrightarrow> Ins k True \<in> set hs"
  by (induction hs rule: inserted.induct) auto

lemma in_removed: "k \<in># removed hs \<longleftrightarrow> Del k True \<in> set hs"
  by (induction hs rule: removed.induct) auto

lemma inserted_append [simp]: "inserted (hs @ hs') = inserted hs + inserted hs'"
  by (induction hs rule: inserted.induct) auto

lemma removed_append [simp]: "removed (hs @ hs') = removed hs + removed hs'"
  by (induction hs rule: removed.induct) auto

lemma as_call_eq:
  "Ins k r = as_call c r' \<longleftrightarrow> c = InsertKey k \<and> r' = r" "Del k r = as_call c r' \<longleftrightarrow> c = RemoveKey k \<and> r' = r"
  by (cases c; auto)+

lemma in_calls_of:
  "Ins k r \<in> set (calls_of hs) \<longleftrightarrow> (\<exists>t. (t, InsertKey k, r) \<in> set hs)"
  "Del k r \<in> set (calls_of hs) \<longleftrightarrow> (\<exists>t. (t, RemoveKey k, r) \<in> set hs)"
  unfolding calls_of_def by (induction hs) (auto simp: as_call_eq)

text \<open>The answer of a query in a log without failed insertions and without removals of its item.\<close>

lemma log_query:
  assumes "seq_history evp f (hs1 @ (t, FindKey k, r) # hs2) f'" "seq_ready evp ts f"
    and "\<And>u k. (u, InsertKey k, False) \<notin> set hs1"
    and "\<And>u k'. (u, RemoveKey k', True) \<in> set hs1 \<Longrightarrow> key_item evp ts k \<noteq> key_item evp ts k'"
  shows "r \<longleftrightarrow> key_item evp ts k \<in># seq_items f \<or>
    (\<exists>u k'. (u, InsertKey k', True) \<in> set hs1 \<and> key_item evp ts k = key_item evp ts k')"
proof -
  from assms(1) obtain m where m: "seq_history evp f hs1 m"
    "seq_history evp m ((t, FindKey k, r) # hs2) f'"
    by (auto elim: history_appendE)
  from m(2) obtain m' where "seq_fnd evp k m r m'"
    by (auto simp: calls_of_def elim: history_FndE)
  from seq.fnd_result [OF seq.history_inv [OF m(1) assms(2)] this]
  have r: "r \<longleftrightarrow> key_item evp ts k \<in># seq_items m" .
  have "no_failed_insert (calls_of hs1)" using assms(3) by (simp add: no_failed_insert_def in_calls_of)
  from seq.history_items [OF m(1) assms(2) this]
  have "set_mset (seq_items m) \<union> key_item evp ts ` set_mset (removed (calls_of hs1)) =
      set_mset (seq_items f) \<union> key_item evp ts ` set_mset (inserted (calls_of hs1))"
    by (metis set_image_mset set_mset_union)
  then have "key_item evp ts k \<in># seq_items m \<or> key_item evp ts k \<in> key_item evp ts ` {k'. Del k' True \<in> set (calls_of hs1)} \<longleftrightarrow>
      key_item evp ts k \<in># seq_items f \<or> key_item evp ts k \<in> key_item evp ts ` {k'. Ins k' True \<in> set (calls_of hs1)}"
    unfolding set_eq_iff Un_iff image_iff Bex_def in_inserted in_removed mem_Collect_eq by (rule allE)
  moreover have "key_item evp ts k \<notin> key_item evp ts ` {k'. Del k' True \<in> set (calls_of hs1)}"
    using assms(4) by (auto simp: in_calls_of)
  moreover have "key_item evp ts k \<in> key_item evp ts ` {k'. Ins k' True \<in> set (calls_of hs1)} \<longleftrightarrow>
      (\<exists>u k'. (u, InsertKey k', True) \<in> set hs1 \<and> key_item evp ts k = key_item evp ts k')"
    unfolding in_calls_of by blast
  ultimately show ?thesis using r by blast
qed

end
