(* ===== verification/Seq_Conc.thy ===== *)
theory Seq_Conc
  imports Fine_Grained_Conc Call_Log
begin

text \<open>
  Threads on one \<open>SequentialFilter\<close>. Here its operations are programs of single actions, those of
  \<open>Fine_Grained\<close>, which lock and unlock the only mutex, \<open>mtx\<close>. The functions of \<open>Seq_Filter\<close> are what
  a critical section amounts to, and every run of the threads is a history of such calls in the
  order in which they took the mutex.
\<close>

section \<open>The operations as programs\<close>

primrec sq_kick :: "nat \<Rightarrow> u32 \<Rightarrow> u32 \<Rightarrow> bytes \<Rightarrow> bool fg_prog" where
  "sq_kick 0 ts replace_hash fingerprint = FUnlock True 0 (FRet False)"
| "sq_kick (Suc n) ts replace_hash fingerprint =
     FRand (\<lambda>r. let bucket_idx = r mod NUM_ITEMS_PER_ENTRY in
       FRead replace_hash bucket_idx (\<lambda>evicted.
         FWrite replace_hash bucket_idx fingerprint
           (let replace_hash = fg_get_next_hash_index ts replace_hash evicted
            in fg_scan [0..<NUM_ITEMS_PER_ENTRY] (\<lambda>s. s = []) replace_hash
                 (\<lambda>i. FWrite replace_hash i evicted (FUnlock True 0 (FRet True)))
                 (sq_kick n ts replace_hash evicted))))"

definition sq_insert :: "evp_digest \<Rightarrow> u32 \<Rightarrow> bytes \<Rightarrow> bool fg_prog" where
  "sq_insert evp ts key =
     FLock True 0
      (let fingerprint = md5_fingerprint evp key in
       if ts = 0 then FDivByZero else
       let hash1 = jenkins_hash key mod ts;
           hash2 = fg_get_next_hash_index ts hash1 fingerprint
       in fg_scan [0..<NUM_ITEMS_PER_ENTRY] (\<lambda>s. s = []) hash1
            (\<lambda>i. FWrite hash1 i fingerprint (FUnlock True 0 (FRet True)))
            (fg_scan [0..<NUM_ITEMS_PER_ENTRY] (\<lambda>s. s = []) hash2
               (\<lambda>i. FWrite hash2 i fingerprint (FUnlock True 0 (FRet True)))
               (FRand (\<lambda>r. let flag = r mod 2;
                               replace_hash = (if flag = 0 then hash1 else hash2)
                           in sq_kick NUM_MAX_KICKS ts replace_hash fingerprint))))"

definition sq_find :: "evp_digest \<Rightarrow> u32 \<Rightarrow> bytes \<Rightarrow> bool fg_prog" where
  "sq_find evp ts key =
     FLock True 0
      (let fingerprint = md5_fingerprint evp key in
       if ts = 0 then FDivByZero else
       let hash1 = jenkins_hash key mod ts;
           hash2 = fg_get_next_hash_index ts hash1 fingerprint
       in fg_scan [0..<NUM_ITEMS_PER_ENTRY] (\<lambda>s. s = fingerprint) hash1
            (\<lambda>i. FUnlock True 0 (FRet True))
            (fg_scan [0..<NUM_ITEMS_PER_ENTRY] (\<lambda>s. s = fingerprint) hash2
               (\<lambda>i. FUnlock True 0 (FRet True))
               (FUnlock True 0 (FRet False))))"

definition sq_remove :: "evp_digest \<Rightarrow> u32 \<Rightarrow> bytes \<Rightarrow> bool fg_prog" where
  "sq_remove evp ts key =
     FLock True 0
      (let fingerprint = md5_fingerprint evp key in
       if ts = 0 then FDivByZero else
       let hash1 = jenkins_hash key mod ts;
           hash2 = fg_get_next_hash_index ts hash1 fingerprint
       in fg_scan [0..<NUM_ITEMS_PER_ENTRY] (\<lambda>s. length s \<noteq> 0 \<and> s = fingerprint) hash1
            (\<lambda>i. FWrite hash1 i [] (FUnlock True 0 (FRet True)))
            (fg_scan [0..<NUM_ITEMS_PER_ENTRY] (\<lambda>s. length s \<noteq> 0 \<and> s = fingerprint) hash2
               (\<lambda>i. FWrite hash2 i [] (FUnlock True 0 (FRet True)))
               (FUnlock True 0 (FRet False))))"

primrec sq_op :: "evp_digest \<Rightarrow> u32 \<Rightarrow> filter_call \<Rightarrow> bool fg_prog" where
  "sq_op evp ts (InsertKey k) = sq_insert evp ts k"
| "sq_op evp ts (FindKey k) = sq_find evp ts k"
| "sq_op evp ts (RemoveKey k) = sq_remove evp ts k"

abbreviation sq_client :: "evp_digest \<Rightarrow> u32 \<Rightarrow> bool list \<Rightarrow> filter_call list \<Rightarrow> bool list fg_prog" where
  "sq_client evp ts \<equiv> fg_calls (sq_op evp ts)"

section \<open>Actions\<close>

text \<open>The filter and the number of calls of \<open>rand\<close> that the process has made.\<close>

type_synonym sq_state = "seq_filter \<times> nat"

fun sq_act ::
  "(nat \<Rightarrow> nat) \<Rightarrow> nat \<Rightarrow> 'a fg_prog \<Rightarrow> sq_state \<Rightarrow> ('a fg_prog \<times> sq_state) option" where
  "sq_act rnd t (FRet a) (f, j) = None"
| "sq_act rnd t FDivByZero (f, j) = None"
| "sq_act rnd t (FLock x m p) (f, j) = (if seq_mtx f then None else Some (p, f\<lparr>seq_mtx := True\<rparr>, j))"
| "sq_act rnd t (FUnlock x m p) (f, j) = Some (p, seq_unlock f, j)"
| "sq_act rnd t (FRead b i k) (f, j) = Some (k (cell (seq_hash_table f) (unat b) i), f, j)"
| "sq_act rnd t (FWrite b i v p) (f, j) = Some (p, seq_put b i v f, j)"
| "sq_act rnd t (FRand k) (f, j) = Some (k (rnd j), f, Suc j)"

definition sq_start ::
  "evp_digest \<Rightarrow> seq_filter \<Rightarrow> nat \<Rightarrow> filter_call list list \<Rightarrow> sq_state \<times> bool list fg_prog list" where
  "sq_start evp f j css = ((f, j), map (sq_client evp (seq_table_size f) []) css)"

section \<open>Critical sections\<close>

text \<open>The rest of a critical section in one go, up to and with the \<open>unlock\<close>.\<close>

primrec sq_section ::
  "(nat \<Rightarrow> nat) \<Rightarrow> 'a fg_prog \<Rightarrow> seq_filter \<Rightarrow> nat \<Rightarrow> ('a fg_prog \<times> sq_state) option" where
  "sq_section rnd (FRet a) f j = None"
| "sq_section rnd FDivByZero f j = None"
| "sq_section rnd (FLock x m p) f j = None"
| "sq_section rnd (FUnlock x m p) f j = Some (p, seq_unlock f, j)"
| "sq_section rnd (FRead b i k) f j = sq_section rnd (k (cell (seq_hash_table f) (unat b) i)) f j"
| "sq_section rnd (FWrite b i v p) f j = sq_section rnd p (seq_put b i v f) j"
| "sq_section rnd (FRand k) f j = sq_section rnd (k (rnd j)) f (Suc j)"

lemma sq_section_scan:
  "sq_section rnd (fg_scan is P b hit miss) f j =
     (case find (\<lambda>i. P (cell (seq_hash_table f) (unat b) i)) is of
        Some i \<Rightarrow> sq_section rnd (hit i) f j | None \<Rightarrow> sq_section rnd miss f j)"
  by (induction "is") auto

lemmas sq_section_bucket =
  sq_section_scan [of _ "[0..<NUM_ITEMS_PER_ENTRY]", folded first_idx_def]

lemma sq_section_bind:
  "sq_section rnd p f j = Some (q, s) \<Longrightarrow> sq_section rnd (fg_bind p g) f j = Some (fg_bind q g, s)"
  by (induction p arbitrary: f j) auto

lemma seq_mtx_put [simp]: "seq_mtx (seq_put b i v f) = seq_mtx f"
  by (simp add: seq_put_def)

text \<open>The actions of a critical section lead to its end.\<close>

lemma sq_section_act:
  assumes "sq_section rnd p f j = Some (q, s)" "seq_mtx f"
  obtains p' f' j' where "sq_act rnd t p (f, j) = Some (p', f', j')"
    "(seq_mtx f' \<and> sq_section rnd p' f' j' = Some (q, s)) \<or> (p' = q \<and> (f', j') = s \<and> \<not> seq_mtx f')"
  using assms by (cases p) auto

section \<open>A critical section is a call of the sequential operation\<close>

lemma sq_kick_section:
  assumes "seq_table_size f = ts" "\<And>i. rnd' (l + i) = rnd (j + i)"
  shows "\<exists>j'. sq_section rnd (sq_kick n ts b fp) f j =
    Some (FRet (fst (seq_kick n rnd' l b fp f)), snd (seq_kick n rnd' l b fp f), j')"
  using assms
proof (induction n arbitrary: f j l b fp)
  case (Suc n)
  define k where "k = rnd' l mod NUM_ITEMS_PER_ENTRY"
  define ev where "ev = cell (seq_hash_table f) (unat b) k"
  define f1 where "f1 = seq_put b k fp f"
  define b1 where "b1 = get_next_hash_index ts b ev"
  have r: "rnd j = rnd' l" using Suc.prems(2) [of 0] by simp
  have f1: "seq_table_size f1 = ts" using Suc.prems(1) by (simp add: f1_def)
  have R: "rnd' (Suc l + i) = rnd (Suc j + i)" for i using Suc.prems(2) [of "Suc i"] by simp
  have run: "sq_section rnd (sq_kick (Suc n) ts b fp) f j =
      (case empty_slot (seq_hash_table f1) b1 of
         Some i \<Rightarrow> Some (FRet True, seq_unlock (seq_put b1 i ev f1), Suc j)
       | None \<Rightarrow> sq_section rnd (sq_kick n ts b1 ev) f1 (Suc j))"
    unfolding f1_def
    by (simp add: r k_def [symmetric] ev_def [symmetric] b1_def [symmetric] Let_def
        sq_section_bucket empty_slot_def del: first_idx_None split: option.split)
  have kick: "seq_kick (Suc n) rnd' l b fp f =
      (case empty_slot (seq_hash_table f1) b1 of
         Some i \<Rightarrow> (True, seq_unlock (seq_put b1 i ev f1))
       | None \<Rightarrow> seq_kick n rnd' (Suc l) b1 ev f1)"
    using Suc.prems(1) by (simp add: Let_def k_def f1_def b1_def ev_def cong: option.case_cong)
  show ?case
    unfolding run kick using Suc.IH [OF f1 R] by (simp split: option.split)
qed simp

definition sq_agrees ::
  "(nat \<Rightarrow> nat) \<Rightarrow> bool fg_prog \<Rightarrow> seq_filter \<Rightarrow> nat \<Rightarrow> seq_error + bool \<times> seq_filter \<Rightarrow> bool" where
  "sq_agrees rnd p f j res \<longleftrightarrow> (\<exists>q. p = FLock True 0 q \<and> (\<exists>r f' j'. res = Inr (r, f') \<and>
     sq_section rnd q (f\<lparr>seq_mtx := True\<rparr>) j = Some (FRet r, f', j')))"

lemma sq_insert_agrees:
  assumes "\<not> seq_mtx f" "seq_table_size f \<noteq> 0"
  shows "sq_agrees rnd (sq_insert evp (seq_table_size f) key) f j (seq_insert evp (\<lambda>i. rnd (j + i)) key f)"
proof -
  let ?g = "f\<lparr>seq_mtx := True\<rparr>" and ?R = "\<lambda>i. rnd (j + i)"
  have kick: "\<exists>j'. sq_section rnd (sq_kick NUM_MAX_KICKS (seq_table_size f) b fp) ?g (Suc j) =
      Some (FRet (fst (seq_kick NUM_MAX_KICKS ?R (Suc 0) b fp ?g)), snd (seq_kick NUM_MAX_KICKS ?R (Suc 0) b fp ?g), j')"
    for b fp by (rule sq_kick_section) simp_all
  then have "\<exists>r f'. seq_kick NUM_MAX_KICKS ?R (Suc 0) b fp ?g = (r, f') \<and>
      (\<exists>j'. sq_section rnd (sq_kick NUM_MAX_KICKS (seq_table_size f) b fp) ?g (Suc j) = Some (FRet r, f', j'))"
    for b fp by (metis prod.collapse)
  with assms show ?thesis
    unfolding sq_agrees_def sq_insert_def seq_insert_def
    by (simp add: Let_def sq_section_bucket empty_slot_def ex_bool_eq del: first_idx_None split: option.split)
qed

lemma sq_find_agrees:
  assumes "\<not> seq_mtx f" "seq_table_size f \<noteq> 0"
  shows "sq_agrees rnd (sq_find evp (seq_table_size f) key) f j (seq_find evp key f)"
  using assms unfolding sq_agrees_def sq_find_def seq_find_def
  by (simp add: Let_def sq_section_bucket slot_of_def ex_bool_eq del: first_idx_None split: option.split)

lemma sq_remove_agrees:
  assumes "\<not> seq_mtx f" "seq_table_size f \<noteq> 0"
  shows "sq_agrees rnd (sq_remove evp (seq_table_size f) key) f j (seq_remove evp key f)"
  using assms unfolding sq_agrees_def sq_remove_def seq_remove_def nonempty_slot_of_def
  by (simp add: Let_def sq_section_bucket ex_bool_eq del: first_idx_None split: option.split)

lemma sq_op_section:
  assumes "\<not> seq_mtx f" "seq_table_size f \<noteq> 0"
  obtains q r f' j' where "sq_op evp (seq_table_size f) c = FLock True 0 q"
    "sq_section rnd q (f\<lparr>seq_mtx := True\<rparr>) j = Some (FRet r, f', j')" "call_does evp c f r f'"
proof (cases c)
  case (InsertKey k)
  with sq_insert_agrees [OF assms, of rnd evp k j] that show thesis
    by (fastforce simp: sq_agrees_def seq_ins_def)
next
  case (FindKey k)
  with sq_find_agrees [OF assms, of rnd evp k j] that show thesis
    by (auto simp: sq_agrees_def seq_fnd_def)
next
  case (RemoveKey k)
  with sq_remove_agrees [OF assms, of rnd evp k j] that show thesis
    by (auto simp: sq_agrees_def seq_del_def)
qed

section \<open>The history of a run\<close>

text \<open>The program of a thread that has made exactly its calls in the log.\<close>

definition sq_between :: "evp_digest \<Rightarrow> u32 \<Rightarrow> filter_call list list \<Rightarrow> call_log \<Rightarrow> nat \<Rightarrow> bool list fg_prog" where
  "sq_between evp ts css hs t =
     sq_client evp ts (map snd (of_thread t hs)) (drop (length (of_thread t hs)) (css ! t))"

text \<open>
  The log \<open>hs\<close> explains the configuration \<open>((f, j), ps)\<close> of a run from \<open>f0\<close>: it is a history that leads
  from \<open>f0\<close> to some \<open>f'\<close>; every thread has made the calls the log says, in its own order, and got
  these answers; when nobody holds the mutex (\<open>h\<close> is \<open>None\<close>), \<open>f\<close> is \<open>f'\<close>; otherwise one thread is on
  its way to \<open>f'\<close> inside the last call of the log.
\<close>

definition sq_at ::
  "evp_digest \<Rightarrow> (nat \<Rightarrow> nat) \<Rightarrow> filter_call list list \<Rightarrow> seq_filter \<Rightarrow> call_log \<Rightarrow> nat option \<Rightarrow> seq_filter \<Rightarrow>
   seq_filter \<Rightarrow> nat \<Rightarrow> bool list fg_prog list \<Rightarrow> bool" where
  "sq_at evp rnd css f0 hs h f' f j ps \<longleftrightarrow>
     length ps = length css \<and> (\<forall>e \<in> set hs. fst e < length css) \<and>
     (\<forall>t < length css. map fst (of_thread t hs) = take (length (of_thread t hs)) (css ! t)) \<and>
     seq_history evp f0 hs f' \<and>
     (\<forall>t < length css. h \<noteq> Some t \<longrightarrow> ps ! t = sq_between evp (seq_table_size f0) css hs t) \<and>
     (case h of
        None \<Rightarrow> f = f'
      | Some t \<Rightarrow> t < length css \<and> seq_mtx f \<and> hs \<noteq> [] \<and> fst (last hs) = t \<and>
          (\<exists>j'. sq_section rnd (ps ! t) f j = Some (sq_between evp (seq_table_size f0) css hs t, f', j')))"

definition sq_explains ::
  "evp_digest \<Rightarrow> (nat \<Rightarrow> nat) \<Rightarrow> filter_call list list \<Rightarrow> seq_filter \<Rightarrow> call_log \<Rightarrow>
   sq_state \<times> bool list fg_prog list \<Rightarrow> bool" where
  "sq_explains evp rnd css f0 hs c \<longleftrightarrow>
     (\<exists>h f'. sq_at evp rnd css f0 hs h f' (fst (fst c)) (snd (fst c)) (snd c))"

lemma sq_between_other [simp]: "u \<noteq> t \<Longrightarrow> sq_between evp ts css (hs @ [(t, c, r)]) u = sq_between evp ts css hs u"
  by (simp add: sq_between_def)

lemma sq_between_cases:
  assumes "\<not> seq_mtx f" "seq_inv ts f"
  obtains (Ended) "sq_between evp ts css hs t = FRet (map snd (of_thread t hs))"
      "css ! t = take (length (of_thread t hs)) (css ! t)"
  | (Next) q c r f' j' where "sq_between evp ts css hs t = FLock True 0 q" "call_does evp c f r f'"
      "sq_section rnd q (f\<lparr>seq_mtx := True\<rparr>) j = Some (sq_between evp ts css (hs @ [(t, c, r)]) t, f', j')"
      "take (Suc (length (of_thread t hs))) (css ! t) = take (length (of_thread t hs)) (css ! t) @ [c]"
proof (cases "drop (length (of_thread t hs)) (css ! t)")
  case Nil
  then show thesis by (intro Ended) (simp_all add: sq_between_def)
next
  case (Cons c cs)
  let ?n = "length (of_thread t hs)"
  have ts: "seq_table_size f = ts" "ts \<noteq> 0" using assms(2) by (auto simp: seq_inv_def)
  obtain q r f' j' where q: "sq_op evp ts c = FLock True 0 q" "call_does evp c f r f'"
    "sq_section rnd q (f\<lparr>seq_mtx := True\<rparr>) j = Some (FRet r, f', j')"
    using sq_op_section [OF assms(1), of evp c rnd j thesis] ts by auto
  let ?k = "\<lambda>r. sq_client evp ts (map snd (of_thread t hs) @ [r]) cs"
  have n: "?n < length (css ! t)" "css ! t ! ?n = c" "drop (Suc ?n) (css ! t) = cs"
    using Cons by (metis drop_all leI list.distinct(1), metis nth_via_drop, metis drop_Suc list.sel(3) tl_drop)
  have "sq_between evp ts css hs t = FLock True 0 (fg_bind q ?k)"
    using Cons q(1) by (simp add: sq_between_def)
  moreover have "sq_section rnd (fg_bind q ?k) (f\<lparr>seq_mtx := True\<rparr>) j =
      Some (sq_between evp ts css (hs @ [(t, c, r)]) t, f', j')"
    using sq_section_bind [OF q(3), of ?k] n(3) by (simp add: sq_between_def)
  ultimately show thesis
    using q(2) n(1,2) by (intro Next) (auto simp: take_Suc_conv_app_nth)
qed

lemma sq_at_inv:
  assumes "sq_at evp rnd css f0 hs h f' f j ps" "seq_inv ts f0"
  shows "seq_inv ts f'" "\<not> seq_mtx f'" "seq_table_size f0 = ts"
  using assms seq_history_inv [of evp f0 hs f' ts] by (auto simp: sq_at_def seq_inv_def)

lemma sq_step_free:
  assumes inv: "seq_inv ts f0" and at: "sq_at evp rnd css f0 hs None f' f j ps"
    and t: "t < length ps" and act: "sq_act rnd t (ps ! t) (f, j) = Some (p, f1, j1)"
  obtains c r f2 where "sq_at evp rnd css f0 (hs @ [(t, c, r)]) (Some t) f2 f1 j1 (ps[t := p])"
proof -
  note inv' = sq_at_inv [OF at inv]
  have A: "f = f'" "length ps = length css" "ps ! t = sq_between evp ts css hs t"
    using at t inv'(3) by (auto simp: sq_at_def)
  from inv'(2,1) show thesis
  proof (cases rule: sq_between_cases [where evp = evp and css = css and hs = hs and t = t and rnd = rnd and j = j])
    case Ended
    with act A show thesis by simp
  next
    case (Next q c r f2 j2)
    with act A inv'(2) have p: "p = q" "f1 = f'\<lparr>seq_mtx := True\<rparr>" "j1 = j" by auto
    have "seq_history evp f0 (hs @ [(t, c, r)]) f2"
      by (rule history_snoc [OF _ Next(2)]) (use at in \<open>simp add: sq_at_def\<close>)
    with at t A(2) Next(3,4) inv'(3) p show thesis
      by (intro that [of c r f2]) (auto simp: sq_at_def nth_list_update)
  qed
qed

lemma sq_step_held:
  assumes inv: "seq_inv ts f0" and at: "sq_at evp rnd css f0 hs (Some u) f' f j ps"
    and t: "t < length ps" and act: "sq_act rnd t (ps ! t) (f, j) = Some (p, f1, j1)"
  obtains h where "sq_at evp rnd css f0 hs h f' f1 j1 (ps[t := p])"
proof -
  note inv' = sq_at_inv [OF at inv]
  have len: "length ps = length css" and u: "u < length css" "seq_mtx f"
    and idle: "t \<noteq> u \<Longrightarrow> ps ! t = sq_between evp ts css hs t"
    using at t inv'(3) by (auto simp: sq_at_def)
  from at obtain j' where sec: "sq_section rnd (ps ! u) f j = Some (sq_between evp (seq_table_size f0) css hs u, f', j')"
    by (auto simp: sq_at_def)
  have "t = u"
  proof (rule ccontr)
    assume "t \<noteq> u"
    from inv'(2,1) show False
      by (cases rule: sq_between_cases [where evp = evp and css = css and hs = hs and t = t and rnd = rnd and j = j])
        (use act u(2) idle [OF \<open>t \<noteq> u\<close>] in auto)
  qed
  with act have "sq_act rnd t (ps ! u) (f, j) = Some (p, f1, j1)" by simp
  then consider "seq_mtx f1" "sq_section rnd p f1 j1 = Some (sq_between evp (seq_table_size f0) css hs u, f', j')"
    | "p = sq_between evp (seq_table_size f0) css hs u" "f1 = f'"
    using sq_section_act [OF sec u(2), of t] by (metis option.inject prod.inject)
  then show thesis
  proof cases
    case 1
    with at t len u \<open>t = u\<close> show thesis
      by (intro that [of "Some u"]) (auto simp: sq_at_def nth_list_update)
  next
    case 2
    with at t len u \<open>t = u\<close> show thesis
      by (intro that [of None]) (auto simp: sq_at_def nth_list_update)
  qed
qed

lemma sq_explains_exec:
  assumes "seq_inv ts f0" "sq_explains evp rnd css f0 hs c" "thread_exec (sq_act rnd) sched c = Some d"
  shows "\<exists>hs'. sq_explains evp rnd css f0 (hs @ hs') d"
  using assms(2,3)
proof (induction sched arbitrary: hs c)
  case Nil
  then show ?case by (intro exI [of _ "[]"]) simp
next
  case (Cons t sched)
  obtain f j ps where c: "c = ((f, j), ps)" by (metis surj_pair)
  from Cons.prems(2) obtain p f1 j1 where act: "t < length ps" "sq_act rnd t (ps ! t) (f, j) = Some (p, f1, j1)"
    and rest: "thread_exec (sq_act rnd) sched ((f1, j1), ps[t := p]) = Some d"
    by (auto simp: c split: if_splits option.splits)
  from Cons.prems(1) obtain h f' where at: "sq_at evp rnd css f0 hs h f' f j ps"
    by (auto simp: sq_explains_def c)
  obtain hs1 where "sq_explains evp rnd css f0 (hs @ hs1) ((f1, j1), ps[t := p])"
  proof (cases h)
    case None
    obtain e r f2 where "sq_at evp rnd css f0 (hs @ [(t, e, r)]) (Some t) f2 f1 j1 (ps[t := p])"
      by (rule sq_step_free [OF assms(1) at [unfolded None] act])
    then show ?thesis by (intro that) (auto simp: sq_explains_def)
  next
    case (Some u)
    obtain h' where "sq_at evp rnd css f0 hs h' f' f1 j1 (ps[t := p])"
      by (rule sq_step_held [OF assms(1) at [unfolded Some] act])
    then show ?thesis by (intro that [of "[]"]) (auto simp: sq_explains_def)
  qed
  from Cons.IH [OF this rest] show ?case by auto
qed

lemma sq_explains_start: "seq_inv ts f \<Longrightarrow> sq_explains evp rnd css f [] (sq_start evp f j css)"
  unfolding sq_explains_def sq_at_def sq_start_def
  by (intro exI [of _ None] exI [of _ f])
    (auto simp: of_thread_def calls_of_def sq_between_def intro: history.intros)

lemma sq_explains_ended:
  assumes "sq_explains evp rnd css f0 hs ((f, j), ps)" "seq_inv ts f0"
    and "t < length css" "ps ! t = FRet rs"
  shows "of_thread t hs = zip (css ! t) rs" "length rs = length (css ! t)"
proof -
  obtain h f' where at: "sq_at evp rnd css f0 hs h f' f j ps"
    using assms(1) by (auto simp: sq_explains_def)
  note inv' = sq_at_inv [OF at assms(2)]
  have calls: "map fst (of_thread t hs) = take (length (of_thread t hs)) (css ! t)"
    using at assms(3) by (simp add: sq_at_def)
  have idle: "h \<noteq> Some t" using at assms(4) by (auto simp: sq_at_def)
  with at assms(3,4) inv'(3) have prog: "sq_between evp ts css hs t = FRet rs" by (simp add: sq_at_def)
  from inv'(2,1) have "rs = map snd (of_thread t hs) \<and> css ! t = map fst (of_thread t hs)"
    by (cases rule: sq_between_cases [where evp = evp and css = css and hs = hs and t = t]) (use prog calls in auto)
  then show "of_thread t hs = zip (css ! t) rs" "length rs = length (css ! t)"
    by (simp_all add: zip_map_fst_snd)
qed

text \<open>Some thread can act until all have returned.\<close>

lemma sq_explains_acts:
  assumes "sq_explains evp rnd css f0 hs ((f, j), ps)" "seq_inv ts f0"
    and "t < length ps" "\<nexists>rs. ps ! t = FRet rs"
  shows "\<exists>u < length ps. \<exists>d. sq_act rnd u (ps ! u) (f, j) = Some d"
proof -
  obtain h f' where at: "sq_at evp rnd css f0 hs h f' f j ps"
    using assms(1) by (auto simp: sq_explains_def)
  note inv' = sq_at_inv [OF at assms(2)]
  show ?thesis
  proof (cases h)
    case None
    with at assms(3) inv'(3) have prog: "f = f'" "ps ! t = sq_between evp ts css hs t" by (auto simp: sq_at_def)
    from inv'(2,1) have "\<exists>d. sq_act rnd t (ps ! t) (f, j) = Some d"
      by (cases rule: sq_between_cases [where evp = evp and css = css and hs = hs and t = t])
        (use assms(4) prog inv'(2) in auto)
    with assms(3) show ?thesis by blast
  next
    case (Some u)
    with at obtain j' where "u < length ps" "seq_mtx f"
      "sq_section rnd (ps ! u) f j = Some (sq_between evp (seq_table_size f0) css hs u, f', j')"
      by (auto simp: sq_at_def)
    then show ?thesis using sq_section_act [of rnd "ps ! u" f j _ _ u] by metis
  qed
qed

lemma sq_explains_final:
  assumes "sq_explains evp rnd css f0 hs ((f, j), ps)" "\<forall>t < length css. \<exists>rs. ps ! t = FRet rs"
  shows "seq_history evp f0 hs f"
proof -
  obtain h f' where at: "sq_at evp rnd css f0 hs h f' f j ps"
    using assms(1) by (auto simp: sq_explains_def)
  have "h = None"
  proof (rule ccontr)
    assume "h \<noteq> None"
    with at obtain u where "u < length css" "sq_section rnd (ps ! u) f j \<noteq> None"
      by (auto simp: sq_at_def split: option.splits)
    with assms(2) show False by auto
  qed
  with at show ?thesis by (simp add: sq_at_def)
qed

section \<open>Bounds\<close>

lemma sq_act_within:
  "sq_act rnd t p s = Some (q, s') \<Longrightarrow> acts_within p n \<Longrightarrow> 0 < n \<and> acts_within q (n - 1)"
  by (cases s; cases p) (auto split: if_splits)

lemma acts_within_sq_kick: "acts_within (sq_kick n ts b fp) (7 * n + 2)"
  by (induction n arbitrary: b fp) (auto simp: Let_def intro!: acts_within_bucket)

lemma acts_within_sq_op: "acts_within (sq_op evp ts c) 82"
  by (cases c) (auto simp: sq_insert_def sq_find_def sq_remove_def Let_def NUM_MAX_KICKS_def
      intro!: acts_within_bucket acts_within_mono [OF acts_within_sq_kick])

lemma acts_within_sq_client: "acts_within (sq_client evp ts rs cs) (82 * length cs)"
proof (induction cs arbitrary: rs)
  case (Cons c cs)
  then have "acts_within (sq_client evp ts rs (c # cs)) (82 + 82 * length cs)"
    by (simp add: acts_within_bind [OF acts_within_sq_op])
  then show ?case by simp
qed simp

text \<open>A query in a run, with what its log says about it.\<close>

lemma sq_query:
  assumes "seq_ready evp ts f" "sq_explains evp rnd css f hs (s', map FRet rss)"
    and ins: "\<forall>u < length css. \<forall>i < length (css ! u). \<forall>k. css ! u ! i = InsertKey k \<longrightarrow> rss ! u ! i"
    and t: "t < length css" "i < length (css ! t)" "css ! t ! i = FindKey k"
    and del: "\<forall>cs \<in> set css. \<forall>k'. RemoveKey k' \<in> set cs \<longrightarrow> key_item evp ts k \<noteq> key_item evp ts k'"
  obtains hs1 where "rss ! t ! i \<longleftrightarrow> key_item evp ts k \<in># seq_items f \<or>
      (\<exists>u k'. (u, InsertKey k', True) \<in> set hs1 \<and> key_item evp ts k = key_item evp ts k')"
    "of_thread t hs1 = zip (take i (css ! t)) (take i (rss ! t))" "length (rss ! t) = length (css ! t)"
    "\<forall>u c r. (u, c, r) \<in> set hs1 \<longrightarrow> u < length css \<and> c \<in> set (css ! u)"
proof -
  obtain f' j' where s': "s' = (f', j')" by force
  have inv: "seq_inv ts f" using assms(1) by (simp add: seq_ready_def)
  obtain h f2 where at: "sq_at evp rnd css f hs h f2 f' j' (map FRet rss)"
    using assms(2) by (auto simp: sq_explains_def s')
  have len: "length rss = length css" using at by (simp add: sq_at_def)
  have log: "of_thread u hs = zip (css ! u) (rss ! u) \<and> length (rss ! u) = length (css ! u)" if "u < length css" for u
    using sq_explains_ended [OF assms(2) [unfolded s'] inv that] len that by simp
  have thr: "u < length css" if "(u, e) \<in> set hs" for u e
    using at that by (auto simp: sq_at_def)
  have ent: "u < length css \<and> (\<exists>i < length (css ! u). css ! u ! i = c \<and> rss ! u ! i = r)"
    if "(u, c, r) \<in> set hs" for u c r
    using thr [OF that] log [of u] that unfolding of_thread_mem by (auto simp: set_zip)
  have i: "i < length (of_thread t hs)" using log [OF t(1)] t(2) by simp
  then obtain hs1 hs2 where hs: "hs = hs1 @ (t, of_thread t hs ! i) # hs2" "of_thread t hs1 = take i (of_thread t hs)"
    using of_thread_nth by blast
  have e: "of_thread t hs ! i = (FindKey k, rss ! t ! i)" using log [OF t(1)] t(2,3) by simp
  have sub: "set hs1 \<subseteq> set hs" using hs(1) by (metis Un_upper1 set_append)
  have "seq_history evp f (hs1 @ (t, FindKey k, rss ! t ! i) # hs2) f2"
    using at hs(1) e by (simp add: sq_at_def)
  moreover have "\<not> (u, InsertKey k', False) \<in> set hs1" for u k'
    using ent [of u "InsertKey k'" False] sub ins by auto
  moreover have "key_item evp ts k \<noteq> key_item evp ts k'" if "(u, RemoveKey k', True) \<in> set hs1" for u k'
    using ent [of u "RemoveKey k'" True] sub that del nth_mem by fastforce
  ultimately have "rss ! t ! i \<longleftrightarrow> key_item evp ts k \<in># seq_items f \<or>
      (\<exists>u k'. (u, InsertKey k', True) \<in> set hs1 \<and> key_item evp ts k = key_item evp ts k')"
    by (rule log_query [OF _ assms(1)])
  then show thesis
  proof (rule that)
    show "of_thread t hs1 = zip (take i (css ! t)) (take i (rss ! t))" "length (rss ! t) = length (css ! t)"
      using hs(2) log [OF t(1)] by (simp_all add: take_zip)
    show "\<forall>u c r. (u, c, r) \<in> set hs1 \<longrightarrow> u < length css \<and> c \<in> set (css ! u)"
      using ent sub nth_mem by fastforce
  qed
qed

section \<open>A concrete run\<close>

text \<open>Thread 0 inserts key 0 and then finds it; in between thread 1 looks for key 8.\<close>

definition sq_demo :: seq_filter where
  "sq_demo = \<lparr>seq_table_size = 2, seq_verbose = False,
     seq_hash_table = [[[], [], [], []], [[], [], [], []]], seq_mtx = False\<rparr>"

definition sq_turns :: "nat list" where
  "sq_turns = [0, 0, 0, 0, 1, 1, 1, 1, 1, 1, 1, 1, 1, 1, 0, 0, 0]"

definition sq_clients :: "filter_call list list" where
  "sq_clients = [[InsertKey [0], FindKey [0]], [FindKey [8]]]"

lemma sq_demo_ready: "seq_ready pad_evp 2 sq_demo" "seq_inv 2 sq_demo" "seq_table_size sq_demo = 2"
proof -
  have "seq_new 2 False = Inr sq_demo"
    by (simp add: seq_new_def sq_demo_def NUM_ITEMS_PER_ENTRY_def demo_lists, simp add: numeral_2_eq_2)
  from seq_new_inv [OF this] show "seq_inv 2 sq_demo" by simp
  then show "seq_ready pad_evp 2 sq_demo" "seq_table_size sq_demo = 2"
    using is_pow2_2 by (simp_all add: seq_ready_def pad_evp_ok seq_inv_def)
qed

lemma sq_demo_run:
  "thread_exec (sq_act (\<lambda>_. 0)) sq_turns (sq_start pad_evp sq_demo 0 sq_clients) =
     Some ((sq_demo\<lparr>seq_hash_table := [[md5_fingerprint pad_evp [0], [], [], []], [[], [], [], []]]\<rparr>, 0),
       map FRet [[True, True], [False]])"
  supply fg_lazy(1-4,6,7) [cong]
  by (simp add: sq_turns_def sq_start_def sq_clients_def sq_demo_def sq_insert_def sq_find_def seq_put_def
      seq_unlock_def fg_eval demo_lists NUM_MAX_KICKS_def)

section \<open>Properties\<close>

text \<open>
  C13. The coarse-grained filter is linearizable: whatever threads call, and however they are
  scheduled, a log of the calls in the order in which they took the mutex is a history of the
  sequential operations. It leads to the state reached when all have returned, has each thread's
  calls in the order and with the answers that the thread saw, and only grows, so that a call
  that has returned before another one begins also precedes it in the log.
\<close>

theorem seq_linearizable:
  assumes "seq_inv ts f" "thread_exec (sq_act rnd) us (sq_start evp f j css) = Some c"
    and "thread_exec (sq_act rnd) vs c = Some ((f', j'), ps)"
  shows "\<exists>hs hs'. sq_explains evp rnd css f hs c \<and> sq_explains evp rnd css f (hs @ hs') ((f', j'), ps) \<and>
    (\<forall>t < length css. \<forall>rs. ps ! t = FRet rs \<longrightarrow> of_thread t (hs @ hs') = zip (css ! t) rs) \<and>
    ((\<forall>t < length css. \<exists>rs. ps ! t = FRet rs) \<longrightarrow> seq_history evp f (hs @ hs') f')"
proof -
  obtain hs where hs: "sq_explains evp rnd css f hs c"
    using sq_explains_exec [OF assms(1) sq_explains_start [OF assms(1)] assms(2)] by auto
  obtain hs' where hs': "sq_explains evp rnd css f (hs @ hs') ((f', j'), ps)"
    using sq_explains_exec [OF assms(1) hs assms(3)] by blast
  then show ?thesis
    using hs sq_explains_ended(1) [OF hs' assms(1)] sq_explains_final [OF hs'] by blast
qed

lemma seq_linearizable_witness:
  "\<exists>hs. seq_history pad_evp sq_demo hs
       (sq_demo\<lparr>seq_hash_table := [[md5_fingerprint pad_evp [0], [], [], []], [[], [], [], []]]\<rparr>) \<and>
     of_thread 0 hs = [(InsertKey [0], True), (FindKey [0], True)] \<and> of_thread 1 hs = [(FindKey [8], False)]"
proof -
  let ?f = "sq_demo\<lparr>seq_hash_table := [[md5_fingerprint pad_evp [0], [], [], []], [[], [], [], []]]\<rparr>"
  let ?ps = "map FRet [[True, True], [False]] :: bool list fg_prog list"
  from seq_linearizable [OF sq_demo_ready(2) _ sq_demo_run, where us = "[]" and evp = pad_evp and j = 0 and css = sq_clients]
  obtain hs where A: "\<forall>t < length sq_clients. \<forall>rs. ?ps ! t = FRet rs \<longrightarrow> of_thread t hs = zip (sq_clients ! t) rs"
    and B: "(\<forall>t < length sq_clients. \<exists>rs. ?ps ! t = FRet rs) \<longrightarrow> seq_history pad_evp sq_demo hs ?f"
    by auto
  have "seq_history pad_evp sq_demo hs ?f"
    by (rule B [rule_format]) (auto simp: sq_clients_def less_Suc_eq)
  moreover have "of_thread 0 hs = zip (sq_clients ! 0) [True, True]" "of_thread 1 hs = zip (sq_clients ! 1) [False]"
    by (rule A [rule_format]; simp add: sq_clients_def)+
  ultimately show ?thesis by (auto simp: sq_clients_def)
qed

text \<open>
  C22. Threads on the coarse-grained filter neither loop nor block each other for ever: every
  schedule has at most 82 actions per call, and as long as a thread has not returned, some thread
  can act.
\<close>

theorem seq_threads_progress:
  assumes "seq_inv ts f" "thread_exec (sq_act rnd) sched (sq_start evp f j css) = Some ((f', j'), ps)"
  shows "length sched \<le> sum_list (map (\<lambda>cs. 82 * length cs) css) \<and>
    ((\<exists>t < length ps. \<nexists>rs. ps ! t = FRet rs) \<longrightarrow> (\<exists>d. thread_step (sq_act rnd) ((f', j'), ps) d))"
proof -
  have "length sched \<le> sum_list (map (\<lambda>cs. 82 * length cs) css)"
    by (rule exec_bound [of "sq_act rnd", OF sq_act_within assms(2) [unfolded sq_start_def]])
      (simp_all add: acts_within_sq_client)
  moreover have "\<exists>d. thread_step (sq_act rnd) ((f', j'), ps) d" if "t < length ps" "\<nexists>rs. ps ! t = FRet rs" for t
  proof -
    obtain hs where "sq_explains evp rnd css f hs ((f', j'), ps)"
      using sq_explains_exec [OF assms(1) sq_explains_start [OF assms(1)] assms(2)] by auto
    from sq_explains_acts [OF this assms(1) that]
    obtain u p s' where "u < length ps" "sq_act rnd u (ps ! u) (f', j') = Some (p, s')" by auto
    then show ?thesis by (blast intro: thread_stepI)
  qed
  ultimately show ?thesis by blast
qed

text \<open>Thread 0 has taken the mutex, so that thread 1 has to wait.\<close>

lemma sq_demo_first:
  "\<exists>f ps. thread_exec (sq_act (\<lambda>_. 0)) [0] (sq_start pad_evp sq_demo 0 sq_clients) = Some ((f, 0), ps) \<and>
     length ps = 2 \<and> (\<nexists>rs. ps ! 1 = FRet rs) \<and> sq_act (\<lambda>_. 0) 1 (ps ! 1) (f, 0) = None"
  supply fg_lazy(1-4,6,7) [cong]
  by (simp add: sq_start_def sq_clients_def sq_demo_def sq_insert_def sq_find_def sq_remove_def fg_eval demo_lists)

lemma seq_threads_progress_witness:
  "\<exists>f ps. thread_exec (sq_act (\<lambda>_. 0)) [0] (sq_start pad_evp sq_demo 0 sq_clients) = Some ((f, 0), ps) \<and>
     sq_act (\<lambda>_. 0) 1 (ps ! 1) (f, 0) = None \<and> (\<exists>d. thread_step (sq_act (\<lambda>_. 0)) ((f, 0), ps) d)"
proof -
  obtain f ps where run: "thread_exec (sq_act (\<lambda>_. 0)) [0] (sq_start pad_evp sq_demo 0 sq_clients) = Some ((f, 0), ps)"
    and ps: "length ps = 2" "\<nexists>rs. ps ! 1 = FRet rs" "sq_act (\<lambda>_. 0) 1 (ps ! 1) (f, 0) = None"
    using sq_demo_first by blast
  have "\<exists>t < length ps. \<nexists>rs. ps ! t = FRet rs" using ps(1,2) by (intro exI [of _ 1]) simp
  with seq_threads_progress [OF sq_demo_ready(2) run] run ps(3) show ?thesis by blast
qed

text \<open>
  C14. Queries of threads on the coarse-grained filter. If no insertion of a run fails, a \<open>find\<close> of a
  key whose item nobody removes says true if the item was stored at the start or the thread has
  inserted the key before, and only if it was stored at the start or some thread inserts it.
\<close>

theorem seq_threads_find:
  assumes "seq_ready evp ts f"
    and "thread_exec (sq_act rnd) sched (sq_start evp f j css) = Some (s', map FRet rss)"
    and "\<forall>u < length css. \<forall>i < length (css ! u). \<forall>k. css ! u ! i = InsertKey k \<longrightarrow> rss ! u ! i"
    and "t < length css" "i < length (css ! t)" "css ! t ! i = FindKey k"
    and "\<forall>cs \<in> set css. \<forall>k'. RemoveKey k' \<in> set cs \<longrightarrow> key_item evp ts k \<noteq> key_item evp ts k'"
  shows "(key_item evp ts k \<in># seq_items f \<or> (\<exists>l < i. css ! t ! l = InsertKey k) \<longrightarrow> rss ! t ! i) \<and>
    (rss ! t ! i \<longrightarrow> key_item evp ts k \<in># seq_items f \<or>
       (\<exists>cs \<in> set css. \<exists>k'. InsertKey k' \<in> set cs \<and> key_item evp ts k = key_item evp ts k'))"
proof -
  have inv: "seq_inv ts f" using assms(1) by (simp add: seq_ready_def)
  obtain hs where hs: "sq_explains evp rnd css f hs (s', map FRet rss)"
    using sq_explains_exec [OF inv sq_explains_start [OF inv] assms(2)] by auto
  obtain hs1 where q: "rss ! t ! i \<longleftrightarrow> key_item evp ts k \<in># seq_items f \<or>
      (\<exists>u k'. (u, InsertKey k', True) \<in> set hs1 \<and> key_item evp ts k = key_item evp ts k')"
    and own: "of_thread t hs1 = zip (take i (css ! t)) (take i (rss ! t))" "length (rss ! t) = length (css ! t)"
    and ent: "\<forall>u c r. (u, c, r) \<in> set hs1 \<longrightarrow> u < length css \<and> c \<in> set (css ! u)"
    by (rule sq_query [OF assms(1) hs assms(3-7)])
  have "(t, InsertKey k, True) \<in> set hs1" if "l < i" "css ! t ! l = InsertKey k" for l
    unfolding of_thread_mem own(1) set_zip using that assms(3-5) own(2) by (auto intro!: exI [of _ l])
  with q ent show ?thesis using nth_mem by metis
qed

lemma seq_threads_find_witness:
  "\<exists>s'. thread_exec (sq_act (\<lambda>_. 0)) sq_turns (sq_start pad_evp sq_demo 0 sq_clients) =
     Some (s', map FRet [[True, True], [False]]) \<and> InsertKey [0] = sq_clients ! 0 ! 0 \<and> [[True, True], [False]] ! 0 ! 1"
proof -
  have "\<forall>u < length sq_clients. \<forall>i < length (sq_clients ! u). \<forall>k. sq_clients ! u ! i = InsertKey k \<longrightarrow>
      [[True, True], [False]] ! u ! i"
    by (auto simp: sq_clients_def less_Suc_eq)
  then have "[[True, True], [False]] ! 0 ! 1"
    using seq_threads_find [OF sq_demo_ready(1) sq_demo_run, of 0 1 "[0]"] by (simp add: sq_clients_def)
  with sq_demo_run show ?thesis by (simp add: sq_clients_def)
qed

end
