(* ===== verification/Fine_Grained_Content.thy ===== *)
theory Fine_Grained_Content
  imports Fine_Grained_Conc
begin

text \<open>
  What the table of a \<open>FineGrainedFilter\<close> holds while any threads call any operations, as far as
  the interleaving of whole string accesses describes the code (until the first data race): it
  keeps its shape, every access is in range, every slot is empty or holds a fingerprint that was
  there at the start or belongs to a key some thread inserts, and the answers are justified by
  such fingerprints.
\<close>

section \<open>Typed programs\<close>

text \<open>
  \<open>fg_typed ts S Q p\<close>: as long as the slots hold strings of \<open>S\<close>, \<open>p\<close> accesses only slots of a table
  with \<open>ts\<close> buckets, writes only strings of \<open>S\<close>, and its result satisfies \<open>Q\<close>.
\<close>

primrec fg_typed :: "u32 \<Rightarrow> bytes set \<Rightarrow> ('a \<Rightarrow> bool) \<Rightarrow> 'a fg_prog \<Rightarrow> bool" where
  "fg_typed ts S Q (FRet a) = Q a"
| "fg_typed ts S Q FDivByZero = (ts = 0)"
| "fg_typed ts S Q (FLock x m p) = (m < NUM_MUTEXES \<and> fg_typed ts S Q p)"
| "fg_typed ts S Q (FUnlock x m p) = (m < NUM_MUTEXES \<and> fg_typed ts S Q p)"
| "fg_typed ts S Q (FRead b i k) =
     (b < ts \<and> i < NUM_ITEMS_PER_ENTRY \<and> (\<forall>v \<in> S. fg_typed ts S Q (k v)))"
| "fg_typed ts S Q (FWrite b i v p) =
     (b < ts \<and> i < NUM_ITEMS_PER_ENTRY \<and> v \<in> S \<and> fg_typed ts S Q p)"
| "fg_typed ts S Q (FRand k) = (\<forall>v. fg_typed ts S Q (k v))"

lemma fg_typed_bind:
  "fg_typed ts S R p \<Longrightarrow> (\<And>a. R a \<Longrightarrow> fg_typed ts S Q (f a)) \<Longrightarrow> fg_typed ts S Q (fg_bind p f)"
  by (induction p) auto

lemma fg_typed_scan:
  assumes "b < ts" "set is \<subseteq> {..<NUM_ITEMS_PER_ENTRY}"
    and "\<And>i v. i < NUM_ITEMS_PER_ENTRY \<Longrightarrow> v \<in> S \<Longrightarrow> P v \<Longrightarrow> fg_typed ts S Q (hit i)"
    and "fg_typed ts S Q miss"
  shows "fg_typed ts S Q (fg_scan is P b hit miss)"
  using assms(2) by (induction "is") (auto simp: assms)

lemma fg_typed_kick:
  assumes "ts \<noteq> 0" "[] \<in> S"
  shows "b < ts \<Longrightarrow> fp \<in> S \<Longrightarrow> fg_typed ts S (\<lambda>_. True) (fg_kick n ts b fp)"
proof (induction n arbitrary: b fp)
  case (Suc n)
  have "get_next_hash_index ts b v < ts" for v by (rule get_next_hash_index_less [OF assms(1)])
  with Suc show ?case by (auto simp: Let_def intro!: fg_typed_scan)
qed simp

lemma fg_typed_insert:
  assumes "[] \<in> S" "md5_fingerprint evp k \<in> S"
  shows "fg_typed ts S (\<lambda>_. True) (fg_insert evp ts k)"
proof (cases "ts = 0")
  case False
  have "get_next_hash_index ts b v < ts" for b v by (rule get_next_hash_index_less [OF False])
  with hash_mod_less [OF False] show ?thesis
    using False assms by (auto simp: fg_insert_def Let_def intro!: fg_typed_scan fg_typed_kick)
qed (simp add: fg_insert_def)

lemma fg_typed_find: "fg_typed ts S (\<lambda>r. r \<longrightarrow> md5_fingerprint evp k \<in> S) (fg_find evp ts k)"
proof (cases "ts = 0")
  case False
  have "get_next_hash_index ts b v < ts" for b v by (rule get_next_hash_index_less [OF False])
  with hash_mod_less [OF False] show ?thesis
    using False by (auto simp: fg_find_def Let_def intro!: fg_typed_scan)
qed (simp add: fg_find_def)

lemma fg_typed_remove:
  assumes "[] \<in> S"
  shows "fg_typed ts S (\<lambda>r. r \<longrightarrow> md5_fingerprint evp k \<in> S) (fg_remove evp ts k)"
proof (cases "ts = 0")
  case False
  have "get_next_hash_index ts b v < ts" for b v by (rule get_next_hash_index_less [OF False])
  with hash_mod_less [OF False] show ?thesis
    using False assms by (auto simp: fg_remove_def Let_def intro!: fg_typed_scan)
qed (simp add: fg_remove_def)

text \<open>The answer of a call, given the strings that slots may hold.\<close>

primrec fg_justified :: "evp_digest \<Rightarrow> bytes set \<Rightarrow> filter_call \<Rightarrow> bool \<Rightarrow> bool" where
  "fg_justified evp S (InsertKey k) r = True"
| "fg_justified evp S (FindKey k) r = (r \<longrightarrow> md5_fingerprint evp k \<in> S)"
| "fg_justified evp S (RemoveKey k) r = (r \<longrightarrow> md5_fingerprint evp k \<in> S)"

lemma fg_typed_client:
  assumes "[] \<in> S"
  shows "(\<And>k. InsertKey k \<in> set cs \<Longrightarrow> md5_fingerprint evp k \<in> S) \<Longrightarrow>
    fg_typed ts S (list_all2 (fg_justified evp S) cs) (fg_client evp ts cs)"
proof (induction cs)
  case (Cons c cs)
  have "fg_typed ts S (fg_justified evp S c) (fg_op evp ts c)"
  proof (cases c)
    case (InsertKey k)
    then have "md5_fingerprint evp k \<in> S" using Cons.prems by simp
    moreover have "fg_justified evp S c = (\<lambda>_. True)" by (rule ext) (simp add: InsertKey)
    ultimately show ?thesis using InsertKey fg_typed_insert [OF assms] by simp
  next
    case (FindKey k)
    then have "fg_justified evp S c = (\<lambda>r. r \<longrightarrow> md5_fingerprint evp k \<in> S)" by (intro ext) simp
    with FindKey fg_typed_find show ?thesis by simp
  next
    case (RemoveKey k)
    then have "fg_justified evp S c = (\<lambda>r. r \<longrightarrow> md5_fingerprint evp k \<in> S)" by (intro ext) simp
    with RemoveKey fg_typed_remove [OF assms] show ?thesis by simp
  qed
  then show ?case
    unfolding fg_client.simps
  proof (rule fg_typed_bind)
    fix r assume r: "fg_justified evp S c r"
    show "fg_typed ts S (list_all2 (fg_justified evp S) (c # cs))
        (fg_bind (fg_client evp ts cs) (\<lambda>rs. FRet (r # rs)))"
      by (rule fg_typed_bind [OF Cons.IH]) (use Cons.prems r in auto)
  qed
qed simp

section \<open>The invariant of the table\<close>

definition fg_table_ok :: "u32 \<Rightarrow> bytes set \<Rightarrow> fg_filter \<Rightarrow> bool" where
  "fg_table_ok ts S s \<longleftrightarrow> fg_table_size s = ts \<and> table_ok ts (fg_hash_table s) \<and>
     (\<forall>b < ts. \<forall>i < NUM_ITEMS_PER_ENTRY. cell (fg_hash_table s) (unat b) i \<in> S)"

lemma fg_table_ok_put:
  "fg_table_ok ts S s \<Longrightarrow> b < ts \<Longrightarrow> i < NUM_ITEMS_PER_ENTRY \<Longrightarrow> v \<in> S \<Longrightarrow> fg_table_ok ts S (fg_put b i v s)"
  by (auto simp: fg_table_ok_def cell_put)

lemma fg_table_ok_mono: "fg_table_ok ts S s \<Longrightarrow> S \<subseteq> S' \<Longrightarrow> fg_table_ok ts S' s"
  by (auto simp: fg_table_ok_def)

lemma fg_typed_act:
  assumes "fg_table_ok ts S s" "fg_typed ts S Q p" "fg_act rnd t p s = Some (p', s')"
  shows "fg_table_ok ts S s' \<and> fg_typed ts S Q p'"
  using assms
  by (cases p) (auto simp: fg_table_ok_put split: if_splits, auto simp: fg_table_ok_def)

interpretation fg_content: thread_logic "fg_act rnd" "fg_table_ok ts S"
    "\<lambda>t s p. fg_typed ts S (Q t) p" "\<lambda>_ _. True" for rnd ts S Q
  by unfold_locales (use fg_typed_act in blast)+

section \<open>Properties\<close>

text \<open>The strings that can occur: the empty one, those stored at the start, those inserted.\<close>

definition fg_strings :: "evp_digest \<Rightarrow> fg_filter \<Rightarrow> filter_call list list \<Rightarrow> bytes set" where
  "fg_strings evp s css = {[]} \<union> {cell (fg_hash_table s) (unat b) i | b i.
       b < fg_table_size s \<and> i < NUM_ITEMS_PER_ENTRY} \<union>
     {md5_fingerprint evp k | k. \<exists>cs \<in> set css. InsertKey k \<in> set cs}"

text \<open>
  The table of the fine-grained filter in every interleaving of the model, where the read and the
  write of a string are single actions: it keeps \<open>table_size\<close> buckets of four slots, every slot
  holds the empty string, a string stored at the start or the fingerprint of an inserted key,
  every next slot access of every thread is in range, and every answer true of \<open>find\<close> and
  \<open>remove\<close> is backed by such a string. For the code this holds up to the first data race; from
  there on \<open>std::swap\<close> on a string that another thread reads or writes is undefined behaviour,
  which this model does not show.
\<close>

lemma fg_table_typed:
  assumes "table_ok (fg_table_size s) (fg_hash_table s)"
    and "fg_reach rnd (fg_start evp s css) (s', ps)" "t < length css"
  shows "fg_table_ok (fg_table_size s) (fg_strings evp s css) s' \<and>
    (case next_access (ps ! t) of None \<Rightarrow> True
     | Some (x, b, i) \<Rightarrow> b < fg_table_size s \<and> i < NUM_ITEMS_PER_ENTRY) \<and>
    (\<forall>rs. ps ! t = FRet rs \<longrightarrow> list_all2 (fg_justified evp (fg_strings evp s css)) (css ! t) rs)"
proof -
  let ?ts = "fg_table_size s" and ?S = "fg_strings evp s css"
  let ?Q = "\<lambda>t. list_all2 (fg_justified evp ?S) (css ! t)"
  have S: "[] \<in> ?S" by (simp add: fg_strings_def)
  have "fg_table_ok ?ts ?S s" using assms(1) by (auto simp: fg_table_ok_def fg_strings_def)
  moreover have "fg_typed ?ts ?S (?Q u) (fg_client evp ?ts (css ! u))" if u: "u < length css" for u
    by (rule fg_typed_client [OF S]) (use nth_mem [OF u] in \<open>auto simp: fg_strings_def\<close>)
  ultimately have ok: "fg_content.conf_ok ?ts ?S ?Q (fg_start evp s css)"
    by (simp add: fg_content.conf_ok_def fg_start_def)
  have t: "t < length ps" using thread_reach_length [OF assms(2)] assms(3) by (simp add: fg_start_def)
  have p: "fg_typed ?ts ?S (?Q t) (ps ! t)"
    using fg_content.reach_ok [OF assms(2) ok, of t] t by simp
  then have "case next_access (ps ! t) of None \<Rightarrow> True
     | Some (x, b, i) \<Rightarrow> b < ?ts \<and> i < NUM_ITEMS_PER_ENTRY"
    by (cases "ps ! t") auto
  with p fg_content.reach_inv [OF assms(2) ok] show ?thesis by auto
qed

lemma fg_table_typed_witness:
  "\<exists>s ps. fg_reach (\<lambda>_. 0) (fg_start pad_evp fg_full [[InsertKey [0]], [FindKey [8]]]) (s, ps) \<and>
     map next_access ps = [Some (True, 0, 0), Some (False, 0, 0)] \<and>
     fg_table_ok 2 {[], md5_fingerprint pad_evp [8], md5_fingerprint pad_evp [5],
       md5_fingerprint pad_evp [0]} s"
proof -
  obtain s ps where r: "fg_reach (\<lambda>_. 0) (fg_start pad_evp fg_full [[InsertKey [0]], [FindKey [8]]]) (s, ps)"
    "map next_access ps = [Some (True, 0, 0), Some (False, 0, 0)]"
    using demo_reach by metis
  have "table_ok (fg_table_size fg_full) (fg_hash_table fg_full)"
    by (simp add: table_ok_def rect_def fg_full_def NUM_ITEMS_PER_ENTRY_def)
  from fg_table_typed [OF this r(1), of 0]
  have "fg_table_ok 2 (fg_strings pad_evp fg_full [[InsertKey [0]], [FindKey [8]]]) s"
    by (simp add: fg_full_def)
  moreover have "fg_strings pad_evp fg_full [[InsertKey [0]], [FindKey [8]]] \<subseteq>
      {[], md5_fingerprint pad_evp [8], md5_fingerprint pad_evp [5], md5_fingerprint pad_evp [0]}"
  proof -
    have "unat b = 0 \<or> unat b = 1" if "b < 2" for b :: u32
      using that by (auto simp: word_less_nat_alt)
    moreover have "i = 0 \<or> i = 1 \<or> i = 2 \<or> i = 3" if "i < 4" for i :: nat using that by auto
    ultimately show ?thesis
      by (fastforce simp: fg_strings_def fg_full_def NUM_ITEMS_PER_ENTRY_def cell_def)
  qed
  ultimately have "fg_table_ok 2 {[], md5_fingerprint pad_evp [8], md5_fingerprint pad_evp [5],
      md5_fingerprint pad_evp [0]} s"
    by (rule fg_table_ok_mono)
  with r show ?thesis by metis
qed

end
