(* ===== verification/Fine_Grained_Logic.thy ===== *)
theory Fine_Grained_Logic
  imports Fine_Grained_Conc Call_Log
begin

text \<open>
  A logic for threads that make calls on one \<open>FineGrainedFilter\<close>. A call takes effect at one of its
  actions: at a write, or at the read that decides its answer. Until then the thread tolerates what
  the others do to the table, as long as they respect the mutex it holds. The effects of all calls,
  in their order, are the log of the run.
\<close>

section \<open>Calls that are going to take effect\<close>

text \<open>
  \<open>tol h f f'\<close>: a thread that holds \<open>h\<close> tolerates that the others turn \<open>f\<close> into \<open>f'\<close>. \<open>eff f r f'\<close>: the
  call may answer \<open>r\<close> and turn \<open>f\<close> into \<open>f'\<close>. \<open>answered\<close>: it has just done so and is about to return.
  \<open>settles\<close>: the rest of the call has not taken effect yet, and either will or gives up.
\<close>

definition answered ::
  "(seq_filter \<Rightarrow> bool \<Rightarrow> seq_filter \<Rightarrow> bool) \<Rightarrow> seq_filter \<Rightarrow> seq_filter \<Rightarrow> bool fg_prog \<Rightarrow> bool" where
  "answered eff f f' p \<longleftrightarrow> (\<exists>x m r. p = FUnlock x m (FRet r) \<and> eff f r f')"

primrec settles ::
  "((bool \<times> nat) option \<Rightarrow> seq_filter \<Rightarrow> seq_filter \<Rightarrow> bool) \<Rightarrow> (seq_filter \<Rightarrow> bool \<Rightarrow> seq_filter \<Rightarrow> bool) \<Rightarrow>
   bool fg_prog \<Rightarrow> (bool \<times> nat) option \<Rightarrow> seq_filter \<Rightarrow> bool" where
  "settles tol eff (FRet a) h f = False"
| "settles tol eff FDivByZero h f = True"
| "settles tol eff (FLock x m p) h f = (\<forall>f'. tol h f f' \<longrightarrow> settles tol eff p (Some (x, m)) f')"
| "settles tol eff (FUnlock x m p) h f = (\<forall>f'. tol h f f' \<longrightarrow> settles tol eff p None f')"
| "settles tol eff (FRead b i k) h f =
     (\<forall>f'. tol h f f' \<longrightarrow>
        settles tol eff (k (cell (seq_hash_table f') (unat b) i)) h f' \<or>
        answered eff f' f' (k (cell (seq_hash_table f') (unat b) i)))"
| "settles tol eff (FWrite b i v p) h f =
     (h = Some (True, mutex_of b) \<and>
      (\<forall>f'. tol h f f' \<longrightarrow> answered eff f' (seq_put b i v f') p \<and>
         (\<forall>h'. (\<forall>x. h' \<noteq> Some (x, mutex_of b)) \<longrightarrow> tol h' f' (seq_put b i v f'))))"
| "settles tol eff (FRand k) h f = False"

definition comes_to ::
  "((bool \<times> nat) option \<Rightarrow> seq_filter \<Rightarrow> seq_filter \<Rightarrow> bool) \<Rightarrow> (seq_filter \<Rightarrow> bool \<Rightarrow> seq_filter \<Rightarrow> bool) \<Rightarrow>
   bool fg_prog \<Rightarrow> (bool \<times> nat) option \<Rightarrow> seq_filter \<Rightarrow> bool" where
  "comes_to tol eff p h f \<longleftrightarrow> settles tol eff p h f \<or> answered eff f f p"

lemma comes_to_answer: "eff f r f \<Longrightarrow> comes_to tol eff (FUnlock x m (FRet r)) h f"
  by (simp add: comes_to_def answered_def ex_bool_eq)

lemma comes_to_write:
  assumes "\<And>f'. tol (Some (True, mutex_of b)) f f' \<Longrightarrow> eff f' r (seq_put b i v f')"
    and "\<And>f' h'. tol (Some (True, mutex_of b)) f f' \<Longrightarrow> (\<And>x. h' \<noteq> Some (x, mutex_of b)) \<Longrightarrow>
      tol h' f' (seq_put b i v f')"
  shows "comes_to tol eff (FWrite b i v (FUnlock x m (FRet r))) (Some (True, mutex_of b)) f"
  using assms by (simp add: comes_to_def answered_def ex_bool_eq)

section \<open>Logs of effects\<close>

text \<open>The effect of a call may depend on the calls its thread has made.\<close>

inductive logged ::
  "((filter_call \<times> bool) list \<Rightarrow> filter_call \<Rightarrow> seq_filter \<Rightarrow> bool \<Rightarrow> seq_filter \<Rightarrow> bool) \<Rightarrow>
   seq_filter \<Rightarrow> call_log \<Rightarrow> seq_filter \<Rightarrow> bool" for eff f0 where
  logged_Nil: "logged eff f0 [] f0"
| logged_snoc: "logged eff f0 hs f \<Longrightarrow> eff (of_thread t hs) c f r f' \<Longrightarrow> logged eff f0 (hs @ [(t, c, r)]) f'"

text \<open>
  A thread that has to make \<open>calls\<close>, and whose calls \<open>made\<close> have taken effect, is inside its next call,
  or about to return from its last one, or has made all its calls.
\<close>

definition fg_thread_at ::
  "((bool \<times> nat) option \<Rightarrow> seq_filter \<Rightarrow> seq_filter \<Rightarrow> bool) \<Rightarrow>
   ((filter_call \<times> bool) list \<Rightarrow> filter_call \<Rightarrow> seq_filter \<Rightarrow> bool \<Rightarrow> seq_filter \<Rightarrow> bool) \<Rightarrow>
   (filter_call \<Rightarrow> bool fg_prog) \<Rightarrow> filter_call list \<Rightarrow> (filter_call \<times> bool) list \<Rightarrow> (bool \<times> nat) option \<Rightarrow>
   seq_filter \<Rightarrow> bool list fg_prog \<Rightarrow> bool" where
  "fg_thread_at tol eff op calls made h f p \<longleftrightarrow>
     (\<exists>q c cs. calls = map fst made @ c # cs \<and> settles tol (eff made c) q h f \<and>
        p = fg_bind q (\<lambda>r. fg_calls op (map snd made @ [r]) cs)) \<or>
     (\<exists>x m cs. calls = map fst made @ cs \<and> p = FUnlock x m (fg_calls op (map snd made) cs)) \<or>
     (calls = map fst made \<and> p = FRet (map snd made))"

text \<open>
  The log \<open>hs\<close> explains the configuration \<open>(s, ps)\<close> of a run from \<open>f0\<close>: its effects lead from \<open>f0\<close> to the
  filter of \<open>s\<close>, and in every thread exactly the calls of the log have taken effect, with its answers.
\<close>

definition fg_explains ::
  "((bool \<times> nat) option \<Rightarrow> seq_filter \<Rightarrow> seq_filter \<Rightarrow> bool) \<Rightarrow>
   ((filter_call \<times> bool) list \<Rightarrow> filter_call \<Rightarrow> seq_filter \<Rightarrow> bool \<Rightarrow> seq_filter \<Rightarrow> bool) \<Rightarrow>
   (filter_call \<Rightarrow> bool fg_prog) \<Rightarrow> filter_call list list \<Rightarrow> seq_filter \<Rightarrow> call_log \<Rightarrow> bool list fg_conf \<Rightarrow> bool" where
  "fg_explains tol eff op css f0 hs c \<longleftrightarrow>
     length (snd c) = length css \<and> (\<forall>e \<in> set hs. fst e < length css) \<and> logged eff f0 hs (fg_abs (fst c)) \<and>
     (\<exists>hold. fg_inv True hold c \<and> (\<forall>t < length css.
        fg_thread_at tol eff op (css ! t) (of_thread t hs) (hold t) (fg_abs (fst c)) (snd c ! t)))"

lemma settles_not_returned: "settles tol eff q h f \<Longrightarrow> fg_bind q k \<noteq> FRet rs"
  by (cases q) auto

lemma fg_explains_ended:
  assumes "fg_explains tol eff op css f0 hs (s, ps)" "t < length css" "ps ! t = FRet rs"
  shows "of_thread t hs = zip (css ! t) rs" "length rs = length (css ! t)"
proof -
  obtain h where "fg_thread_at tol eff op (css ! t) (of_thread t hs) h (fg_abs s) (ps ! t)"
    using assms(1,2) by (auto simp: fg_explains_def)
  then have "css ! t = map fst (of_thread t hs) \<and> rs = map snd (of_thread t hs)"
    unfolding fg_thread_at_def assms(3)
    by (elim disjE exE conjE) (auto dest: settles_not_returned [THEN not_sym])
  then show "of_thread t hs = zip (css ! t) rs" "length rs = length (css ! t)"
    by (simp_all add: zip_map_fst_snd)
qed

lemma fg_start_calls:
  "fg_start evp s css = (s, map (fg_calls (fg_op evp (fg_table_size s)) []) css)"
  by (simp add: fg_start_def fg_client_calls)

lemma fg_explains_calls:
  assumes "fg_explains tol eff op css f0 hs (s, ps)" "t < length css"
  shows "map fst (of_thread t hs) = take (length (of_thread t hs)) (css ! t)"
proof -
  obtain h where "fg_thread_at tol eff op (css ! t) (of_thread t hs) h (fg_abs s) (ps ! t)"
    using assms by (auto simp: fg_explains_def)
  then show ?thesis unfolding fg_thread_at_def by (elim disjE exE conjE) auto
qed

text \<open>The effect of one call of a log.\<close>

lemma logged_at:
  assumes "logged eff f0 (hs1 @ (t, c, r) # hs2) f"
  obtains m m' where "logged eff f0 hs1 m" "eff (of_thread t hs1) c m r m'"
proof -
  have "\<exists>m m'. logged eff f0 hs1 m \<and> eff (of_thread t hs1) c m r m'"
    using assms
  proof (induction hs2 arbitrary: f rule: rev_induct)
    case Nil
    then show ?case by (cases rule: logged.cases) auto
  next
    case (snoc e hs2)
    from snoc.prems obtain f1 where "logged eff f0 (hs1 @ (t, c, r) # hs2) f1"
      by (cases rule: logged.cases) auto
    then show ?case by (rule snoc.IH)
  qed
  then show thesis using that by blast
qed

section \<open>The logic\<close>

text \<open>
  \<open>known made f\<close> is what a thread has learnt from the calls it has made; the others do not destroy it.
  \<open>callable\<close> are the calls that any thread may make.
\<close>

locale fg_logic =
  fixes inv :: "seq_filter \<Rightarrow> bool"
    and tol :: "(bool \<times> nat) option \<Rightarrow> seq_filter \<Rightarrow> seq_filter \<Rightarrow> bool"
    and eff :: "(filter_call \<times> bool) list \<Rightarrow> filter_call \<Rightarrow> seq_filter \<Rightarrow> bool \<Rightarrow> seq_filter \<Rightarrow> bool"
    and known :: "(filter_call \<times> bool) list \<Rightarrow> seq_filter \<Rightarrow> bool"
    and op :: "filter_call \<Rightarrow> bool fg_prog"
    and callable :: "filter_call \<Rightarrow> bool"
  assumes tol_refl: "inv f \<Longrightarrow> tol h f f"
    and tol_trans: "tol h f f' \<Longrightarrow> tol h f' f'' \<Longrightarrow> tol h f f''"
    and tol_inv: "tol h f f' \<Longrightarrow> inv f'"
    and known_later: "inv f \<Longrightarrow> known made f \<Longrightarrow> tol h f f' \<Longrightarrow> known made f'"
    and known_eff: "known made f \<Longrightarrow> eff made c f r f' \<Longrightarrow> known (made @ [(c, r)]) f'"
    and begins: "inv f \<Longrightarrow> known made f \<Longrightarrow> callable c \<Longrightarrow> settles tol (eff made c) (op c) None f"
begin

lemma settles_later: "settles tol e p h f \<Longrightarrow> tol h f f' \<Longrightarrow> settles tol e p h f'"
  by (cases p) (auto dest: tol_trans)

lemma thread_later:
  assumes "fg_thread_at tol eff op calls made h f p" "tol h f f'"
  shows "fg_thread_at tol eff op calls made h f' p"
  using assms(1) settles_later [OF _ assms(2)] unfolding fg_thread_at_def by blast

lemma thread_begin:
  assumes "inv f" "known made f" "\<forall>c \<in> set cs. callable c" "calls = map fst made @ cs"
  shows "fg_thread_at tol eff op calls made None f (fg_calls op (map snd made) cs)"
proof (cases cs)
  case Nil
  with assms(4) show ?thesis by (simp add: fg_thread_at_def)
next
  case (Cons c cs')
  with assms begins [OF assms(1,2), of c] show ?thesis by (auto simp: fg_thread_at_def)
qed

text \<open>One action of a thread: nothing happens to the table, or a call takes effect.\<close>

lemma thread_act:
  assumes inv: "inv (fg_abs s)" and known: "known made (fg_abs s)" and calls: "\<forall>c \<in> set calls. callable c"
    and at: "fg_thread_at tol eff op calls made h (fg_abs s) p" and act: "fg_act rnd t p s = Some (p', s')"
  obtains (Quiet) "fg_abs s' = fg_abs s" "fg_thread_at tol eff op calls made (hold_after p h) (fg_abs s) p'"
  | (Effect) c r where "eff made c (fg_abs s) r (fg_abs s')"
      "fg_thread_at tol eff op calls (made @ [(c, r)]) (hold_after p h) (fg_abs s') p'"
      "\<And>h'. (\<And>x b. h = Some (True, mutex_of b) \<Longrightarrow> h' \<noteq> Some (x, mutex_of b)) \<Longrightarrow> tol h' (fg_abs s) (fg_abs s')"
  using at unfolding fg_thread_at_def [of _ _ _ _ _ _ _ p]
proof (elim disjE exE conjE)
  fix q c cs
  let ?k = "\<lambda>r. fg_calls op (map snd made @ [r]) cs"
  assume q: "calls = map fst made @ c # cs" "settles tol (eff made c) q h (fg_abs s)" "p = fg_bind q ?k"
  note refl = tol_refl [OF inv]
  have pending: "fg_thread_at tol eff op calls made h' (fg_abs s) (fg_bind q' ?k)"
    if "settles tol (eff made c) q' h' (fg_abs s)" for q' h'
    using that q(1) unfolding fg_thread_at_def by blast
  have effect: "fg_thread_at tol eff op calls (made @ [(c, r)]) h' f (FUnlock x m (?k r))" for x m r h' f
    using q(1) unfolding fg_thread_at_def by auto
  show thesis
  proof (cases q)
    case (FLock x m q')
    with q(2,3) act refl show thesis
      by (intro Quiet) (auto split: if_splits intro: pending)
  next
    case (FUnlock x m q')
    with q(2,3) act refl show thesis by (intro Quiet) (auto intro: pending)
  next
    case (FRead b i k)
    let ?q = "k (cell (fg_hash_table s) (unat b) i)"
    from FRead q(3) act have p': "p' = fg_bind ?q ?k" "s' = s" "hold_after p h = h" by auto
    from q(2) FRead refl [of h] consider "settles tol (eff made c) ?q h (fg_abs s)"
      | "answered (eff made c) (fg_abs s) (fg_abs s) ?q"
      by auto
    then show thesis
    proof cases
      case 1
      then show thesis using p' by (intro Quiet) (simp_all add: pending)
    next
      case 2
      then obtain x m r where "?q = FUnlock x m (FRet r)" "eff made c (fg_abs s) r (fg_abs s)"
        by (auto simp: answered_def)
      then show thesis using p' effect [of r h "fg_abs s" x m] refl by (intro Effect [of c r]) simp_all
    qed
  next
    case (FWrite b i v q')
    with q(2) refl [of h] have w: "h = Some (True, mutex_of b)"
      "answered (eff made c) (fg_abs s) (seq_put b i v (fg_abs s)) q'"
      "\<And>h'. (\<And>x. h' \<noteq> Some (x, mutex_of b)) \<Longrightarrow> tol h' (fg_abs s) (seq_put b i v (fg_abs s))"
      by auto
    from w(2) obtain x m r where r: "q' = FUnlock x m (FRet r)" "eff made c (fg_abs s) r (seq_put b i v (fg_abs s))"
      by (auto simp: answered_def)
    have "p' = FUnlock x m (?k r)" "fg_abs s' = seq_put b i v (fg_abs s)" "hold_after p h = h"
      using act q(3) FWrite r(1) by auto
    then show thesis
      using r(2) effect [of r h "fg_abs s'" x m] w(1,3) by (intro Effect [of c r]) auto
  qed (use q(2,3) act in auto)
next
  fix x m cs assume "calls = map fst made @ cs" "p = FUnlock x m (fg_calls op (map snd made) cs)"
  with act calls show thesis by (intro Quiet) (auto intro: thread_begin [OF inv known])
next
  assume "p = FRet (map snd made)"
  with act show thesis by simp
qed

section \<open>Runs\<close>

definition run_at :: "filter_call list list \<Rightarrow> seq_filter \<Rightarrow> call_log \<Rightarrow> bool list fg_conf \<Rightarrow> bool" where
  "run_at css f0 hs c \<longleftrightarrow> fg_explains tol eff op css f0 hs c \<and> inv (fg_abs (fst c)) \<and>
     (\<forall>t < length css. known (of_thread t hs) (fg_abs (fst c)))"

lemma run_act:
  assumes calls: "\<forall>cs \<in> set css. \<forall>c \<in> set cs. callable c" and run: "run_at css f0 hs (s, ps)"
    and t: "t < length ps" and act: "fg_act rnd t (ps ! t) s = Some (p, s')"
  obtains hs' where "run_at css f0 (hs @ hs') (s', ps[t := p])"
proof -
  obtain hold where len: "length ps = length css" and ids: "\<forall>e \<in> set hs. fst e < length css"
    and log: "logged eff f0 hs (fg_abs s)" and locks: "fg_inv True hold (s, ps)"
    and at: "\<And>u. u < length css \<Longrightarrow>
      fg_thread_at tol eff op (css ! u) (of_thread u hs) (hold u) (fg_abs s) (ps ! u)"
    and inv: "inv (fg_abs s)" and known: "\<And>u. u < length css \<Longrightarrow> known (of_thread u hs) (fg_abs s)"
    using run by (auto simp: run_at_def fg_explains_def)
  let ?hold = "hold(t := hold_after (ps ! t) (hold t))"
  note locks' = fg_inv_act [OF locks t act]
  have mine: "\<forall>c \<in> set (css ! t). callable c" using calls t len nth_mem by metis
  have t': "t < length css" using t len by simp
  have excl: "hold u \<noteq> Some (x, mutex_of b)" if "hold t = Some (True, mutex_of b)" "u \<noteq> t" for u x b
    using lock_table_excl [of hold _ t "mutex_of b" u x, OF _ that(1)] locks that(2) by (auto simp: fg_inv_def)
  show thesis
  proof (rule thread_act [OF inv known [OF t'] mine at [OF t'] act])
    assume same: "fg_abs s' = fg_abs s"
      "fg_thread_at tol eff op (css ! t) (of_thread t hs) (hold_after (ps ! t) (hold t)) (fg_abs s) p"
    then have "run_at css f0 (hs @ []) (s', ps[t := p])"
      using len ids log at locks' t inv known unfolding run_at_def fg_explains_def
      by (auto simp: nth_list_update intro!: exI [of _ ?hold])
    then show thesis by (rule that)
  next
    fix c r
    assume does: "eff (of_thread t hs) c (fg_abs s) r (fg_abs s')"
      and next_at: "fg_thread_at tol eff op (css ! t) (of_thread t hs @ [(c, r)]) (hold_after (ps ! t) (hold t))
        (fg_abs s') p"
      and others: "\<And>h'. (\<And>x b. hold t = Some (True, mutex_of b) \<Longrightarrow> h' \<noteq> Some (x, mutex_of b)) \<Longrightarrow>
        tol h' (fg_abs s) (fg_abs s')"
    have later: "tol (hold u) (fg_abs s) (fg_abs s')" if "u \<noteq> t" for u
      by (rule others) (use excl that in blast)
    have "tol None (fg_abs s) (fg_abs s')" by (rule others) simp
    then have inv': "inv (fg_abs s')" by (rule tol_inv)
    have "known (of_thread u (hs @ [(t, c, r)])) (fg_abs s')" if "u < length css" for u
      using known_eff [OF known [OF t'] does] known_later [OF inv known [OF that] later [of u]] by (cases "t = u") auto
    moreover have "logged eff f0 (hs @ [(t, c, r)]) (fg_abs s')" by (rule logged_snoc [OF log does])
    ultimately have "run_at css f0 (hs @ [(t, c, r)]) (s', ps[t := p])"
      using len ids at locks' t next_at inv' thread_later [OF at later] unfolding run_at_def fg_explains_def
      by (auto simp: nth_list_update intro!: exI [of _ ?hold])
    then show thesis by (rule that)
  qed
qed

lemma run_exec:
  assumes "\<forall>cs \<in> set css. \<forall>c \<in> set cs. callable c" "run_at css f0 hs c" "fg_exec rnd sched c = Some d"
  shows "\<exists>hs'. run_at css f0 (hs @ hs') d"
  using assms(2,3)
proof (induction sched arbitrary: hs c)
  case Nil
  then show ?case by (intro exI [of _ "[]"]) simp
next
  case (Cons t sched)
  obtain s ps where c: "c = (s, ps)" by force
  from Cons.prems(2) obtain p s' where act: "t < length ps" "fg_act rnd t (ps ! t) s = Some (p, s')"
    and rest: "fg_exec rnd sched (s', ps[t := p]) = Some d"
    by (auto simp: c split: if_splits option.splits)
  obtain hs1 where "run_at css f0 (hs @ hs1) (s', ps[t := p])"
    by (rule run_act [OF assms(1) Cons.prems(1) [unfolded c] act])
  from Cons.IH [OF this rest] show ?case by auto
qed

lemma run_start:
  assumes "\<forall>cs \<in> set css. \<forall>c \<in> set cs. callable c" "quiet s" "inv (fg_abs s)" "known [] (fg_abs s)"
    and "\<forall>cs \<in> set css. disciplined True None (fg_calls op [] cs)"
  shows "run_at css (fg_abs s) [] (s, map (fg_calls op []) css)"
proof -
  have "fg_thread_at tol eff op (css ! t) [] None (fg_abs s) (fg_calls op [] (css ! t))" if "t < length css" for t
    using thread_begin [OF assms(3,4), of "css ! t" "css ! t"] assms(1) nth_mem [OF that] by simp
  moreover have "fg_inv True (\<lambda>_. None) (s, map (fg_calls op []) css)"
    using assms(2,5) by (auto simp: fg_inv_def lock_table_def quiet_def)
  ultimately show ?thesis
    using assms(3,4)
    by (auto simp: run_at_def fg_explains_def of_thread_def intro: logged_Nil intro!: exI [of _ "\<lambda>_. None"])
qed

end

section \<open>Scans over the buckets\<close>

text \<open>\<open>J n\<close> is what the scan knows when it has passed the slots below \<open>n\<close>.\<close>

lemma settles_scan:
  assumes tol: "\<And>f f'. tol h f f' \<Longrightarrow> ok f'" "\<And>n f f'. J n f \<Longrightarrow> tol h f f' \<Longrightarrow> J n f'"
    and hit: "\<And>i f. ok f \<Longrightarrow> J i f \<Longrightarrow> i < NUM_ITEMS_PER_ENTRY \<Longrightarrow> P (cell (seq_hash_table f) (unat b) i) \<Longrightarrow>
      comes_to tol eff (hit i) h f"
    and pass: "\<And>i f. J i f \<Longrightarrow> i < NUM_ITEMS_PER_ENTRY \<Longrightarrow> \<not> P (cell (seq_hash_table f) (unat b) i) \<Longrightarrow> J (Suc i) f"
    and miss: "\<And>f. ok f \<Longrightarrow> J NUM_ITEMS_PER_ENTRY f \<Longrightarrow> comes_to tol eff miss h f"
    and start: "J 0 f" "ok f"
  shows "settles tol eff (fg_scan [0..<NUM_ITEMS_PER_ENTRY] P b hit miss) h f"
proof -
  have scan: "comes_to tol eff (fg_scan [n..<NUM_ITEMS_PER_ENTRY] P b hit miss) h f"
    if "n \<le> NUM_ITEMS_PER_ENTRY" "J n f" "ok f" for n f
    using that
  proof (induction "NUM_ITEMS_PER_ENTRY - n" arbitrary: n f)
    case 0
    then show ?case using miss by simp
  next
    case (Suc d)
    then have n: "n < NUM_ITEMS_PER_ENTRY" by simp
    have "comes_to tol eff (if P (cell (seq_hash_table f') (unat b) n) then hit n
        else fg_scan [Suc n..<NUM_ITEMS_PER_ENTRY] P b hit miss) h f'" if "tol h f f'" for f'
      using hit [OF tol(1) [OF that] tol(2) [OF Suc.prems(2) that] n]
        Suc.hyps(1) [of "Suc n" f'] Suc.hyps(2) n tol(1) [OF that] pass tol(2) [OF Suc.prems(2) that] by simp
    then show ?case using n by (simp add: upt_conv_Cons comes_to_def)
  qed
  from scan [OF _ start] show ?thesis by (simp add: comes_to_def answered_def upt_conv_Cons)
qed

text \<open>All three operations: one bucket after the other.\<close>

lemma settles_buckets:
  assumes tol: "\<And>h f f'. tol h f f' \<Longrightarrow> ok f'" "\<And>h n f f'. J1 n f \<Longrightarrow> tol h f f' \<Longrightarrow> J1 n f'"
      "\<And>h n f f'. J2 n f \<Longrightarrow> tol h f f' \<Longrightarrow> J2 n f'"
    and hit1: "\<And>i f. ok f \<Longrightarrow> J1 i f \<Longrightarrow> i < NUM_ITEMS_PER_ENTRY \<Longrightarrow> P (cell (seq_hash_table f) (unat b1) i) \<Longrightarrow>
      comes_to tol eff (hit1 i) (Some (x, mutex_of b1)) f"
    and pass1: "\<And>i f. J1 i f \<Longrightarrow> i < NUM_ITEMS_PER_ENTRY \<Longrightarrow> \<not> P (cell (seq_hash_table f) (unat b1) i) \<Longrightarrow> J1 (Suc i) f"
    and between: "\<And>f. ok f \<Longrightarrow> J1 NUM_ITEMS_PER_ENTRY f \<Longrightarrow> J2 0 f"
    and hit2: "\<And>i f. ok f \<Longrightarrow> J2 i f \<Longrightarrow> i < NUM_ITEMS_PER_ENTRY \<Longrightarrow> P (cell (seq_hash_table f) (unat b2) i) \<Longrightarrow>
      comes_to tol eff (hit2 i) (Some (x, mutex_of b2)) f"
    and pass2: "\<And>i f. J2 i f \<Longrightarrow> i < NUM_ITEMS_PER_ENTRY \<Longrightarrow> \<not> P (cell (seq_hash_table f) (unat b2) i) \<Longrightarrow> J2 (Suc i) f"
    and miss: "\<And>f. ok f \<Longrightarrow> J2 NUM_ITEMS_PER_ENTRY f \<Longrightarrow> comes_to tol eff miss (Some (x, mutex_of b2)) f"
    and start: "J1 0 f"
  shows "settles tol eff
    (FLock x (mutex_of b1)
      (fg_scan [0..<NUM_ITEMS_PER_ENTRY] P b1 hit1
        (FUnlock x (mutex_of b1)
          (FLock x (mutex_of b2)
            (fg_scan [0..<NUM_ITEMS_PER_ENTRY] P b2 hit2 miss))))) None f"
proof -
  let ?scan2 = "fg_scan [0..<NUM_ITEMS_PER_ENTRY] P b2 hit2 miss"
  have two: "settles tol eff ?scan2 (Some (x, mutex_of b2)) f" if "J2 0 f" "ok f" for f
    by (rule settles_scan [where J = J2]) (fact tol hit2 pass2 miss that)+
  have "comes_to tol eff (FUnlock x (mutex_of b1) (FLock x (mutex_of b2) ?scan2)) (Some (x, mutex_of b1)) f"
    if "ok f" "J1 NUM_ITEMS_PER_ENTRY f" for f
  proof -
    have "settles tol eff ?scan2 (Some (x, mutex_of b2)) f''" if "tol (Some (x, mutex_of b1)) f f'" "tol None f' f''" for f' f''
      by (rule two [OF tol(3) [OF tol(3) [OF between] that(2)] tol(1) [OF that(2)]]) (fact \<open>ok f\<close> \<open>J1 NUM_ITEMS_PER_ENTRY f\<close> that)+
    then show ?thesis by (simp add: comes_to_def)
  qed
  then have "settles tol eff (fg_scan [0..<NUM_ITEMS_PER_ENTRY] P b1 hit1
      (FUnlock x (mutex_of b1) (FLock x (mutex_of b2) ?scan2))) (Some (x, mutex_of b1)) f"
    if "J1 0 f" "ok f" for f
    by (rule settles_scan [where J = J1, rotated 4]) (fact tol hit1 pass1 that | assumption)+
  then show ?thesis using tol start by simp
qed

end
