(* ===== verification/Fine_Grained_Linear.thy ===== *)
theory Fine_Grained_Linear
  imports Fine_Grained_Logic
begin

text \<open>
  Threads that call \<open>find\<close> and \<open>remove\<close> on one \<open>FineGrainedFilter\<close> are linearizable: each call takes
  effect at one of its actions. A \<open>find\<close> does at the read that meets the fingerprint, a \<open>remove\<close> at
  the write that clears the slot, both at their last read if the fingerprint is not there. Until
  then it is enough for a thread that the others only clear slots, and none in a bucket whose
  mutex it holds.
\<close>

section \<open>What a thread tolerates\<close>

definition tolerates :: "u32 \<Rightarrow> (bool \<times> nat) option \<Rightarrow> seq_filter \<Rightarrow> seq_filter \<Rightarrow> bool" where
  "tolerates ts h f f' \<longleftrightarrow> seq_inv ts f' \<and>
     (\<forall>b < ts. \<forall>i < NUM_ITEMS_PER_ENTRY.
        cell (seq_hash_table f') (unat b) i = cell (seq_hash_table f) (unat b) i \<or>
        cell (seq_hash_table f') (unat b) i = [] \<and> (\<forall>x. h \<noteq> Some (x, mutex_of b)))"

lemma tolerates_refl: "seq_inv ts f \<Longrightarrow> tolerates ts h f f"
  by (simp add: tolerates_def)

lemma tolerates_trans: "tolerates ts h f f' \<Longrightarrow> tolerates ts h f' f'' \<Longrightarrow> tolerates ts h f f''"
  unfolding tolerates_def by metis

lemma tolerates_inv: "tolerates ts h f f' \<Longrightarrow> seq_inv ts f'"
  by (simp add: tolerates_def)

text \<open>Slots of a bucket in which a fingerprint is not.\<close>

definition absent :: "u32 \<Rightarrow> nat \<Rightarrow> bytes \<Rightarrow> seq_filter \<Rightarrow> bool" where
  "absent b n fp f \<longleftrightarrow> (\<forall>i < n. cell (seq_hash_table f) (unat b) i \<noteq> fp)"

lemma absent_later:
  "absent b n fp f \<Longrightarrow> tolerates ts h f f' \<Longrightarrow> fp \<noteq> [] \<Longrightarrow> b < ts \<Longrightarrow> n \<le> NUM_ITEMS_PER_ENTRY \<Longrightarrow>
    absent b n fp f'"
  unfolding absent_def tolerates_def by (metis order_less_le_trans)

lemma absent_slot: "absent b NUM_ITEMS_PER_ENTRY fp f \<longleftrightarrow> slot_of (seq_hash_table f) b fp = None"
  by (simp add: absent_def slot_of_def)

lemma slot_of_first:
  "i < NUM_ITEMS_PER_ENTRY \<Longrightarrow> absent b i fp f \<Longrightarrow> cell (seq_hash_table f) (unat b) i = fp \<Longrightarrow>
    slot_of (seq_hash_table f) b fp = Some i"
  by (simp add: absent_def slot_of_def first_idx_Some_iff)

section \<open>Calls that are going to take effect\<close>

text \<open>A slot of a bucket has been passed by a scan that looks for \<open>fp\<close>.\<close>

lemma absent_Suc: "absent b i fp f \<Longrightarrow> cell (seq_hash_table f) (unat b) i \<noteq> fp \<Longrightarrow> absent b (Suc i) fp f"
  by (auto simp: absent_def less_Suc_eq)

lemma absent_0 [simp]: "absent b 0 fp f"
  by (simp add: absent_def)

lemma settles_search:
  assumes fp: "fp \<noteq> []" "b1 < ts" "b2 < ts" and P: "\<And>s. P s \<longleftrightarrow> s = fp"
    and hit1: "\<And>i f. seq_inv ts f \<Longrightarrow> i < NUM_ITEMS_PER_ENTRY \<Longrightarrow> absent b1 i fp f \<Longrightarrow>
      cell (seq_hash_table f) (unat b1) i = fp \<Longrightarrow> comes_to (tolerates ts) eff (hit1 i) (Some (x, mutex_of b1)) f"
    and hit2: "\<And>i f. seq_inv ts f \<Longrightarrow> i < NUM_ITEMS_PER_ENTRY \<Longrightarrow> absent b1 NUM_ITEMS_PER_ENTRY fp f \<Longrightarrow>
      absent b2 i fp f \<Longrightarrow> cell (seq_hash_table f) (unat b2) i = fp \<Longrightarrow>
      comes_to (tolerates ts) eff (hit2 i) (Some (x, mutex_of b2)) f"
    and miss: "\<And>f. seq_inv ts f \<Longrightarrow> absent b1 NUM_ITEMS_PER_ENTRY fp f \<Longrightarrow> absent b2 NUM_ITEMS_PER_ENTRY fp f \<Longrightarrow>
      comes_to (tolerates ts) eff miss (Some (x, mutex_of b2)) f"
  shows "settles (tolerates ts) eff
    (FLock x (mutex_of b1)
      (fg_scan [0..<NUM_ITEMS_PER_ENTRY] P b1 hit1
        (FUnlock x (mutex_of b1)
          (FLock x (mutex_of b2)
            (fg_scan [0..<NUM_ITEMS_PER_ENTRY] P b2 hit2 miss))))) None f"
proof (rule settles_buckets [where ok = "seq_inv ts"
    and ?J1.0 = "\<lambda>n f. n \<le> NUM_ITEMS_PER_ENTRY \<and> absent b1 n fp f"
    and ?J2.0 = "\<lambda>n f. n \<le> NUM_ITEMS_PER_ENTRY \<and> absent b1 NUM_ITEMS_PER_ENTRY fp f \<and> absent b2 n fp f"])
  show "seq_inv ts f'" if "tolerates ts h f f'" for h f f' using that by (simp add: tolerates_def)
  fix h n f f' assume "tolerates ts h f f'"
  note later = absent_later [OF _ this fp(1)]
  show "n \<le> NUM_ITEMS_PER_ENTRY \<and> absent b1 n fp f'" if "n \<le> NUM_ITEMS_PER_ENTRY \<and> absent b1 n fp f"
    using that later fp(2) by blast
  show "n \<le> NUM_ITEMS_PER_ENTRY \<and> absent b1 NUM_ITEMS_PER_ENTRY fp f' \<and> absent b2 n fp f'"
    if "n \<le> NUM_ITEMS_PER_ENTRY \<and> absent b1 NUM_ITEMS_PER_ENTRY fp f \<and> absent b2 n fp f"
    using that later fp(2,3) order_refl by blast
qed (use P hit1 hit2 miss absent_Suc in auto)

lemma settles_find:
  assumes "seq_inv ts f" "md5_fingerprint evp k \<noteq> []"
  shows "settles (tolerates ts) (call_does evp (FindKey k)) (fg_find evp ts k) None f"
proof -
  let ?fp = "md5_fingerprint evp k" and ?b1 = "jenkins_hash k mod ts"
  let ?b2 = "get_next_hash_index ts ?b1 ?fp"
  have ts: "ts \<noteq> 0" using assms(1) by (simp add: seq_inv_def)
  have found: "seq_fnd evp k f True f" if "seq_inv ts f"
    "slot_of (seq_hash_table f) ?b1 ?fp \<noteq> None \<or> slot_of (seq_hash_table f) ?b2 ?fp \<noteq> None" for f
    using seq_find_result [OF that(1), of evp k] that(2) by (simp add: seq_fnd_def)
  have lost: "seq_fnd evp k f False f" if "seq_inv ts f"
    "slot_of (seq_hash_table f) ?b1 ?fp = None" "slot_of (seq_hash_table f) ?b2 ?fp = None" for f
    using seq_find_result [OF that(1), of evp k] that(2,3) by (simp add: seq_fnd_def)
  then show ?thesis
    unfolding fg_find_def Let_def fg_next_eq if_not_P [OF ts]
    by (intro settles_search [where fp = ?fp] comes_to_answer)
      (use assms(2) ts hash_mod_less get_next_hash_index_less found lost slot_of_first absent_slot in auto)
qed

lemma seq_remove_hit:
  assumes "seq_inv ts f" "md5_fingerprint evp k \<noteq> []"
  defines "fp \<equiv> md5_fingerprint evp k" and "b1 \<equiv> jenkins_hash k mod ts"
  shows "slot_of (seq_hash_table f) b1 fp = Some i \<Longrightarrow> seq_del evp k f True (seq_put b1 i [] f)"
    and "slot_of (seq_hash_table f) b1 fp = None \<Longrightarrow>
      slot_of (seq_hash_table f) (get_next_hash_index ts b1 fp) fp = Some i \<Longrightarrow>
      seq_del evp k f True (seq_put (get_next_hash_index ts b1 fp) i [] f)"
    and "slot_of (seq_hash_table f) b1 fp = None \<Longrightarrow>
      slot_of (seq_hash_table f) (get_next_hash_index ts b1 fp) fp = None \<Longrightarrow> seq_del evp k f False f"
proof -
  have *: "seq_mtx f = False" "seq_table_size f = ts" "ts \<noteq> 0" using assms(1) by (auto simp: seq_inv_def)
  have "seq_unlock (f\<lparr>seq_mtx := True\<rparr>) = f" "seq_unlock (seq_put b i [] (f\<lparr>seq_mtx := True\<rparr>)) = seq_put b i [] f" for b i
    using *(1) by (simp_all add: seq_unlock_def seq_put_def)
  note simps = this * seq_del_def seq_remove_def Let_def nonempty_slot_of_eq [OF assms(2)]
  show "slot_of (seq_hash_table f) b1 fp = Some i \<Longrightarrow> seq_del evp k f True (seq_put b1 i [] f)"
    "slot_of (seq_hash_table f) b1 fp = None \<Longrightarrow>
      slot_of (seq_hash_table f) (get_next_hash_index ts b1 fp) fp = Some i \<Longrightarrow>
      seq_del evp k f True (seq_put (get_next_hash_index ts b1 fp) i [] f)"
    "slot_of (seq_hash_table f) b1 fp = None \<Longrightarrow>
      slot_of (seq_hash_table f) (get_next_hash_index ts b1 fp) fp = None \<Longrightarrow> seq_del evp k f False f"
    unfolding fp_def b1_def by (simp_all add: simps)
qed

text \<open>What is in a bucket whose mutex is held stays there.\<close>

lemma tolerates_held:
  assumes "tolerates ts (Some (x, mutex_of b)) f f'" "b < ts" "i < NUM_ITEMS_PER_ENTRY"
  shows "cell (seq_hash_table f') (unat b) i = cell (seq_hash_table f) (unat b) i"
  using assms unfolding tolerates_def by metis

lemma tolerates_clear:
  assumes "seq_inv ts f" "b < ts" "i < NUM_ITEMS_PER_ENTRY" "\<And>x. h \<noteq> Some (x, mutex_of b)"
  shows "tolerates ts h f (seq_put b i [] f)"
proof -
  have tab: "table_ok ts (seq_hash_table f)" using assms(1) by (simp add: seq_inv_def)
  have "seq_inv ts (seq_put b i [] f)" using assms(1) by (simp add: seq_inv_def)
  moreover have "cell (seq_hash_table (seq_put b i [] f)) (unat b') i' = cell (seq_hash_table f) (unat b') i' \<or>
      cell (seq_hash_table (seq_put b i [] f)) (unat b') i' = [] \<and> b' = b" for b' i'
    by (auto simp: cell_put [OF tab assms(2,3)] word_unat_eq_iff)
  ultimately show ?thesis
    using assms(4) unfolding tolerates_def by blast
qed

lemma settles_remove:
  assumes "seq_inv ts f" "md5_fingerprint evp k \<noteq> []"
  shows "settles (tolerates ts) (call_does evp (RemoveKey k)) (fg_remove evp ts k) None f"
proof -
  let ?fp = "md5_fingerprint evp k" and ?b1 = "jenkins_hash k mod ts"
  let ?b2 = "get_next_hash_index ts ?b1 ?fp"
  have ts: "ts \<noteq> 0" using assms(1) by (simp add: seq_inv_def)
  then have less: "?b1 < ts" "?b2 < ts" using hash_mod_less get_next_hash_index_less by blast+
  have clears: "comes_to (tolerates ts) (call_does evp (RemoveKey k))
      (FWrite b i [] (FUnlock True m (FRet True))) (Some (True, mutex_of b)) f"
    if "b < ts" "i < NUM_ITEMS_PER_ENTRY"
      "\<And>f'. tolerates ts (Some (True, mutex_of b)) f f' \<Longrightarrow> seq_del evp k f' True (seq_put b i [] f')" for b i m f
    using that by (intro comes_to_write tolerates_clear) (auto simp: tolerates_def)
  have slot: "slot_of (seq_hash_table f') b ?fp = Some i"
    if "tolerates ts (Some (True, mutex_of b)) f f'" "b < ts" "i < NUM_ITEMS_PER_ENTRY" "absent b i ?fp f"
      "cell (seq_hash_table f) (unat b) i = ?fp" for f f' b i
    using absent_later [OF that(4,1) assms(2) that(2)] tolerates_held [OF that(1-3)] that(3,5)
    by (intro slot_of_first) auto
  have gone: "slot_of (seq_hash_table f') b ?fp = None"
    if "tolerates ts h f f'" "b < ts" "absent b NUM_ITEMS_PER_ENTRY ?fp f" for f f' b h
    using absent_later [OF that(3,1) assms(2) that(2)] by (simp add: absent_slot)
  have inv: "seq_inv ts f'" if "tolerates ts h f f'" for f f' h using that by (simp add: tolerates_def)
  show ?thesis
    unfolding fg_remove_def Let_def fg_next_eq if_not_P [OF ts]
  proof (rule settles_search [where fp = ?fp])
    fix i f assume "seq_inv ts f" "i < NUM_ITEMS_PER_ENTRY" "absent ?b1 i ?fp f" "cell (seq_hash_table f) (unat ?b1) i = ?fp"
    then show "comes_to (tolerates ts) (call_does evp (RemoveKey k)) (FWrite ?b1 i [] (FUnlock True (mutex_of ?b1) (FRet True)))
        (Some (True, mutex_of ?b1)) f"
      using less slot inv seq_remove_hit(1) assms(2) by (intro clears) blast+
  next
    fix i f assume "seq_inv ts f" "i < NUM_ITEMS_PER_ENTRY" "absent ?b1 NUM_ITEMS_PER_ENTRY ?fp f"
      "absent ?b2 i ?fp f" "cell (seq_hash_table f) (unat ?b2) i = ?fp"
    then show "comes_to (tolerates ts) (call_does evp (RemoveKey k)) (FWrite ?b2 i [] (FUnlock True (mutex_of ?b2) (FRet True)))
        (Some (True, mutex_of ?b2)) f"
      using less slot gone inv seq_remove_hit(2) assms(2) by (intro clears) blast+
  next
    fix f assume "seq_inv ts f" "absent ?b1 NUM_ITEMS_PER_ENTRY ?fp f" "absent ?b2 NUM_ITEMS_PER_ENTRY ?fp f"
    then show "comes_to (tolerates ts) (call_does evp (RemoveKey k)) (FUnlock True (mutex_of ?b2) (FRet False)) (Some (True, mutex_of ?b2)) f"
      using seq_remove_hit(3) [OF _ assms(2)] by (intro comes_to_answer) (simp add: absent_slot)
  qed (use assms(2) less in auto)
qed

section \<open>Threads\<close>

definition fg_linear :: "evp_digest \<Rightarrow> filter_call list list \<Rightarrow> seq_filter \<Rightarrow> call_log \<Rightarrow> bool list fg_conf \<Rightarrow> bool" where
  "fg_linear evp css f0 hs c \<longleftrightarrow> fg_explains (tolerates (seq_table_size f0)) (\<lambda>_. call_does evp)
     (fg_op evp (seq_table_size f0)) css f0 hs c \<and> seq_inv (seq_table_size f0) (fg_abs (fst c))"

interpretation linear: fg_logic "seq_inv ts" "tolerates ts" "\<lambda>_. call_does evp" "\<lambda>_ _. True" "fg_op evp ts"
    "\<lambda>c. evp_md5_ok evp \<and> \<not> is_insert c" for evp ts
proof unfold_locales
  fix f c assume "seq_inv ts f" "evp_md5_ok evp \<and> \<not> is_insert c"
  then show "settles (tolerates ts) (call_does evp c) (fg_op evp ts c) None f"
    using md5_fingerprint_nonempty [of evp] by (cases c) (simp_all add: settles_find settles_remove)
qed (erule tolerates_refl tolerates_inv | erule (1) tolerates_trans | rule TrueI)+

lemma logged_history: "logged (\<lambda>_. call_does evp) f0 hs f \<Longrightarrow> seq_history evp f0 hs f"
proof (induction rule: logged.induct)
  case logged_Nil
  then show ?case by (simp add: calls_of_def history_Nil)
qed (rule history_snoc)

lemma fg_linear_start:
  assumes "evp_md5_ok evp" "quiet s" "seq_inv ts (fg_abs s)" "\<forall>cs \<in> set css. \<forall>c \<in> set cs. \<not> is_insert c"
  shows "fg_linear evp css (fg_abs s) [] (fg_start evp s css)"
proof -
  have ts: "fg_table_size s = ts" using assms(3) by (simp add: seq_inv_def)
  have "\<forall>cs \<in> set css. disciplined True None (fg_calls (fg_op evp ts) [] cs)"
    using assms(4) by (auto simp: fg_client_calls [symmetric] intro: disciplined_client)
  with linear.run_start [of css evp s ts] assms show ?thesis
    by (simp add: fg_linear_def linear.run_at_def fg_start_calls ts)
qed

lemma fg_linear_exec:
  assumes "evp_md5_ok evp" "\<forall>cs \<in> set css. \<forall>c \<in> set cs. \<not> is_insert c"
    and "fg_linear evp css f0 hs c" "fg_exec rnd sched c = Some d"
  shows "\<exists>hs'. fg_linear evp css f0 (hs @ hs') d"
  using linear.run_exec [of css evp "seq_table_size f0" f0 hs c rnd sched d] assms
  by (auto simp: fg_linear_def linear.run_at_def)

lemma fg_linear_history: "fg_linear evp css f0 hs c \<Longrightarrow> seq_history evp f0 hs (fg_abs (fst c))"
  by (simp add: fg_linear_def fg_explains_def logged_history)

section \<open>A concrete run\<close>

text \<open>
  Thread 1 looks for key 0, which is not there, and has scanned half of bucket 0 when thread 0 comes
  to look for key 8; both hold its mutex shared.
\<close>

definition fg_turns :: "nat list" where
  "fg_turns = [1, 1, 1, 0, 0, 0]"

definition fg_queries :: "filter_call list list" where
  "fg_queries = [[FindKey [8]], [FindKey [0], RemoveKey [8]]]"

lemma fg_full_inv: "seq_inv 2 (fg_abs fg_full)"
  by (auto simp: seq_inv_def fg_abs_def fg_full_def table_ok_def rect_def NUM_ITEMS_PER_ENTRY_def)

lemma fg_queries_run:
  "\<exists>s ps. fg_exec (\<lambda>_. 0) fg_turns (fg_start pad_evp fg_full fg_queries) = Some (s, ps) \<and>
     ps ! 0 = FRet [True]"
  supply fg_lazy(1-4,6,7) [cong]
  by (simp add: fg_turns_def fg_queries_def fg_eval demo_lists)

section \<open>Properties\<close>

text \<open>
  C16. The fine-grained filter is linearizable as long as nobody inserts: under every schedule of
  \<open>find\<close> and \<open>remove\<close> calls there is a log that orders them such that, with the answers the threads
  get, it is a history of the sequential operations which leads to the current table. The log has
  each thread's calls in its order and only grows, so that a call that has returned before another
  one begins also precedes it in the log.
\<close>

theorem fg_find_remove_linearizable:
  assumes "evp_md5_ok evp" "quiet s" "seq_inv ts (fg_abs s)" "\<forall>cs \<in> set css. \<forall>c \<in> set cs. \<not> is_insert c"
    and "fg_exec rnd us (fg_start evp s css) = Some c" "fg_exec rnd vs c = Some (s', ps)"
  shows "\<exists>hs hs'. fg_linear evp css (fg_abs s) hs c \<and> fg_linear evp css (fg_abs s) (hs @ hs') (s', ps) \<and>
    seq_history evp (fg_abs s) (hs @ hs') (fg_abs s') \<and>
    (\<forall>t < length css. \<forall>rs. ps ! t = FRet rs \<longrightarrow> of_thread t (hs @ hs') = zip (css ! t) rs)"
proof -
  obtain hs where hs: "fg_linear evp css (fg_abs s) hs c"
    using fg_linear_exec [OF assms(1,4) fg_linear_start [OF assms(1-4)] assms(5)] by auto
  obtain hs' where hs': "fg_linear evp css (fg_abs s) (hs @ hs') (s', ps)"
    using fg_linear_exec [OF assms(1,4) hs assms(6)] by blast
  then show ?thesis
    using hs fg_linear_history [OF hs'] fg_explains_ended(1) [of _ _ _ css _ "hs @ hs'" s' ps]
    unfolding fg_linear_def by fastforce
qed

lemma fg_find_remove_linearizable_witness:
  "\<exists>s ps hs. fg_exec (\<lambda>_. 0) fg_turns (fg_start pad_evp fg_full fg_queries) = Some (s, ps) \<and>
     seq_history pad_evp (fg_abs fg_full) hs (fg_abs s) \<and> of_thread 0 hs = [(FindKey [8], True)]"
proof -
  obtain s ps where run: "fg_exec (\<lambda>_. 0) fg_turns (fg_start pad_evp fg_full fg_queries) = Some (s, ps)"
    and ps: "ps ! 0 = FRet [True]"
    using fg_queries_run by blast
  have "\<forall>cs \<in> set fg_queries. \<forall>c \<in> set cs. \<not> is_insert c" by (simp add: fg_queries_def)
  from fg_find_remove_linearizable [OF pad_evp_ok quiet_fg_full fg_full_inv this _ run, where us = "[]"]
  obtain hs hs' where "seq_history pad_evp (fg_abs fg_full) (hs @ hs') (fg_abs s)"
    "\<forall>t < length fg_queries. \<forall>rs. ps ! t = FRet rs \<longrightarrow> of_thread t (hs @ hs') = zip (fg_queries ! t) rs"
    by auto
  moreover from this(2) ps have "of_thread 0 (hs @ hs') = zip (fg_queries ! 0) [True]" by (simp add: fg_queries_def)
  ultimately show ?thesis using run by (intro exI [of _ s] exI [of _ ps] exI [of _ "hs @ hs'"]) (auto simp: fg_queries_def)
qed

end
