(* ===== verification/Fine_Grained_Overlap.thy ===== *)
theory Fine_Grained_Overlap
  imports Fine_Grained_Logic
begin

text \<open>
  Threads that call \<open>insert\<close>, \<open>find\<close> and \<open>remove\<close> on one \<open>FineGrainedFilter\<close> at the same time, as long as
  no insertion has begun to evict, which its first call of \<open>rand\<close> would show. There is no data race
  then, nothing is lost or duplicated, and queries miss nothing that nobody removes.
\<close>

section \<open>Programs that stop where they would evict\<close>

primrec calm :: "'a fg_prog \<Rightarrow> 'a fg_prog" where
  "calm (FRet a) = FRet a"
| "calm FDivByZero = FDivByZero"
| "calm (FLock x m p) = FLock x m (calm p)"
| "calm (FUnlock x m p) = FUnlock x m (calm p)"
| "calm (FRead b i k) = FRead b i (\<lambda>v. calm (k v))"
| "calm (FWrite b i v p) = FWrite b i v (calm p)"
| "calm (FRand k) = FDivByZero"

lemma calm_bind: "calm (fg_bind p f) = fg_bind (calm p) (\<lambda>a. calm (f a))"
  by (induction p) auto

lemma calm_scan: "calm (fg_scan is P b hit miss) = fg_scan is P b (\<lambda>i. calm (hit i)) (calm miss)"
  by (induction "is") auto

lemma calm_calls: "calm (fg_calls op rs cs) = fg_calls (\<lambda>c. calm (op c)) rs cs"
  by (induction cs arbitrary: rs) (simp_all add: calm_bind)

lemma calm_FRet [simp]: "calm p = FRet a \<longleftrightarrow> p = FRet a"
  by (cases p) auto

lemma next_access_calm [simp]: "next_access (calm p) = next_access p"
  by (cases p) auto

lemma fg_act_rand: "fg_act rnd t p s = Some (p', s') \<Longrightarrow> fg_rand s \<le> fg_rand s'"
  by (cases p) (auto split: if_splits)

lemma fg_act_calm:
  "fg_act rnd t p s = Some (p', s') \<Longrightarrow> fg_rand s' = fg_rand s \<Longrightarrow> fg_act rnd t (calm p) s = Some (calm p', s')"
  by (cases p) (auto split: if_splits)

lemma fg_exec_rand: "fg_exec rnd sched (s, ps) = Some (s', ps') \<Longrightarrow> fg_rand s \<le> fg_rand s'"
proof (induction sched arbitrary: s ps)
  case (Cons t sched)
  then show ?case by (force split: if_splits option.splits dest: fg_act_rand intro: le_trans)
qed simp

lemma fg_exec_calm:
  "fg_exec rnd sched (s, ps) = Some (s', ps') \<Longrightarrow> fg_rand s' = fg_rand s \<Longrightarrow>
    fg_exec rnd sched (s, map calm ps) = Some (s', map calm ps')"
proof (induction sched arbitrary: s ps)
  case (Cons t sched)
  then obtain p s1 where act: "t < length ps" "fg_act rnd t (ps ! t) s = Some (p, s1)"
    and rest: "fg_exec rnd sched (s1, ps[t := p]) = Some (s', ps')"
    by (auto split: if_splits option.splits)
  have "fg_rand s1 = fg_rand s" "fg_rand s' = fg_rand s1"
    using fg_act_rand [OF act(2)] fg_exec_rand [OF rest] Cons.prems(2) by simp_all
  with fg_act_calm [OF act(2)] Cons.IH [OF rest] act(1) show ?case by (simp add: map_update)
qed simp

text \<open>The operations without eviction keep the lock discipline, also at their writes.\<close>

lemma disciplined_calm: "disciplined True None (calm (fg_op evp ts c))"
  by (cases c) (auto simp: fg_insert_def fg_find_def fg_remove_def Let_def calm_scan intro!: disciplined_scan)

lemma disciplined_calls:
  "(\<And>c. disciplined True None (op c)) \<Longrightarrow> disciplined True None (fg_calls op rs cs)"
  by (induction cs arbitrary: rs) (auto intro: disciplined_bind)

section \<open>What a thread tolerates, and the effects of calls\<close>

text \<open>
  The others fill empty slots and clear slots whose items are in \<open>R\<close>, the items that somebody may
  remove, in buckets whose mutex the thread does not hold.
\<close>

definition slot_item :: "u32 \<Rightarrow> seq_filter \<Rightarrow> u32 \<Rightarrow> nat \<Rightarrow> bytes \<times> u32 set" where
  "slot_item ts f b i = (cell (seq_hash_table f) (unat b) i, home ts b (cell (seq_hash_table f) (unat b) i))"

definition allows :: "(bytes \<times> u32 set) set \<Rightarrow> u32 \<Rightarrow> (bool \<times> nat) option \<Rightarrow> seq_filter \<Rightarrow> seq_filter \<Rightarrow> bool" where
  "allows R ts h f f' \<longleftrightarrow> seq_inv ts f' \<and>
     (\<forall>b < ts. \<forall>i < NUM_ITEMS_PER_ENTRY.
        cell (seq_hash_table f') (unat b) i = cell (seq_hash_table f) (unat b) i \<or>
        (cell (seq_hash_table f) (unat b) i = [] \<or> slot_item ts f b i \<in> R) \<and> (\<forall>x. h \<noteq> Some (x, mutex_of b)))"

lemma allows_refl: "seq_inv ts f \<Longrightarrow> allows R ts h f f"
  by (simp add: allows_def)

lemma allows_inv: "allows R ts h f f' \<Longrightarrow> seq_inv ts f'"
  by (simp add: allows_def)

lemma allows_trans: "allows R ts h f f' \<Longrightarrow> allows R ts h f' f'' \<Longrightarrow> allows R ts h f f''"
  unfolding allows_def slot_item_def by metis

lemma allows_held:
  assumes "allows R ts (Some (x, mutex_of b)) f f'" "b < ts" "i < NUM_ITEMS_PER_ENTRY"
  shows "cell (seq_hash_table f') (unat b) i = cell (seq_hash_table f) (unat b) i"
  using assms unfolding allows_def by metis

lemma allows_put:
  assumes "seq_inv ts f" "b < ts" "i < NUM_ITEMS_PER_ENTRY" "\<And>x. h \<noteq> Some (x, mutex_of b)"
    and "cell (seq_hash_table f) (unat b) i = [] \<or> slot_item ts f b i \<in> R"
  shows "allows R ts h f (seq_put b i v f)"
proof -
  have tab: "table_ok ts (seq_hash_table f)" using assms(1) by (simp add: seq_inv_def)
  have "seq_inv ts (seq_put b i v f)" using assms(1) by (simp add: seq_inv_def)
  moreover have "cell (seq_hash_table (seq_put b i v f)) (unat b') i' = cell (seq_hash_table f) (unat b') i' \<or>
      b' = b \<and> i' = i" for b' i'
    by (auto simp: cell_put [OF tab assms(2,3)] word_unat_eq_iff)
  ultimately show ?thesis
    using assms(4,5) unfolding allows_def by blast
qed

text \<open>
  What a thread knows to be stored: what was there when the threads started (\<open>I\<close>) and what it has
  inserted, as far as nobody may remove it.
\<close>

definition stocked :: "evp_digest \<Rightarrow> u32 \<Rightarrow> (bytes \<times> u32 set) set \<Rightarrow> (bytes \<times> u32 set) set \<Rightarrow>
    (filter_call \<times> bool) list \<Rightarrow> (bytes \<times> u32 set) set" where
  "stocked evp ts I R made = (I \<union> {key_item evp ts k | k. (InsertKey k, True) \<in> set made}) - R"

primrec effect :: "evp_digest \<Rightarrow> u32 \<Rightarrow> (bytes \<times> u32 set) set \<Rightarrow> (bytes \<times> u32 set) set \<Rightarrow>
    (filter_call \<times> bool) list \<Rightarrow> filter_call \<Rightarrow> seq_filter \<Rightarrow> bool \<Rightarrow> seq_filter \<Rightarrow> bool" where
  "effect evp ts I R made (InsertKey k) f r f' \<longleftrightarrow>
     r \<and> seq_items f' = add_mset (key_item evp ts k) (seq_items f)"
| "effect evp ts I R made (FindKey k) f r f' \<longleftrightarrow> f' = f \<and>
     (if r then key_item evp ts k \<in># seq_items f else key_item evp ts k \<notin> stocked evp ts I R made)"
| "effect evp ts I R made (RemoveKey k) f r f' \<longleftrightarrow>
     (if r then key_item evp ts k \<in> R \<and> seq_items f = add_mset (key_item evp ts k) (seq_items f') else f' = f)"

lemma stocked_later:
  assumes "stocked evp ts I R made \<subseteq> set_mset (seq_items f)" "seq_table_size f = ts" "allows R ts h f f'"
  shows "stocked evp ts I R made \<subseteq> set_mset (seq_items f')"
proof
  fix z assume z: "z \<in> stocked evp ts I R made"
  then have "z \<notin> R" "z \<in># seq_items f" using assms(1) by (auto simp: stocked_def)
  then obtain b i where "b < ts" "i < NUM_ITEMS_PER_ENTRY" "cell (seq_hash_table f) (unat b) i \<noteq> []"
    "z = slot_item ts f b i"
    unfolding seq_items_def items_def in_contents_iff assms(2) by (auto simp: slot_item_def)
  moreover from this \<open>z \<notin> R\<close> assms(3) have "cell (seq_hash_table f') (unat b) i = cell (seq_hash_table f) (unat b) i"
    unfolding allows_def by blast
  moreover have "seq_table_size f' = ts" using allows_inv [OF assms(3)] by (simp add: seq_inv_def)
  ultimately show "z \<in># seq_items f'"
    unfolding seq_items_def items_def in_contents_iff
    by (auto simp: slot_item_def intro!: exI [of _ b] exI [of _ i])
qed

lemma stocked_effect:
  assumes "stocked evp ts I R made \<subseteq> set_mset (seq_items f)" "effect evp ts I R made c f r f'"
  shows "stocked evp ts I R (made @ [(c, r)]) \<subseteq> set_mset (seq_items f')"
proof (cases c)
  case (RemoveKey k)
  then have "stocked evp ts I R (made @ [(c, r)]) = stocked evp ts I R made" by (simp add: stocked_def)
  moreover have "z \<in># seq_items f'" if "z \<in># seq_items f" "z \<notin> R" for z
    using assms(2) RemoveKey that by (auto split: if_splits)
  moreover have "stocked evp ts I R made \<inter> R = {}" by (auto simp: stocked_def)
  ultimately show ?thesis using assms(1) by blast
qed (use assms in \<open>auto simp: stocked_def\<close>)

section \<open>The operations\<close>

text \<open>The two buckets of a key.\<close>

lemma key_bucket:
  assumes "is_pow2 ts" "b \<in> home ts (jenkins_hash k mod ts) (md5_fingerprint evp k)"
  shows "b < ts" "key_item evp ts k = (md5_fingerprint evp k, home ts b (md5_fingerprint evp k))"
proof -
  have ts: "ts \<noteq> 0" by (rule is_pow2_neq_0 [OF assms(1)])
  show "b < ts" using assms(2) hash_mod_less [OF ts] get_next_hash_index_less [OF ts] by (auto simp: home_def)
  show "key_item evp ts k = (md5_fingerprint evp k, home ts b (md5_fingerprint evp k))"
    using home_member [OF _ assms(2)] assms(1) hash_mod_less [OF ts] by (simp add: key_item_def pow2_index_def)
qed

lemma bucket_items:
  assumes f: "seq_inv ts f" and i: "i < NUM_ITEMS_PER_ENTRY" and pow: "is_pow2 ts"
    and fp: "md5_fingerprint evp k \<noteq> []" and b: "b \<in> home ts (jenkins_hash k mod ts) (md5_fingerprint evp k)"
  shows "cell (seq_hash_table f) (unat b) i = [] \<Longrightarrow>
      seq_items (seq_put b i (md5_fingerprint evp k) f) = add_mset (key_item evp ts k) (seq_items f)"
    and "cell (seq_hash_table f) (unat b) i = md5_fingerprint evp k \<Longrightarrow>
      seq_items f = add_mset (key_item evp ts k) (seq_items (seq_put b i [] f)) \<and>
      slot_item ts f b i = key_item evp ts k \<and> key_item evp ts k \<in># seq_items f"
proof -
  note B = key_bucket [OF pow b]
  have T: "table_ok ts (seq_hash_table f)" "seq_table_size f = ts" using f by (auto simp: seq_inv_def)
  note put = contents_put [OF T(1) B(1) i, of "\<lambda>b fp. {#(fp, home ts b fp)#}"]
  show "seq_items (seq_put b i (md5_fingerprint evp k) f) = add_mset (key_item evp ts k) (seq_items f)"
    if "cell (seq_hash_table f) (unat b) i = []"
    using put [of "md5_fingerprint evp k"] that fp by (simp add: seq_items_def items_def T(2) B(2))
  show "seq_items f = add_mset (key_item evp ts k) (seq_items (seq_put b i [] f)) \<and>
      slot_item ts f b i = key_item evp ts k \<and> key_item evp ts k \<in># seq_items f"
    if "cell (seq_hash_table f) (unat b) i = md5_fingerprint evp k"
  proof -
    have "seq_items f = add_mset (key_item evp ts k) (seq_items (seq_put b i [] f))"
      using put [of "[]"] that fp by (simp add: seq_items_def items_def T(2) B(2))
    then show ?thesis using that by (simp add: slot_item_def B(2))
  qed
qed

lemma calm_insert_settles:
  assumes "is_pow2 ts" "md5_fingerprint evp k \<noteq> []"
  shows "settles (allows R ts) (effect evp ts I R made (InsertKey k)) (calm (fg_insert evp ts k)) None f"
proof -
  let ?fp = "md5_fingerprint evp k" and ?b1 = "jenkins_hash k mod ts"
  have ts: "ts \<noteq> 0" by (rule is_pow2_neq_0 [OF assms(1)])
  have "comes_to (allows R ts) (effect evp ts I R made (InsertKey k))
      (FWrite b i ?fp (FUnlock True m (FRet True))) (Some (True, mutex_of b)) f"
    if b: "b \<in> home ts ?b1 ?fp" and i: "i < NUM_ITEMS_PER_ENTRY" and free: "cell (seq_hash_table f) (unat b) i = []"
    for b i m f
  proof (rule comes_to_write)
    fix f' assume f': "allows R ts (Some (True, mutex_of b)) f f'"
    note B = key_bucket [OF assms(1) b]
    have free': "cell (seq_hash_table f') (unat b) i = []" using allows_held [OF f' B(1) i] free by simp
    then show "effect evp ts I R made (InsertKey k) f' True (seq_put b i ?fp f')"
      using bucket_items(1) [OF allows_inv [OF f'] i assms b] by simp
    show "allows R ts h' f' (seq_put b i ?fp f')" if "\<And>x. h' \<noteq> Some (x, mutex_of b)" for h'
      using allows_put [OF allows_inv [OF f'] B(1) i that] free' by blast
  qed
  then show ?thesis
    unfolding fg_insert_def Let_def fg_next_eq if_not_P [OF ts] calm.simps calm_scan
    by (intro settles_buckets [where ok = "seq_inv ts" and ?J1.0 = "\<lambda>_ _. True" and ?J2.0 = "\<lambda>_ _. True"])
      (auto simp: home_def comes_to_def dest: allows_inv)
qed

lemma calm_remove_settles:
  assumes "is_pow2 ts" "md5_fingerprint evp k \<noteq> []" "key_item evp ts k \<in> R"
  shows "settles (allows R ts) (effect evp ts I R made (RemoveKey k)) (calm (fg_remove evp ts k)) None f"
proof -
  let ?fp = "md5_fingerprint evp k" and ?b1 = "jenkins_hash k mod ts"
  have ts: "ts \<noteq> 0" by (rule is_pow2_neq_0 [OF assms(1)])
  have "comes_to (allows R ts) (effect evp ts I R made (RemoveKey k))
      (FWrite b i [] (FUnlock True m (FRet True))) (Some (True, mutex_of b)) f"
    if b: "b \<in> home ts ?b1 ?fp" and i: "i < NUM_ITEMS_PER_ENTRY" and full: "cell (seq_hash_table f) (unat b) i = ?fp"
    for b i m f
  proof (rule comes_to_write)
    fix f' assume f': "allows R ts (Some (True, mutex_of b)) f f'"
    note B = key_bucket [OF assms(1) b]
    have "cell (seq_hash_table f') (unat b) i = ?fp" using allows_held [OF f' B(1) i] full by simp
    note gone = bucket_items(2) [OF allows_inv [OF f'] i assms(1,2) b this]
    then show "effect evp ts I R made (RemoveKey k) f' True (seq_put b i [] f')" using assms(3) by simp
    show "allows R ts h' f' (seq_put b i [] f')" if "\<And>x. h' \<noteq> Some (x, mutex_of b)" for h'
      using allows_put [OF allows_inv [OF f'] B(1) i that] gone assms(3) by simp
  qed
  moreover have "comes_to (allows R ts) (effect evp ts I R made (RemoveKey k)) (FUnlock True m (FRet False)) h f" for m h f
    by (rule comes_to_answer) simp
  ultimately show ?thesis
    unfolding fg_remove_def Let_def fg_next_eq if_not_P [OF ts] calm.simps calm_scan
    by (intro settles_buckets [where ok = "seq_inv ts" and ?J1.0 = "\<lambda>_ _. True" and ?J2.0 = "\<lambda>_ _. True"])
      (auto simp: home_def dest: allows_inv)
qed

text \<open>A query: where the fingerprint is if the thread knows that the item is stored.\<close>

lemma calm_find_settles:
  assumes "is_pow2 ts" "md5_fingerprint evp k \<noteq> []" "seq_inv ts f"
    and known: "stocked evp ts I R made \<subseteq> set_mset (seq_items f)"
  shows "settles (allows R ts) (effect evp ts I R made (FindKey k)) (calm (fg_find evp ts k)) None f"
proof -
  let ?fp = "md5_fingerprint evp k" and ?b1 = "jenkins_hash k mod ts" and ?z = "key_item evp ts k"
  let ?b2 = "get_next_hash_index ts ?b1 ?fp" and ?known = "?z \<in> stocked evp ts I R made"
  define in_slot where "in_slot (f :: seq_filter) (b :: u32) i \<longleftrightarrow> i < NUM_ITEMS_PER_ENTRY \<and> cell (seq_hash_table f) (unat b) i = ?fp" for f b i
  have ts: "ts \<noteq> 0" by (rule is_pow2_neq_0 [OF assms(1)])
  have home: "?b1 \<in> home ts ?b1 ?fp" "?b2 \<in> home ts ?b1 ?fp" by (simp_all add: home_def)
  have stays: "in_slot f' b i" if "?known" "in_slot f b i" "allows R ts h f f'" "b \<in> home ts ?b1 ?fp" for f f' b i h
  proof -
    have "slot_item ts f b i \<notin> R"
      using that(1,2) key_bucket [OF assms(1) that(4)] by (simp add: in_slot_def slot_item_def stocked_def)
    then show ?thesis
      using that(2,3) assms(2) key_bucket(1) [OF assms(1) that(4)] unfolding in_slot_def allows_def by metis
  qed
  have start: "?known \<longrightarrow> (\<exists>i. in_slot f ?b1 i) \<or> (\<exists>i. in_slot f ?b2 i)"
  proof
    assume ?known
    with known have "?z \<in># items ts (seq_hash_table f)" using assms(3) by (auto simp: seq_items_def seq_inv_def)
    then show "(\<exists>i. in_slot f ?b1 i) \<or> (\<exists>i. in_slot f ?b2 i)"
      unfolding key_item_scan [OF assms(1,2)] by (auto simp: in_slot_def dest: slot_of_SomeD)
  qed
  have pass: "i \<noteq> j" if "in_slot f b j" "cell (seq_hash_table f) (unat b) i \<noteq> ?fp" for f b i j
    using that by (auto simp: in_slot_def)
  have hit: "comes_to (allows R ts) (effect evp ts I R made (FindKey k)) (FUnlock False m (FRet True)) h f"
    if "seq_inv ts f" "i < NUM_ITEMS_PER_ENTRY" "cell (seq_hash_table f) (unat b) i = ?fp" "b \<in> home ts ?b1 ?fp" for b i m h f
    using bucket_items(2) [OF that(1,2) assms(1,2) that(4,3)] by (intro comes_to_answer) simp
  show ?thesis
    unfolding fg_find_def Let_def fg_next_eq if_not_P [OF ts] calm.simps calm_scan
  proof (rule settles_buckets [where ok = "seq_inv ts"
      and ?J1.0 = "\<lambda>n f. ?known \<longrightarrow> (\<exists>i \<ge> n. in_slot f ?b1 i) \<or> (\<exists>i. in_slot f ?b2 i)"
      and ?J2.0 = "\<lambda>n f. ?known \<longrightarrow> (\<exists>i \<ge> n. in_slot f ?b2 i)"])
    show "seq_inv ts f'" if "allows R ts h f f'" for h f f' using that by (rule allows_inv)
    fix h n f f' assume f': "allows R ts h f f'"
    show "?known \<longrightarrow> (\<exists>i \<ge> n. in_slot f' ?b1 i) \<or> (\<exists>i. in_slot f' ?b2 i)"
      if "?known \<longrightarrow> (\<exists>i \<ge> n. in_slot f ?b1 i) \<or> (\<exists>i. in_slot f ?b2 i)"
      using that stays [OF _ _ f' home(1)] stays [OF _ _ f' home(2)] by blast
    show "?known \<longrightarrow> (\<exists>i \<ge> n. in_slot f' ?b2 i)" if "?known \<longrightarrow> (\<exists>i \<ge> n. in_slot f ?b2 i)"
      using that stays [OF _ _ f' home(2)] by blast
  next
    fix f assume "?known \<longrightarrow> (\<exists>i \<ge> NUM_ITEMS_PER_ENTRY. in_slot f ?b1 i) \<or> (\<exists>i. in_slot f ?b2 i)"
    then show "?known \<longrightarrow> (\<exists>i \<ge> 0. in_slot f ?b2 i)" by (auto simp: in_slot_def)
  next
    fix i f assume "?known \<longrightarrow> (\<exists>j \<ge> i. in_slot f ?b1 j) \<or> (\<exists>i. in_slot f ?b2 i)"
      "cell (seq_hash_table f) (unat ?b1) i \<noteq> ?fp"
    then show "?known \<longrightarrow> (\<exists>j \<ge> Suc i. in_slot f ?b1 j) \<or> (\<exists>i. in_slot f ?b2 i)"
      using pass by (metis Suc_leI le_neq_implies_less)
  next
    fix i f assume "?known \<longrightarrow> (\<exists>j \<ge> i. in_slot f ?b2 j)" "cell (seq_hash_table f) (unat ?b2) i \<noteq> ?fp"
    then show "?known \<longrightarrow> (\<exists>j \<ge> Suc i. in_slot f ?b2 j)" using pass by (metis Suc_leI le_neq_implies_less)
  next
    fix f assume "?known \<longrightarrow> (\<exists>i \<ge> NUM_ITEMS_PER_ENTRY. in_slot f ?b2 i)"
    then have "\<not> ?known" by (auto simp: in_slot_def)
    then show "comes_to (allows R ts) (effect evp ts I R made (FindKey k))
        (FUnlock False (mutex_of ?b2) (FRet False)) (Some (False, mutex_of ?b2)) f"
      by (intro comes_to_answer) simp
  qed (use hit home start in auto)
qed

interpretation overlap: fg_logic "seq_inv ts" "allows R ts" "effect evp ts I R"
    "\<lambda>made f. stocked evp ts I R made \<subseteq> set_mset (seq_items f)"
    "\<lambda>c. calm (fg_op evp ts c)"
    "\<lambda>c. evp_md5_ok evp \<and> is_pow2 ts \<and> (\<forall>k. c = RemoveKey k \<longrightarrow> key_item evp ts k \<in> R)" for evp ts I R
proof unfold_locales
  show "allows R ts h f f" if "seq_inv ts f" for h f using that by (rule allows_refl)
  show "allows R ts h f f''" if "allows R ts h f f'" "allows R ts h f' f''" for h f f' f''
    using that by (rule allows_trans)
  show "seq_inv ts f'" if "allows R ts h f f'" for h f f' using that by (rule allows_inv)
  show "stocked evp ts I R made \<subseteq> set_mset (seq_items f')"
    if "seq_inv ts f" "stocked evp ts I R made \<subseteq> set_mset (seq_items f)" "allows R ts h f f'" for made f h f'
    using stocked_later [OF that(2) _ that(3)] that(1) by (simp add: seq_inv_def)
  show "settles (allows R ts) (effect evp ts I R made c) (calm (fg_op evp ts c)) None f"
    if "seq_inv ts f" "stocked evp ts I R made \<subseteq> set_mset (seq_items f)"
      "evp_md5_ok evp \<and> is_pow2 ts \<and> (\<forall>k. c = RemoveKey k \<longrightarrow> key_item evp ts k \<in> R)" for made c f
    using that md5_fingerprint_nonempty [of evp]
    by (cases c) (simp_all add: calm_insert_settles calm_find_settles calm_remove_settles)
qed (rule stocked_effect)

section \<open>Runs without eviction\<close>

text \<open>Successful insertions and removals of a log account for the items.\<close>

lemma logged_items:
  assumes "logged (effect evp ts I R) f0 hs f"
  shows "no_failed_insert (calls_of hs)"
    and "seq_items f + image_mset (key_item evp ts) (removed (calls_of hs)) =
      seq_items f0 + image_mset (key_item evp ts) (inserted (calls_of hs))"
proof -
  have "no_failed_insert (calls_of hs) \<and>
      seq_items f + image_mset (key_item evp ts) (removed (calls_of hs)) =
      seq_items f0 + image_mset (key_item evp ts) (inserted (calls_of hs))"
    using assms
  proof (induction rule: logged.induct)
    case logged_Nil
    then show ?case by (simp add: calls_of_def no_failed_insert_def)
  next
    case (logged_snoc hs f t c r f')
    then show ?case
      by (cases c; cases r) (auto simp: calls_of_def no_failed_insert_def)
  qed
  then show "no_failed_insert (calls_of hs)"
    and "seq_items f + image_mset (key_item evp ts) (removed (calls_of hs)) =
      seq_items f0 + image_mset (key_item evp ts) (inserted (calls_of hs))" by simp_all
qed

text \<open>The log of a run.\<close>

definition fg_overlap_log :: "evp_digest \<Rightarrow> filter_call list list \<Rightarrow> seq_filter \<Rightarrow> call_log \<Rightarrow> bool list fg_conf \<Rightarrow> bool" where
  "fg_overlap_log evp css f hs c \<longleftrightarrow> (let ts = seq_table_size f; R = removable evp ts css in
     fg_explains (allows R ts) (effect evp ts (set_mset (seq_items f)) R) (\<lambda>c. calm (fg_op evp ts c)) css f hs c)"

lemma overlap_log:
  assumes ready: "seq_ready evp ts (fg_abs s)" and q: "quiet s"
    and run: "fg_exec rnd sched (fg_start evp s css) = Some (s', ps)" "fg_rand s' = fg_rand s"
  obtains hs where "fg_overlap_log evp css (fg_abs s) hs (s', map calm ps)" "seq_inv ts (fg_abs s')"
    "\<not> data_race (s', ps)"
proof -
  let ?R = "removable evp ts css" and ?I = "set_mset (seq_items (fg_abs s))"
  let ?op = "\<lambda>c. calm (fg_op evp ts c)"
  have ts: "fg_table_size s = ts" and inv: "seq_inv ts (fg_abs s)" and evp: "evp_md5_ok evp" "is_pow2 ts"
    using ready by (auto simp: seq_ready_def seq_inv_def)
  have callable: "\<forall>cs \<in> set css. \<forall>c \<in> set cs. evp_md5_ok evp \<and> is_pow2 ts \<and>
      (\<forall>k. c = RemoveKey k \<longrightarrow> key_item evp ts k \<in> ?R)"
    using evp by (auto simp: removable_def)
  have "stocked evp ts ?I ?R [] \<subseteq> ?I" by (auto simp: stocked_def)
  from overlap.run_start [OF callable q inv this] disciplined_calls [OF disciplined_calm]
  have start: "overlap.run_at ts ?R evp ?I css (fg_abs s) [] (s, map (fg_calls ?op []) css)" by simp
  have "fg_exec rnd sched (s, map (fg_calls ?op []) css) = Some (s', map calm ps)"
    using fg_exec_calm [OF run(1) [unfolded fg_start_calls] run(2)] by (simp add: calm_calls ts comp_def)
  from overlap.run_exec [OF callable start this] obtain hs where
    "overlap.run_at ts ?R evp ?I css (fg_abs s) hs (s', map calm ps)" by auto
  then have hs: "fg_overlap_log evp css (fg_abs s) hs (s', map calm ps)" "seq_inv ts (fg_abs s')"
    by (simp_all add: overlap.run_at_def fg_overlap_log_def Let_def ts)
  then have "\<not> data_race (s', map calm ps)"
    by (auto simp: fg_overlap_log_def Let_def fg_explains_def dest: fg_inv_no_race)
  then have "\<not> data_race (s', ps)" by (auto simp: data_race_def)
  with hs show thesis by (rule that)
qed

lemma overlap_logD:
  assumes "fg_overlap_log evp css f hs (s', map calm ps)" "seq_table_size f = ts" "length ps = length css"
  shows "no_failed_insert (calls_of hs)"
    and "seq_items (fg_abs s') + image_mset (key_item evp ts) (removed (calls_of hs)) =
      seq_items f + image_mset (key_item evp ts) (inserted (calls_of hs))"
    and "e \<in> set hs \<Longrightarrow> fst e < length css"
    and "t < length css \<Longrightarrow> map fst (of_thread t hs) = take (length (of_thread t hs)) (css ! t)"
    and "t < length css \<Longrightarrow> ps ! t = FRet rs \<Longrightarrow> of_thread t hs = zip (css ! t) rs"
    and "t < length css \<Longrightarrow> ps ! t = FRet rs \<Longrightarrow> length rs = length (css ! t)"
proof -
  let ?R = "removable evp ts css"
  have ex: "fg_explains (allows ?R ts) (effect evp ts (set_mset (seq_items f)) ?R) (\<lambda>c. calm (fg_op evp ts c)) css f hs
      (s', map calm ps)"
    using assms(1,2) by (simp add: fg_overlap_log_def Let_def)
  then have log: "logged (effect evp ts (set_mset (seq_items f)) ?R) f hs (fg_abs s')"
    by (simp add: fg_explains_def)
  show "no_failed_insert (calls_of hs)"
    "seq_items (fg_abs s') + image_mset (key_item evp ts) (removed (calls_of hs)) =
      seq_items f + image_mset (key_item evp ts) (inserted (calls_of hs))"
    by (rule logged_items [OF log])+
  show "e \<in> set hs \<Longrightarrow> fst e < length css" using ex by (simp add: fg_explains_def)
  show "t < length css \<Longrightarrow> map fst (of_thread t hs) = take (length (of_thread t hs)) (css ! t)"
    by (rule fg_explains_calls [OF ex])
  show "of_thread t hs = zip (css ! t) rs" "length rs = length (css ! t)" if "t < length css" "ps ! t = FRet rs"
    using fg_explains_ended [OF ex that(1), of rs] that assms(3) by simp_all
qed

section \<open>A concrete run\<close>

text \<open>
  Two buckets that hold key 8 only. Thread 0 inserts key 0 and looks for it; thread 1 looks for key 8
  before the insertion and removes it after that.
\<close>

definition fg_room :: fg_filter where
  "fg_room = fg_full\<lparr>fg_hash_table := [[md5_fingerprint pad_evp [8], [], [], []], [[], [], [], []]]\<rparr>"

definition fg_mixed :: "filter_call list list" where
  "fg_mixed = [[InsertKey [0], FindKey [0]], [FindKey [8], RemoveKey [8]]]"

definition fg_mixed_turns :: "nat list" where
  "fg_mixed_turns = [1, 1, 1, 0, 0, 0, 0, 0, 1, 1, 1, 1, 0, 0, 0, 0]"

lemma fg_room_ready: "seq_ready pad_evp 2 (fg_abs fg_room)" and fg_room_quiet: "quiet fg_room"
  by (auto simp: seq_ready_def pad_evp_ok is_pow2_2 seq_inv_def fg_abs_def fg_room_def fg_full_def table_ok_def
      rect_def NUM_ITEMS_PER_ENTRY_def quiet_def NUM_MUTEXES_def)

lemma fg_mixed_run:
  "\<exists>s. fg_exec (\<lambda>_. 0) fg_mixed_turns (fg_start pad_evp fg_room fg_mixed) =
     Some (s, [FRet [True, True], FRet [True, True]]) \<and> fg_rand s = fg_rand fg_room"
  supply fg_lazy(1-4,6,7) [cong]
  by (simp add: fg_mixed_turns_def fg_mixed_def fg_room_def fg_remove_def fg_eval demo_lists demo_fingerprints(3) [THEN not_sym])

section \<open>Properties\<close>

text \<open>
  C17. The fine-grained filter while no insertion evicts. Under every schedule of any \<open>insert\<close>, \<open>find\<close>
  and \<open>remove\<close> calls in which \<open>rand\<close> has not been called yet there is no data race, and nothing is
  lost or duplicated: some log of calls, which has those of each thread in their order with the
  answers it gets, contains no failed insertion, and the table holds the items from the start and
  those inserted, less those removed.
\<close>

theorem fg_overlap_conserves:
  assumes "seq_ready evp ts (fg_abs s)" "quiet s"
    and "fg_exec rnd sched (fg_start evp s css) = Some (s', ps)" "fg_rand s' = fg_rand s"
  shows "\<not> data_race (s', ps) \<and>
    (\<exists>hs. (\<forall>e \<in> set hs. fst e < length css) \<and>
      (\<forall>t < length css. map fst (of_thread t hs) = take (length (of_thread t hs)) (css ! t) \<and>
        (\<forall>rs. ps ! t = FRet rs \<longrightarrow> of_thread t hs = zip (css ! t) rs)) \<and>
      no_failed_insert (calls_of hs) \<and>
      seq_items (fg_abs s') + image_mset (key_item evp ts) (removed (calls_of hs)) =
        seq_items (fg_abs s) + image_mset (key_item evp ts) (inserted (calls_of hs)))"
proof -
  obtain hs where hs: "fg_overlap_log evp css (fg_abs s) hs (s', map calm ps)" "\<not> data_race (s', ps)"
    by (rule overlap_log [OF assms])
  have "seq_table_size (fg_abs s) = ts" using assms(1) by (simp add: seq_ready_def seq_inv_def)
  moreover have "length ps = length css"
    using thread_reach_length [OF thread_exec_reach [OF assms(3)]] by (simp add: fg_start_def)
  ultimately show ?thesis using hs(2) overlap_logD [OF hs(1)] by blast
qed

lemma fg_overlap_conserves_witness:
  "\<exists>s hs. fg_exec (\<lambda>_. 0) fg_mixed_turns (fg_start pad_evp fg_room fg_mixed) =
       Some (s, [FRet [True, True], FRet [True, True]]) \<and>
     of_thread 0 hs = [(InsertKey [0], True), (FindKey [0], True)] \<and>
     of_thread 1 hs = [(FindKey [8], True), (RemoveKey [8], True)] \<and>
     seq_items (fg_abs s) + image_mset (key_item pad_evp 2) (removed (calls_of hs)) =
       seq_items (fg_abs fg_room) + image_mset (key_item pad_evp 2) (inserted (calls_of hs))"
proof -
  obtain s where run: "fg_exec (\<lambda>_. 0) fg_mixed_turns (fg_start pad_evp fg_room fg_mixed) =
      Some (s, [FRet [True, True], FRet [True, True]])" "fg_rand s = fg_rand fg_room"
    using fg_mixed_run by blast
  from fg_overlap_conserves [OF fg_room_ready fg_room_quiet run] obtain hs where
    hs: "\<And>t rs. t < length fg_mixed \<Longrightarrow> [FRet [True, True], FRet [True, True]] ! t = FRet rs \<Longrightarrow>
        of_thread t hs = zip (fg_mixed ! t) rs"
      "seq_items (fg_abs s) + image_mset (key_item pad_evp 2) (removed (calls_of hs)) =
        seq_items (fg_abs fg_room) + image_mset (key_item pad_evp 2) (inserted (calls_of hs))"
    by blast
  have "of_thread 0 hs = [(InsertKey [0], True), (FindKey [0], True)]"
    "of_thread 1 hs = [(FindKey [8], True), (RemoveKey [8], True)]"
    using hs(1) [of 0 "[True, True]"] hs(1) [of 1 "[True, True]"] by (simp_all add: fg_mixed_def)
  with run(1) hs(2) show ?thesis by blast
qed

text \<open>
  C18. Queries of the fine-grained filter while no insertion evicts: when a thread has made its calls,
  an item it has found was stored at the start or is inserted by somebody; and it has found every
  item that was stored at the start or that it had inserted before, unless somebody removes it.
\<close>

theorem fg_overlap_find:
  assumes "seq_ready evp ts (fg_abs s)" "quiet s"
    and "fg_exec rnd sched (fg_start evp s css) = Some (s', ps)" "fg_rand s' = fg_rand s"
    and "t < length css" "ps ! t = FRet rs" "i < length (css ! t)" "css ! t ! i = FindKey k"
  shows "(rs ! i \<longrightarrow> key_item evp ts k \<in># seq_items (fg_abs s) \<or>
      (\<exists>cs \<in> set css. \<exists>k'. InsertKey k' \<in> set cs \<and> key_item evp ts k = key_item evp ts k')) \<and>
    (key_item evp ts k \<notin> removable evp ts css \<and>
      (key_item evp ts k \<in># seq_items (fg_abs s) \<or>
       (\<exists>l < i. \<exists>k'. css ! t ! l = InsertKey k' \<and> key_item evp ts k = key_item evp ts k')) \<longrightarrow> rs ! i)"
proof -
  let ?R = "removable evp ts css" and ?I = "set_mset (seq_items (fg_abs s))"
  obtain hs where hs: "fg_overlap_log evp css (fg_abs s) hs (s', map calm ps)"
    by (rule overlap_log [OF assms(1-4)])
  have ts: "seq_table_size (fg_abs s) = ts" using assms(1) by (simp add: seq_ready_def seq_inv_def)
  have len: "length ps = length css"
    using thread_reach_length [OF thread_exec_reach [OF assms(3)]] by (simp add: fg_start_def)
  note D = overlap_logD [OF hs ts len]
  have made: "of_thread t hs = zip (css ! t) rs" "length rs = length (css ! t)" using D(5,6) assms(5,6) by blast+
  then have "of_thread t hs ! i = (FindKey k, rs ! i)" using assms(7,8) by simp
  with of_thread_nth [of i t hs] made assms(7) obtain hs1 hs2 where
    split: "hs = hs1 @ (t, FindKey k, rs ! i) # hs2" "of_thread t hs1 = take i (zip (css ! t) rs)"
    by auto
  have "logged (effect evp ts ?I ?R) (fg_abs s) (hs1 @ (t, FindKey k, rs ! i) # hs2) (fg_abs s')"
    using hs split(1) by (simp add: fg_overlap_log_def Let_def fg_explains_def ts [simplified])
  then obtain m m' where m: "logged (effect evp ts ?I ?R) (fg_abs s) hs1 m"
    "effect evp ts ?I ?R (take i (zip (css ! t) rs)) (FindKey k) m (rs ! i) m'"
    unfolding split(2) [symmetric] by (rule logged_at)
  have call: "InsertKey k' \<in> set (css ! u)" "r" if "(u, InsertKey k', r) \<in> set hs" for u k' r
  proof -
    have "u < length css" using D(3) [OF that] by simp
    moreover have "InsertKey k' \<in> fst ` set (of_thread u hs)"
      using that unfolding of_thread_mem by force
    ultimately show "InsertKey k' \<in> set (css ! u)" using D(4) [of u] by (metis in_set_takeD list.set_map)
    show r using D(1) that by (cases r) (auto simp: no_failed_insert_def in_calls_of)
  qed
  have "key_item evp ts k \<in># seq_items (fg_abs s) \<or>
      (\<exists>cs \<in> set css. \<exists>k'. InsertKey k' \<in> set cs \<and> key_item evp ts k = key_item evp ts k')" if "rs ! i"
  proof -
    have "key_item evp ts k \<in># seq_items (fg_abs s) + image_mset (key_item evp ts) (inserted (calls_of hs1))"
      using m(2) that unfolding logged_items(2) [OF m(1), symmetric] by simp
    then consider "key_item evp ts k \<in># seq_items (fg_abs s)"
      | k' where "k' \<in># inserted (calls_of hs1)" "key_item evp ts k = key_item evp ts k'"
      by auto
    then show ?thesis
    proof cases
      case 2
      from 2(1) obtain u where u: "(u, InsertKey k', True) \<in> set hs"
        unfolding in_inserted in_calls_of split(1) by auto
      from D(3) [OF u] call(1) [OF u] 2(2) show ?thesis using nth_mem [of u css] by auto
    qed simp
  qed
  moreover have "rs ! i" if "key_item evp ts k \<notin> ?R" "key_item evp ts k \<in># seq_items (fg_abs s) \<or>
      (\<exists>l < i. \<exists>k'. css ! t ! l = InsertKey k' \<and> key_item evp ts k = key_item evp ts k')"
  proof -
    have "(InsertKey k', True) \<in> set (take i (zip (css ! t) rs))" if "l < i" "css ! t ! l = InsertKey k'" for l k'
    proof -
      have l: "(InsertKey k', rs ! l) \<in> set (take i (zip (css ! t) rs))"
        using that assms(7) made(2) by (auto simp: set_conv_nth intro!: exI [of _ l])
      then have "(t, InsertKey k', rs ! l) \<in> set hs"
        unfolding of_thread_mem made(1) by (rule in_set_takeD)
      with l call(2) show ?thesis by metis
    qed
    with that have "key_item evp ts k \<in> stocked evp ts ?I ?R (take i (zip (css ! t) rs))"
      by (auto simp: stocked_def)
    with m(2) show ?thesis by (simp split: if_splits)
  qed
  ultimately show ?thesis by blast
qed

lemma fg_overlap_find_witness:
  "\<exists>s rs. fg_exec (\<lambda>_. 0) fg_mixed_turns (fg_start pad_evp fg_room fg_mixed) =
       Some (s, [FRet rs, FRet [True, True]]) \<and> fg_mixed ! 0 ! 1 = FindKey [0] \<and> rs ! 1"
proof -
  obtain s where run: "fg_exec (\<lambda>_. 0) fg_mixed_turns (fg_start pad_evp fg_room fg_mixed) =
      Some (s, [FRet [True, True], FRet [True, True]])" "fg_rand s = fg_rand fg_room"
    using fg_mixed_run by blast
  have "key_item pad_evp 2 [0] \<notin> removable pad_evp 2 fg_mixed"
    using demo_fingerprints(5) by (simp add: removable_def fg_mixed_def key_item_def)
  then have "[True, True] ! 1"
    using fg_overlap_find [OF fg_room_ready fg_room_quiet run, of 0 "[True, True]" 1 "[0]"]
    by (auto simp: fg_mixed_def)
  with run(1) show ?thesis by (auto simp: fg_mixed_def)
qed

end
