(* ===== verification/Lock_Free.thy ===== *)
theory Lock_Free
  imports Common Pointer_Utils
begin

text \<open>
  \<open>lock_free_filter.h\<close> and \<open>lock_free_filter.cpp\<close>: the filter whose slots are tagged pointers
  to heap entries, updated by compare-and-swap. An operation is a program, a tree of the
  atomic actions it performs on the shared state; the later theories run it alone
  (\<open>lf_run\<close>) and interleaved with other threads (\<open>lf_act\<close>). Actions are atomic and
  sequentially consistent. The printing under \<open>verbose\<close> is left out.

  Loops without a bound in the code take fuel: the branch \<open>LOut\<close> of a program is where it
  would still be looping. A claim that an operation returns says how much fuel is enough;
  a claim about all interleavings holds for every fuel, so for every finite run of the code.
\<close>

section \<open>State\<close>

definition MAX_HAZARD_POINTER_COUNT :: nat where
  "MAX_HAZARD_POINTER_COUNT = 2"

text \<open>
  The fields of the class, and the part of the process it works on: the live \<open>HashEntry\<close>
  objects by address, each with its \<open>str\<close>, and a count of the readings of the clock.
  \<open>lf_thread_count\<close> is \<open>None\<close> while the field is uninitialised.
\<close>

record lf_filter =
  lf_table_size :: u32
  lf_thread_count :: "u32 option"
  lf_hash_table :: "table_pointer list list"
  lf_verbose :: bool
  lf_hazard_ptrs :: "u64 list list"
  lf_retired_ptrs :: "u64 list list"
  lf_heap :: "u64 \<rightharpoonup> bytes"
  lf_clock :: nat

section \<open>Programs\<close>

text \<open>
  \<open>LAbort\<close> is \<open>abort()\<close>, \<open>LFault\<close> undefined behaviour (an index out of range, a division by
  zero), \<open>LOut\<close> a loop that has run out of fuel. \<open>LLoad\<close> and \<open>LCas\<close> access
  \<open>hash_table[b][i]\<close>, \<open>LDeref\<close> reads the string of the entry at an address, \<open>LNew\<close> allocates
  an entry with its string, \<open>LHazard\<close> writes \<open>hazard_ptrs[tid][index]\<close>, \<open>LRetire\<close> appends to
  \<open>retired_ptrs[tid]\<close>, \<open>LShuffle\<close> reads the clock and shuffles the slot order with that seed.
\<close>

datatype 'a lf_prog =
    LRet 'a
  | LAbort
  | LFault
  | LOut
  | LLoad u32 nat "table_pointer \<Rightarrow> 'a lf_prog"
  | LCas u32 nat table_pointer table_pointer "bool \<Rightarrow> 'a lf_prog"
  | LDeref u64 "bytes \<Rightarrow> 'a lf_prog"
  | LNew bytes "u64 \<Rightarrow> 'a lf_prog"
  | LHazard nat nat u64 "'a lf_prog"
  | LRetire nat u64 "'a lf_prog"
  | LShuffle "nat list \<Rightarrow> 'a lf_prog"

primrec lf_bind :: "'a lf_prog \<Rightarrow> ('a \<Rightarrow> 'b lf_prog) \<Rightarrow> 'b lf_prog" where
  "lf_bind (LRet a) f = f a"
| "lf_bind LAbort f = LAbort"
| "lf_bind LFault f = LFault"
| "lf_bind LOut f = LOut"
| "lf_bind (LLoad b i k) f = LLoad b i (\<lambda>v. lf_bind (k v) f)"
| "lf_bind (LCas b i old new k) f = LCas b i old new (\<lambda>v. lf_bind (k v) f)"
| "lf_bind (LDeref a k) f = LDeref a (\<lambda>v. lf_bind (k v) f)"
| "lf_bind (LNew str k) f = LNew str (\<lambda>v. lf_bind (k v) f)"
| "lf_bind (LHazard t j a p) f = LHazard t j a (lf_bind p f)"
| "lf_bind (LRetire t a p) f = LRetire t a (lf_bind p f)"
| "lf_bind (LShuffle k) f = LShuffle (\<lambda>v. lf_bind (k v) f)"

text \<open>\<open>create_pointer\<close> in the middle of a program: it returns or aborts.\<close>

definition lf_create :: "u64 \<Rightarrow> u64 \<Rightarrow> bool \<Rightarrow> (table_pointer \<Rightarrow> 'a lf_prog) \<Rightarrow> 'a lf_prog" where
  "lf_create counter real_pointer marked k =
     (case create_pointer counter real_pointer marked of None \<Rightarrow> LAbort | Some p \<Rightarrow> k p)"

section \<open>Helpers of the class\<close>

definition check_counter :: "u32 \<Rightarrow> u32 \<Rightarrow> u32 \<Rightarrow> u32 \<Rightarrow> bool" where
  "check_counter ts1 ts2 ts1x ts2x =
     (let cond1 = 2 \<le> sint (ts1x - ts1);
          cond2 = 2 \<le> sint (ts2x - ts2);
          cond3 = 3 \<le> sint (ts2x - ts1)
      in cond1 \<and> cond2 \<and> cond3)"

definition lf_clear_hazard :: "nat \<Rightarrow> 'a lf_prog \<Rightarrow> 'a lf_prog" where
  "lf_clear_hazard tid p = LHazard tid 0 0 (LHazard tid 1 0 p)"

definition lf_retire_key :: "table_pointer \<Rightarrow> nat \<Rightarrow> 'a lf_prog \<Rightarrow> 'a lf_prog" where
  "lf_retire_key pointer tid p = LRetire tid (get_real_pointer pointer) p"

section \<open>Relocation of one item\<close>

text \<open>
  The inner loop of \<open>help_relocate\<close>, in which the initiator marks the source: the result is
  \<open>None\<close> when the source was found empty (the \<open>return\<close> in the loop), else the pointer read.
\<close>

primrec lf_mark ::
  "nat \<Rightarrow> u32 \<Rightarrow> nat \<Rightarrow> bool \<Rightarrow> nat \<Rightarrow> table_pointer \<Rightarrow> table_pointer option lf_prog" where
  "lf_mark 0 table_idx slot_idx initiator tid ptr1 = LOut"
| "lf_mark (Suc n) table_idx slot_idx initiator tid ptr1 =
     (if initiator \<and> \<not> get_marked ptr1 then
        if get_real_pointer ptr1 = 0 then LRet None
        else LCas table_idx slot_idx ptr1 (get_new_mark ptr1 True) (\<lambda>_.
             LLoad table_idx slot_idx (\<lambda>ptr1.
             LHazard tid 0 (get_real_pointer ptr1)
               (lf_mark n table_idx slot_idx initiator tid ptr1)))
      else LRet (Some ptr1))"

text \<open>The end of \<open>help_relocate\<close>, when the entry was not moved by this call.\<close>

definition lf_help_end ::
  "u32 \<Rightarrow> nat \<Rightarrow> table_pointer \<Rightarrow> table_pointer \<Rightarrow> unit lf_prog" where
  "lf_help_end new_hash slot_idx ptr1 ptr2 =
     (let real_ptr1 = get_real_pointer ptr1; real_ptr2 = get_real_pointer ptr2;
          counter1 = get_counter ptr1
      in if real_ptr1 = real_ptr2 then
           lf_create (ucast counter1 + 1) 0 False (\<lambda>null.
             LCas new_hash slot_idx ptr1 null (\<lambda>_. LRet ()))
         else
           lf_create (ucast counter1 + 1) real_ptr1 True (\<lambda>new.
             LCas new_hash slot_idx ptr1 new (\<lambda>_. LRet ())))"

text \<open>
  From the reading of the counters on; \<open>retry\<close> is the \<open>continue\<close> of the outer loop, taken when
  the source has changed in the meantime.
\<close>

definition lf_help_move ::
  "u32 \<Rightarrow> u32 \<Rightarrow> nat \<Rightarrow> table_pointer \<Rightarrow> table_pointer \<Rightarrow> unit lf_prog \<Rightarrow> unit lf_prog" where
  "lf_help_move table_idx new_hash slot_idx ptr1 ptr2 retry =
     (let real_ptr1 = get_real_pointer ptr1; real_ptr2 = get_real_pointer ptr2;
          counter1 = get_counter ptr1; counter2 = get_counter ptr2
      in if real_ptr2 = 0 then
           let n_count = (if counter2 < counter1 then ucast counter1 + 1 else ucast counter2 + 1)
           in LLoad table_idx slot_idx (\<lambda>curr.
              if ptr1 \<noteq> curr then retry
              else lf_create n_count real_ptr1 False (\<lambda>new.
                LCas new_hash slot_idx ptr2 new (\<lambda>swapped.
                  if swapped then
                    lf_create (ucast counter1 + 1) 0 False (\<lambda>null.
                      LCas table_idx slot_idx ptr1 null (\<lambda>_. LRet ()))
                  else lf_help_end new_hash slot_idx ptr1 ptr2)))
         else lf_help_end new_hash slot_idx ptr1 ptr2)"

primrec lf_help_loop ::
  "nat \<Rightarrow> nat \<Rightarrow> u32 \<Rightarrow> u32 \<Rightarrow> nat \<Rightarrow> bool \<Rightarrow> nat \<Rightarrow> unit lf_prog" where
  "lf_help_loop 0 fuel ts table_idx slot_idx initiator tid = LOut"
| "lf_help_loop (Suc n) fuel ts table_idx slot_idx initiator tid =
     LLoad table_idx slot_idx (\<lambda>ptr1.
     LHazard tid 0 (get_real_pointer ptr1)
      (lf_bind (lf_mark fuel table_idx slot_idx initiator tid ptr1) (\<lambda>res.
        case res of None \<Rightarrow> LRet () | Some ptr1 \<Rightarrow>
        if \<not> get_marked ptr1 then LRet () else
        LDeref (get_real_pointer ptr1) (\<lambda>str.
        let new_hash = get_next_hash_index ts table_idx str
        in LLoad new_hash slot_idx (\<lambda>ptr2.
           LHazard tid 1 (get_real_pointer ptr2)
            (lf_help_move table_idx new_hash slot_idx ptr1 ptr2
              (lf_help_loop n fuel ts table_idx slot_idx initiator tid)))))))"

definition lf_help_relocate ::
  "nat \<Rightarrow> u32 \<Rightarrow> u32 \<Rightarrow> nat \<Rightarrow> bool \<Rightarrow> nat \<Rightarrow> unit lf_prog" where
  "lf_help_relocate fuel ts table_idx slot_idx initiator tid =
     lf_clear_hazard tid (lf_help_loop fuel fuel ts table_idx slot_idx initiator tid)"

section \<open>\<open>relocate\<close>\<close>

text \<open>\<open>while (get_marked(ptr1))\<close> during path discovery: help until the slot is unmarked.\<close>

primrec lf_unmark ::
  "nat \<Rightarrow> nat \<Rightarrow> u32 \<Rightarrow> u32 \<Rightarrow> nat \<Rightarrow> nat \<Rightarrow> table_pointer \<Rightarrow> table_pointer lf_prog" where
  "lf_unmark 0 fuel ts table_idx slot_idx tid ptr1 = LOut"
| "lf_unmark (Suc n) fuel ts table_idx slot_idx tid ptr1 =
     (if get_marked ptr1 then
        lf_bind (lf_help_relocate fuel ts table_idx slot_idx False tid) (\<lambda>_.
        LLoad table_idx slot_idx (\<lambda>ptr1.
          lf_unmark n fuel ts table_idx slot_idx tid ptr1))
      else LRet ptr1)"

text \<open>
  The \<open>do ... while\<close> loop of path discovery. The result holds \<open>found\<close>, \<open>depth\<close>, \<open>table_idx\<close>
  and \<open>route\<close> as the loop leaves them. Its own fuel \<open>n\<close> counts \<open>depth\<close> up to
  \<open>NUM_MAX_KICKS\<close>, so starting with \<open>n = NUM_MAX_KICKS\<close> it does not run out.
\<close>

primrec lf_discover ::
  "nat \<Rightarrow> nat \<Rightarrow> u32 \<Rightarrow> nat \<Rightarrow> nat \<Rightarrow> nat \<Rightarrow> u32 \<Rightarrow> u32 list \<Rightarrow> (bool \<times> nat \<times> u32 \<times> u32 list) lf_prog" where
  "lf_discover 0 fuel ts slot_idx tid depth table_idx route = LOut"
| "lf_discover (Suc n) fuel ts slot_idx tid depth table_idx route =
     LLoad table_idx slot_idx (\<lambda>ptr1.
     LHazard tid 0 (get_real_pointer ptr1)
      (lf_bind (lf_unmark fuel fuel ts table_idx slot_idx tid ptr1) (\<lambda>ptr1.
        if get_real_pointer ptr1 \<noteq> 0 then
          if depth < NUM_MAX_KICKS then
            let route = route[depth := table_idx]
            in LDeref (get_real_pointer ptr1) (\<lambda>str.
               let table_idx = get_next_hash_index ts table_idx str
               in if Suc depth < NUM_MAX_KICKS
                  then lf_discover n fuel ts slot_idx tid (Suc depth) table_idx route
                  else LRet (False, Suc depth, table_idx, route))
          else LFault
        else LRet (True, depth, table_idx, route))))"

text \<open>
  The loop over the path. Every round reads \<open>route[depth]\<close>, with \<open>lvl\<close> the value of \<open>depth\<close>
  after the decrement; the list holds the values of \<open>i\<close>. \<open>Some start_level\<close> is
  \<open>goto path_discovery\<close>.
\<close>

primrec lf_traverse ::
  "nat \<Rightarrow> u32 \<Rightarrow> nat \<Rightarrow> nat \<Rightarrow> u32 list \<Rightarrow> nat \<Rightarrow> nat list \<Rightarrow> nat option lf_prog" where
  "lf_traverse fuel ts slot_idx tid route lvl [] = LRet None"
| "lf_traverse fuel ts slot_idx tid route lvl (i # is) =
     (if lvl < NUM_MAX_KICKS then
        let source_idx = route ! lvl
        in LLoad source_idx slot_idx (\<lambda>source_ptr.
           lf_bind
             (if get_marked source_ptr
              then lf_bind (lf_help_relocate fuel ts source_idx slot_idx False tid) (\<lambda>_.
                   LLoad source_idx slot_idx (\<lambda>source_ptr. LRet source_ptr))
              else LRet source_ptr) (\<lambda>source_ptr.
           let real_ptr1 = get_real_pointer source_ptr
           in if real_ptr1 = 0 then lf_traverse fuel ts slot_idx tid route lvl is
              else LDeref real_ptr1 (\<lambda>str.
                let dest_idx = get_next_hash_index ts source_idx str
                in LLoad dest_idx slot_idx (\<lambda>dest_ptr.
                   LHazard tid 1 (get_real_pointer dest_ptr)
                    (if get_real_pointer dest_ptr \<noteq> 0 then LRet (Some (i + 1))
                     else lf_bind (lf_help_relocate fuel ts source_idx slot_idx True tid) (\<lambda>_.
                          lf_traverse fuel ts slot_idx tid route lvl is))))))
      else LFault)"

text \<open>From the label \<open>path_discovery\<close> on.\<close>

primrec lf_relocate_from ::
  "nat \<Rightarrow> nat \<Rightarrow> u32 \<Rightarrow> u32 \<Rightarrow> nat \<Rightarrow> nat \<Rightarrow> nat \<Rightarrow> bool lf_prog" where
  "lf_relocate_from 0 fuel ts table_idx slot_idx tid start_level = LOut"
| "lf_relocate_from (Suc n) fuel ts table_idx slot_idx tid start_level =
     lf_bind (lf_discover NUM_MAX_KICKS fuel ts slot_idx tid start_level table_idx
               (replicate NUM_MAX_KICKS 0)) (\<lambda>(found, depth, table_idx, route).
       if found then
         lf_bind (lf_traverse fuel ts slot_idx tid route (depth - 1) (rev [0..<depth])) (\<lambda>again.
           case again of
             Some start_level \<Rightarrow> lf_relocate_from n fuel ts table_idx slot_idx tid start_level
           | None \<Rightarrow> LRet True)
       else LRet False)"

definition lf_relocate :: "nat \<Rightarrow> u32 \<Rightarrow> u32 \<Rightarrow> nat \<Rightarrow> nat \<Rightarrow> bool lf_prog" where
  "lf_relocate fuel ts table_idx slot_idx tid =
     lf_relocate_from fuel fuel ts table_idx slot_idx tid 0"

section \<open>\<open>insert\<close>\<close>

text \<open>One attempt on one slot: put the entry there if it is free. True when it was swapped in.\<close>

definition lf_try_slot ::
  "u32 \<Rightarrow> nat \<Rightarrow> u64 \<Rightarrow> (bool \<Rightarrow> bool lf_prog) \<Rightarrow> bool lf_prog \<Rightarrow> bool lf_prog" where
  "lf_try_slot b i new_entry occupied inserted =
     LLoad b i (\<lambda>ptr1.
       if get_real_pointer ptr1 = 0 then
         lf_create (ucast (get_counter ptr1)) new_entry False (\<lambda>new.
           LCas b i ptr1 new (\<lambda>swapped. if swapped then inserted else occupied True))
       else occupied False)"

text \<open>The scan over the eight slots; \<open>k found_empty\<close> is what follows when all attempts failed.\<close>

primrec lf_scan ::
  "nat list \<Rightarrow> u32 \<Rightarrow> u32 \<Rightarrow> u64 \<Rightarrow> bool \<Rightarrow> (bool \<Rightarrow> bool lf_prog) \<Rightarrow> bool lf_prog" where
  "lf_scan [] hash1 hash2 new_entry found_empty k = k found_empty"
| "lf_scan (i # is) hash1 hash2 new_entry found_empty k =
     lf_try_slot hash1 i new_entry (\<lambda>e1.
       lf_try_slot hash2 i new_entry (\<lambda>e2.
         lf_scan is hash1 hash2 new_entry (found_empty \<or> e1 \<or> e2) k)
         (LRet True))
       (LRet True)"

text \<open>Kick out an item of bucket \<open>hash1\<close>, trying its slots in the given order.\<close>

primrec lf_kick_any :: "nat \<Rightarrow> u32 \<Rightarrow> u32 \<Rightarrow> nat \<Rightarrow> nat list \<Rightarrow> bool lf_prog" where
  "lf_kick_any fuel ts hash1 tid [] = LRet False"
| "lf_kick_any fuel ts hash1 tid (kick_slot # order) =
     lf_bind (lf_relocate fuel ts hash1 kick_slot tid) (\<lambda>done.
       if done then LRet True else lf_kick_any fuel ts hash1 tid order)"

primrec lf_insert_loop ::
  "nat \<Rightarrow> nat \<Rightarrow> u32 \<Rightarrow> u32 \<Rightarrow> u32 \<Rightarrow> u64 \<Rightarrow> nat \<Rightarrow> bool lf_prog" where
  "lf_insert_loop 0 fuel ts hash1 hash2 new_entry tid = LOut"
| "lf_insert_loop (Suc n) fuel ts hash1 hash2 new_entry tid =
     lf_scan [0..<NUM_ITEMS_PER_ENTRY] hash1 hash2 new_entry False (\<lambda>found_empty.
       if found_empty then lf_insert_loop n fuel ts hash1 hash2 new_entry tid
       else LShuffle (\<lambda>try_kick_order.
         lf_bind (lf_kick_any fuel ts hash1 tid try_kick_order) (\<lambda>relocate_success.
           if \<not> relocate_success then LRet False
           else lf_insert_loop n fuel ts hash1 hash2 new_entry tid)))"

definition lf_insert :: "evp_digest \<Rightarrow> u32 \<Rightarrow> nat \<Rightarrow> bytes \<Rightarrow> nat \<Rightarrow> bool lf_prog" where
  "lf_insert evp ts fuel key tid =
     lf_clear_hazard tid
      (let fingerprint = md5_fingerprint evp key in
       LNew fingerprint (\<lambda>new_entry.
       if ts = 0 then LFault else
       let hash1 = jenkins_hash key mod ts;
           hash2 = get_next_hash_index ts hash1 fingerprint
       in lf_insert_loop fuel fuel ts hash1 hash2 new_entry tid))"

section \<open>\<open>find\<close>\<close>

text \<open>
  One slot number in both buckets, until the answer is definite: \<open>Some (location, pointer)\<close>
  when the key was found, \<open>None\<close> when the code leaves the loop by \<open>break\<close>.
\<close>

primrec lf_find_slot ::
  "nat \<Rightarrow> nat \<Rightarrow> u32 \<Rightarrow> u32 \<Rightarrow> u32 \<Rightarrow> bytes \<Rightarrow> nat \<Rightarrow> nat \<Rightarrow> (nat \<times> table_pointer) option lf_prog" where
  "lf_find_slot 0 fuel ts hash1 hash2 fingerprint tid slot = LOut"
| "lf_find_slot (Suc n) fuel ts hash1 hash2 fingerprint tid slot =
     LLoad hash1 slot (\<lambda>ptr1.
     LHazard tid 0 (get_real_pointer ptr1)
      (let ts1 = ucast (get_counter ptr1);
           second = LLoad hash2 slot (\<lambda>ptr2.
             let ts2 = ucast (get_counter ptr2);
                 recheck =
                   LLoad hash1 slot (\<lambda>ptr1x.
                   LLoad hash2 slot (\<lambda>ptr2x.
                   let ts1x = ucast (get_counter ptr1x); ts2x = ucast (get_counter ptr2x)
                   in if check_counter ts1 ts2 ts1x ts2x
                      then lf_find_slot n fuel ts hash1 hash2 fingerprint tid slot
                      else LRet None))
             in LHazard tid 1 (get_real_pointer ptr2)
                 (if get_real_pointer ptr2 \<noteq> 0 then
                    if get_marked ptr2 then
                      lf_bind (lf_help_relocate fuel ts hash2 slot False tid) (\<lambda>_.
                        lf_find_slot n fuel ts hash1 hash2 fingerprint tid slot)
                    else LDeref (get_real_pointer ptr2) (\<lambda>str.
                      if fingerprint = str then LRet (Some (slot + NUM_ITEMS_PER_ENTRY, ptr2))
                      else recheck)
                  else recheck))
       in if get_real_pointer ptr1 \<noteq> 0 then
            if get_marked ptr1 then
              lf_bind (lf_help_relocate fuel ts hash1 slot False tid) (\<lambda>_.
                lf_find_slot n fuel ts hash1 hash2 fingerprint tid slot)
            else LDeref (get_real_pointer ptr1) (\<lambda>str.
              if fingerprint = str then LRet (Some (slot, ptr1)) else second)
          else second))"

primrec lf_find_slots ::
  "nat list \<Rightarrow> nat \<Rightarrow> u32 \<Rightarrow> u32 \<Rightarrow> u32 \<Rightarrow> bytes \<Rightarrow> table_pointer \<Rightarrow> nat \<Rightarrow> (nat \<times> table_pointer) lf_prog" where
  "lf_find_slots [] fuel ts hash1 hash2 fingerprint pointer tid =
     LRet (NUM_ITEMS_PER_ENTRY * 2, pointer)"
| "lf_find_slots (slot # slots) fuel ts hash1 hash2 fingerprint pointer tid =
     lf_bind (lf_find_slot fuel fuel ts hash1 hash2 fingerprint tid slot) (\<lambda>hit.
       case hit of Some r \<Rightarrow> LRet r
       | None \<Rightarrow> lf_find_slots slots fuel ts hash1 hash2 fingerprint pointer tid)"

text \<open>The overload with the reference parameter \<open>pointer\<close>, whose final value is returned too.\<close>

definition lf_find_at ::
  "evp_digest \<Rightarrow> u32 \<Rightarrow> nat \<Rightarrow> bytes \<Rightarrow> table_pointer \<Rightarrow> nat \<Rightarrow> (nat \<times> table_pointer) lf_prog" where
  "lf_find_at evp ts fuel key pointer tid =
     lf_clear_hazard tid
      (let fingerprint = md5_fingerprint evp key in
       if ts = 0 then LFault else
       let hash1 = jenkins_hash key mod ts;
           hash2 = get_next_hash_index ts hash1 fingerprint
       in lf_find_slots [0..<NUM_ITEMS_PER_ENTRY] fuel ts hash1 hash2 fingerprint pointer tid)"

text \<open>\<open>place_holder\<close> is uninitialised; no path reads it, so its value does not matter.\<close>

definition lf_find :: "evp_digest \<Rightarrow> u32 \<Rightarrow> nat \<Rightarrow> bytes \<Rightarrow> nat \<Rightarrow> nat lf_prog" where
  "lf_find evp ts fuel key tid =
     lf_bind (lf_find_at evp ts fuel key 0 tid) (\<lambda>(location, place_holder). LRet location)"

section \<open>\<open>remove\<close>\<close>

primrec lf_remove_loop ::
  "nat \<Rightarrow> evp_digest \<Rightarrow> u32 \<Rightarrow> nat \<Rightarrow> bytes \<Rightarrow> u32 \<Rightarrow> u32 \<Rightarrow> table_pointer \<Rightarrow> nat \<Rightarrow> bool lf_prog" where
  "lf_remove_loop 0 evp ts fuel key hash1 hash2 ptr1 tid = LOut"
| "lf_remove_loop (Suc n) evp ts fuel key hash1 hash2 ptr1 tid =
     lf_bind (lf_find_at evp ts fuel key ptr1 tid) (\<lambda>(location, ptr1).
       if location = NUM_ITEMS_PER_ENTRY * 2 then LRet False
       else
         let hash_val = (if location < NUM_ITEMS_PER_ENTRY then hash1 else hash2)
         in lf_create (ucast (get_counter ptr1)) 0 False (\<lambda>null.
            LCas hash_val (location mod NUM_ITEMS_PER_ENTRY) ptr1 null (\<lambda>swapped.
              if swapped then lf_retire_key ptr1 tid (LRet True)
              else lf_remove_loop n evp ts fuel key hash1 hash2 ptr1 tid)))"

definition lf_remove :: "evp_digest \<Rightarrow> u32 \<Rightarrow> nat \<Rightarrow> bytes \<Rightarrow> nat \<Rightarrow> bool lf_prog" where
  "lf_remove evp ts fuel key tid =
     lf_clear_hazard tid
      (let fingerprint = md5_fingerprint evp key in
       if ts = 0 then LFault else
       let hash1 = jenkins_hash key mod ts;
           hash2 = get_next_hash_index ts hash1 fingerprint
       in lf_remove_loop fuel evp ts fuel key hash1 hash2 0 tid)"

section \<open>Actions\<close>

text \<open>
  The memory an action touches exists: the indexes are in range, the entry is live. An action
  that fails this test is undefined behaviour.
\<close>

definition in_table :: "lf_filter \<Rightarrow> u32 \<Rightarrow> nat \<Rightarrow> bool" where
  "in_table s b i \<longleftrightarrow> unat b < length (lf_hash_table s) \<and> i < NUM_ITEMS_PER_ENTRY"

fun defined_action :: "'a lf_prog \<Rightarrow> lf_filter \<Rightarrow> bool" where
  "defined_action LFault s = False"
| "defined_action (LLoad b i k) s = in_table s b i"
| "defined_action (LCas b i old new k) s = in_table s b i"
| "defined_action (LDeref a k) s = (lf_heap s a \<noteq> None)"
| "defined_action (LHazard t j a p) s =
     (t < length (lf_hazard_ptrs s) \<and> j < MAX_HAZARD_POINTER_COUNT)"
| "defined_action (LRetire t a p) s = (t < length (lf_retired_ptrs s))"
| "defined_action _ s = True"

definition lf_put :: "u32 \<Rightarrow> nat \<Rightarrow> table_pointer \<Rightarrow> lf_filter \<Rightarrow> lf_filter" where
  "lf_put b i v s = s\<lparr>lf_hash_table := put_cell (lf_hash_table s) (unat b) i v\<rparr>"

definition lf_at :: "lf_filter \<Rightarrow> u32 \<Rightarrow> nat \<Rightarrow> table_pointer" where
  "lf_at s b i = cell (lf_hash_table s) (unat b) i"

definition mark_hazard :: "u64 \<Rightarrow> nat \<Rightarrow> nat \<Rightarrow> lf_filter \<Rightarrow> lf_filter" where
  "mark_hazard real_pointer index tid s =
     s\<lparr>lf_hazard_ptrs := put_cell (lf_hazard_ptrs s) tid index real_pointer\<rparr>"

definition push_retired :: "nat \<Rightarrow> u64 \<Rightarrow> lf_filter \<Rightarrow> lf_filter" where
  "push_retired tid a s =
     s\<lparr>lf_retired_ptrs := (lf_retired_ptrs s)[tid := (lf_retired_ptrs s ! tid) @ [a]]\<rparr>"

text \<open>
  What the code takes from its environment: \<open>new\<close> returns an address (or throws, \<open>None\<close>),
  \<open>std::shuffle\<close> gives an order of the slots that depends on the reading of the clock.
\<close>

record lf_env =
  env_alloc :: "(u64 \<rightharpoonup> bytes) \<Rightarrow> u64 option"
  env_shuffle :: "nat \<Rightarrow> nat list"

text \<open>
  What it relies on: a new object has an address that is not in use and fits the pointer field
  (user-space addresses have 47 bits and \<open>HashEntry\<close> is aligned), and a shuffle permutes.
\<close>

definition env_ok :: "lf_env \<Rightarrow> bool" where
  "env_ok env \<longleftrightarrow>
     (\<forall>h a. env_alloc env h = Some a \<longrightarrow> fits a \<and> a \<noteq> 0 \<and> h a = None) \<and>
     (\<forall>t. mset (env_shuffle env t) = mset [0..<NUM_ITEMS_PER_ENTRY])"

text \<open>One action. A failed allocation throws: the program ends as by \<open>abort\<close>.\<close>

fun lf_do :: "lf_env \<Rightarrow> 'a lf_prog \<Rightarrow> lf_filter \<Rightarrow> 'a lf_prog \<times> lf_filter" where
  "lf_do env (LLoad b i k) s = (k (lf_at s b i), s)"
| "lf_do env (LCas b i old new k) s =
     (if lf_at s b i = old then (k True, lf_put b i new s) else (k False, s))"
| "lf_do env (LDeref a k) s = (k (the (lf_heap s a)), s)"
| "lf_do env (LNew str k) s =
     (case env_alloc env (lf_heap s) of
        None \<Rightarrow> (LAbort, s)
      | Some a \<Rightarrow> (k a, s\<lparr>lf_heap := (lf_heap s)(a \<mapsto> str)\<rparr>))"
| "lf_do env (LHazard t j a p) s = (p, mark_hazard a j t s)"
| "lf_do env (LRetire t a p) s = (p, push_retired t a s)"
| "lf_do env (LShuffle k) s =
     (k (env_shuffle env (lf_clock s)), s\<lparr>lf_clock := Suc (lf_clock s)\<rparr>)"
| "lf_do env p s = (p, s)"

fun lf_ended :: "'a lf_prog \<Rightarrow> bool" where
  "lf_ended (LRet a) = True"
| "lf_ended LAbort = True"
| "lf_ended LFault = True"
| "lf_ended LOut = True"
| "lf_ended _ = False"

definition lf_act ::
  "lf_env \<Rightarrow> nat \<Rightarrow> 'a lf_prog \<Rightarrow> lf_filter \<Rightarrow> ('a lf_prog \<times> lf_filter) option" where
  "lf_act env t p s = (if lf_ended p \<or> \<not> defined_action p s then None else Some (lf_do env p s))"

section \<open>A concrete environment and filter\<close>

text \<open>For the witnesses: ten addresses, the identity order, and an empty filter with two buckets.\<close>

definition demo_env :: lf_env where
  "demo_env = \<lparr>env_alloc = \<lambda>h. find (\<lambda>a. h a = None) [16, 32, 48, 64, 80, 96, 112, 128, 144, 160],
     env_shuffle = \<lambda>_. [0, 1, 2, 3]\<rparr>"

definition lf_demo :: lf_filter where
  "lf_demo = \<lparr>lf_table_size = 2, lf_thread_count = None,
     lf_hash_table = [[0, 0, 0, 0], [0, 0, 0, 0]], lf_verbose = False,
     lf_hazard_ptrs = [[0, 0], [0, 0]], lf_retired_ptrs = [[], []],
     lf_heap = Map.empty, lf_clock = 0\<rparr>"

lemma demo_env_ok: "env_ok demo_env"
proof -
  have "\<forall>a \<in> set [16, 32, 48, 64, 80, 96, 112, 128, 144, 160]. fits a \<and> a \<noteq> 0" by code_simp
  moreover have "mset [0, 1, 2, 3] = mset [0..<NUM_ITEMS_PER_ENTRY]" by code_simp
  ultimately show ?thesis
    unfolding env_ok_def demo_env_def by (auto simp: find_Some_iff)
qed

section \<open>The counter check of \<open>find\<close>\<close>

lemma sint_counter_diff: "sint (ucast (x :: u16) - ucast (c :: u16) :: u32) = int (unat x) - int (unat c)"
proof -
  have u: "(ucast x - ucast c :: u32) = word_of_int (int (unat x) - int (unat c))"
    by (simp add: unsigned_ucast_eq of_nat_unat)
  have s: "sint (word_of_int k :: u32) = signed_take_bit 31 k" for k
    by transfer simp
  have "- (2 ^ 31) \<le> int a - int b \<and> int a - int b < 2 ^ 31" if "a < 65536" "b < 65536" for a b
    using that by simp
  from this [OF unat_lt_numerals(2) unat_lt_numerals(2)]
  have "signed_take_bit 31 (int (unat x) - int (unat c)) = int (unat x) - int (unat c)"
    by (intro signed_take_bit_int_eq_self) blast+
  then show ?thesis by (simp only: u s)
qed

text \<open>
  The test that sends \<open>find\<close> back for another round: on the 16-bit counters it compares, its
  \<open>int\<close> differences never wrap, so it holds exactly if both slots have moved on by at least two
  relocations and the second one is at least three ahead of where the first one was.
\<close>

lemma check_counter_counters:
  "check_counter (ucast (c1 :: u16)) (ucast (c2 :: u16)) (ucast (c1x :: u16)) (ucast (c2x :: u16)) \<longleftrightarrow>
     unat c1 + 2 \<le> unat c1x \<and> unat c2 + 2 \<le> unat c2x \<and> unat c1 + 3 \<le> unat c2x"
  unfolding check_counter_def Let_def sint_counter_diff by linarith

end
