(* ===== verification/Lock_Free_Conc.thy ===== *)
theory Lock_Free_Conc
  imports Lock_Free Interleaving
begin

text \<open>
  Any number of threads on one \<open>LockFreeCuckooFilter\<close>, interleaved action by action: no thread
  ever leaves the table, follows a dangling pointer or indexes out of range, entries are
  immutable, counters never decrease, a mark is only ever on a slot that holds an entry. The
  proof method is a weakest precondition for programs under interference, whose state is the
  set of addresses known to be live.
\<close>

section \<open>Clients\<close>

primrec lf_op :: "evp_digest \<Rightarrow> u32 \<Rightarrow> nat \<Rightarrow> nat \<Rightarrow> filter_call \<Rightarrow> (bool + nat) lf_prog" where
  "lf_op evp ts fuel tid (InsertKey k) = lf_bind (lf_insert evp ts fuel k tid) (\<lambda>r. LRet (Inl r))"
| "lf_op evp ts fuel tid (FindKey k) = lf_bind (lf_find evp ts fuel k tid) (\<lambda>r. LRet (Inr r))"
| "lf_op evp ts fuel tid (RemoveKey k) = lf_bind (lf_remove evp ts fuel k tid) (\<lambda>r. LRet (Inl r))"

primrec lf_client ::
  "evp_digest \<Rightarrow> u32 \<Rightarrow> nat \<Rightarrow> nat \<Rightarrow> filter_call list \<Rightarrow> (bool + nat) list lf_prog" where
  "lf_client evp ts fuel tid [] = LRet []"
| "lf_client evp ts fuel tid (c # cs) =
     lf_bind (lf_op evp ts fuel tid c) (\<lambda>r.
     lf_bind (lf_client evp ts fuel tid cs) (\<lambda>rs. LRet (r # rs)))"

text \<open>Thread \<open>t\<close> passes its index as \<open>tid\<close> and makes the calls \<open>css ! t\<close>.\<close>

definition lf_start ::
  "evp_digest \<Rightarrow> nat \<Rightarrow> lf_filter \<Rightarrow> filter_call list list \<Rightarrow> lf_filter \<times> (bool + nat) list lf_prog list" where
  "lf_start evp fuel s css =
     (s, map (\<lambda>t. lf_client evp (lf_table_size s) fuel t (css ! t)) [0..<length css])"

section \<open>Well-formed table pointers and states\<close>

definition good :: "u64 set \<Rightarrow> table_pointer \<Rightarrow> bool" where
  "good D p \<longleftrightarrow> (get_real_pointer p \<noteq> 0 \<longrightarrow> get_real_pointer p \<in> D) \<and>
     (get_marked p \<longrightarrow> get_real_pointer p \<noteq> 0)"

text \<open>A slot update that a thread may make: a good value, and no smaller counter.\<close>

definition cas_ok :: "u64 set \<Rightarrow> table_pointer \<Rightarrow> table_pointer \<Rightarrow> bool" where
  "cas_ok D old new \<longleftrightarrow> good D new \<and> get_counter old \<le> get_counter new"

definition lf_inv :: "u32 \<Rightarrow> nat \<Rightarrow> lf_filter \<Rightarrow> bool" where
  "lf_inv ts n s \<longleftrightarrow> lf_table_size s = ts \<and> 0 < ts \<and>
     rect (unat ts) NUM_ITEMS_PER_ENTRY (lf_hash_table s) \<and>
     rect n MAX_HAZARD_POINTER_COUNT (lf_hazard_ptrs s) \<and>
     length (lf_retired_ptrs s) = n \<and>
     (\<forall>b < ts. \<forall>i < NUM_ITEMS_PER_ENTRY. good (dom (lf_heap s)) (lf_at s b i))"

lemma good_mono: "good D p \<Longrightarrow> D \<subseteq> D' \<Longrightarrow> good D' p"
  by (auto simp: good_def)

lemma cas_ok_mono: "cas_ok D old new \<Longrightarrow> D \<subseteq> D' \<Longrightarrow> cas_ok D' old new"
  by (auto simp: cas_ok_def intro: good_mono)

section \<open>Weakest preconditions under interference\<close>

text \<open>
  \<open>lf_wp ts n p D Q\<close>: program \<open>p\<close>, started when the addresses in \<open>D\<close> are live, only makes
  defined actions and allowed updates, and when it returns \<open>a\<close> with \<open>D'\<close> live, \<open>Q D' a\<close>
  holds. Other threads may allocate between any two actions, and a load may yield any good
  pointer.
\<close>

primrec lf_wp :: "u32 \<Rightarrow> nat \<Rightarrow> 'a lf_prog \<Rightarrow> u64 set \<Rightarrow> (u64 set \<Rightarrow> 'a \<Rightarrow> bool) \<Rightarrow> bool" where
  "lf_wp ts n (LRet a) D Q = Q D a"
| "lf_wp ts n LAbort D Q = True"
| "lf_wp ts n LFault D Q = False"
| "lf_wp ts n LOut D Q = True"
| "lf_wp ts n (LLoad b i k) D Q =
     (b < ts \<and> i < NUM_ITEMS_PER_ENTRY \<and> (\<forall>D' v. D \<subseteq> D' \<and> good D' v \<longrightarrow> lf_wp ts n (k v) D' Q))"
| "lf_wp ts n (LCas b i old new k) D Q =
     (b < ts \<and> i < NUM_ITEMS_PER_ENTRY \<and> cas_ok D old new \<and> (\<forall>v. lf_wp ts n (k v) D Q))"
| "lf_wp ts n (LDeref a k) D Q = (a \<in> D \<and> (\<forall>v. lf_wp ts n (k v) D Q))"
| "lf_wp ts n (LNew str k) D Q =
     (\<forall>D' a. D \<subseteq> D' \<and> a \<in> D' \<and> fits a \<and> a \<noteq> 0 \<longrightarrow> lf_wp ts n (k a) D' Q)"
| "lf_wp ts n (LHazard t j a p) D Q = (t < n \<and> j < MAX_HAZARD_POINTER_COUNT \<and> lf_wp ts n p D Q)"
| "lf_wp ts n (LRetire t a p) D Q = (t < n \<and> lf_wp ts n p D Q)"
| "lf_wp ts n (LShuffle k) D Q =
     (\<forall>order. set order \<subseteq> {..<NUM_ITEMS_PER_ENTRY} \<longrightarrow> lf_wp ts n (k order) D Q)"

lemma lf_wp_mono:
  assumes "\<And>D D' a. D \<subseteq> D' \<Longrightarrow> Q D a \<Longrightarrow> Q D' a"
  shows "lf_wp ts n p D Q \<Longrightarrow> D \<subseteq> E \<Longrightarrow> lf_wp ts n p E Q"
proof (induction p arbitrary: D E)
  case (LRet a)
  then show ?case using assms by simp
next
  case (LLoad b i k)
  then show ?case by (simp add: subset_trans [of D E])
next
  case (LCas b i old new k)
  then show ?case using cas_ok_mono by simp blast
next
  case (LDeref a k)
  then show ?case by simp blast
next
  case (LNew str k)
  then show ?case by (simp add: subset_trans [of D E])
next
  case (LHazard t j a p)
  then show ?case by simp blast
next
  case (LRetire t a p)
  then show ?case by simp blast
next
  case (LShuffle k)
  then show ?case by simp blast
qed auto

lemma lf_wp_bind:
  "lf_wp ts n p D R \<Longrightarrow> (\<And>D' a. D \<subseteq> D' \<Longrightarrow> R D' a \<Longrightarrow> lf_wp ts n (f a) D' Q) \<Longrightarrow>
    lf_wp ts n (lf_bind p f) D Q"
proof (induction p arbitrary: D)
  case (LLoad b i k)
  have "lf_wp ts n (lf_bind (k v) f) D' Q" if "D \<subseteq> D'" "good D' v" for D' v
    using LLoad.prems that by (intro LLoad.IH [of _ D']) auto
  with LLoad.prems show ?case by auto
next
  case (LNew str k)
  have "lf_wp ts n (lf_bind (k a) f) D' Q" if "D \<subseteq> D'" "a \<in> D'" "fits a" "a \<noteq> 0" for D' a
    using LNew.prems that by (intro LNew.IH [of _ D']) auto
  with LNew.prems show ?case by auto
qed auto

lemma lf_wp_create:
  "(\<And>p. create_pointer c a m = Some p \<Longrightarrow> lf_wp ts n (k p) D Q) \<Longrightarrow> lf_wp ts n (lf_create c a m k) D Q"
  by (auto simp: lf_create_def split: option.split)

section \<open>The operations keep to the rules\<close>

lemma good_fields:
  "good D p \<Longrightarrow> get_real_pointer p \<noteq> 0 \<Longrightarrow> get_real_pointer p \<in> D"
  "good D p \<Longrightarrow> get_marked p \<Longrightarrow> get_real_pointer p \<noteq> 0"
  by (simp_all add: good_def)

lemma cas_ok_create:
  assumes "create_pointer c a m = Some p" "fits a" "a \<noteq> 0 \<longrightarrow> a \<in> D" "m \<longrightarrow> a \<noteq> 0"
    and "get_counter old \<le> get_counter p"
  shows "cas_ok D old p"
  using create_pointer_fields [OF assms(1,2)] assms(3-5) by (simp add: cas_ok_def good_def)

lemma cas_ok_keep:
  assumes "create_pointer (ucast (get_counter old)) a m = Some p" "fits a" "a \<noteq> 0 \<longrightarrow> a \<in> D"
    "m \<longrightarrow> a \<noteq> 0"
  shows "cas_ok D old p"
  by (rule cas_ok_create [OF assms]) (simp add: create_pointer_same_counter [OF assms(1,2)])

lemma cas_ok_next:
  assumes "create_pointer (ucast c + 1) a m = Some p" "fits a" "a \<noteq> 0 \<longrightarrow> a \<in> D" "m \<longrightarrow> a \<noteq> 0"
    and "get_counter old \<le> c"
  shows "cas_ok D old p"
  by (rule cas_ok_create [OF assms(1-4)])
    (use create_pointer_next_counter [OF assms(1,2)] assms(5) in \<open>simp add: word_le_nat_alt\<close>)

lemma cas_ok_mark: "good D p \<Longrightarrow> get_real_pointer p \<noteq> 0 \<Longrightarrow> cas_ok D p (get_new_mark p True)"
  by (simp add: cas_ok_def good_def)

lemma cas_ok_null: "create_pointer (ucast (get_counter old)) 0 False = Some p \<Longrightarrow> cas_ok D old p"
  by (rule cas_ok_keep, assumption) simp_all

text \<open>The arguments that all operations on one slot share.\<close>

definition slot_args :: "u32 \<Rightarrow> nat \<Rightarrow> u32 \<Rightarrow> nat \<Rightarrow> nat \<Rightarrow> bool" where
  "slot_args ts n b i tid \<longleftrightarrow> 0 < ts \<and> b < ts \<and> i < NUM_ITEMS_PER_ENTRY \<and> tid < n"

lemma slot_args_next: "slot_args ts n b i tid \<Longrightarrow> get_next_hash_index ts b' str < ts"
  using get_next_hash_index_less [of ts] by (auto simp: slot_args_def)

lemma slot_args_other: "slot_args ts n b i tid \<Longrightarrow> b' < ts \<Longrightarrow> slot_args ts n b' i tid"
  by (simp add: slot_args_def)

lemma hazard_index [simp]: "0 < MAX_HAZARD_POINTER_COUNT" "Suc 0 < MAX_HAZARD_POINTER_COUNT"
  by (simp_all add: MAX_HAZARD_POINTER_COUNT_def)

lemma lf_wp_mark:
  "slot_args ts n b i tid \<Longrightarrow> good D ptr1 \<Longrightarrow>
    lf_wp ts n (lf_mark fuel b i ini tid ptr1) D
      (\<lambda>D r. case r of None \<Rightarrow> True | Some p \<Rightarrow> good D p)"
  by (induction fuel arbitrary: D ptr1) (auto simp: slot_args_def cas_ok_mark)

lemma lf_wp_help_end:
  assumes "slot_args ts n b i tid" "good D ptr1" "get_marked ptr1"
  shows "lf_wp ts n (lf_help_end b i ptr1 ptr2) D (\<lambda>_ _. True)"
  using assms(1,3) good_fields [OF assms(2)]
  by (auto simp: lf_help_end_def slot_args_def Let_def intro!: lf_wp_create cas_ok_next)

lemma lf_wp_help_move:
  assumes args: "slot_args ts n b i tid" "b' < ts" and ptr1: "good D ptr1" "get_marked ptr1"
    and retry: "\<And>E. D \<subseteq> E \<Longrightarrow> lf_wp ts n retry E (\<lambda>_ _. True)"
  shows "lf_wp ts n (lf_help_move b b' i ptr1 ptr2 retry) D (\<lambda>_ _. True)"
proof -
  have end': "lf_wp ts n (lf_help_end b' i ptr1 ptr2) E (\<lambda>_ _. True)" if "D \<subseteq> E" for E
    by (rule lf_wp_help_end [OF slot_args_other [OF args]])
      (use ptr1 that in \<open>auto intro: good_mono\<close>)
  have end1: "lf_wp ts n (lf_create (ucast (get_counter ptr1) + 1) 0 False (\<lambda>null.
      LCas b i ptr1 null (\<lambda>_. LRet ()))) E (\<lambda>_ _. True)" for E
    using args by (auto simp: slot_args_def intro!: lf_wp_create cas_ok_next)
  have cas: "cas_ok E ptr2 p"
    if "create_pointer (if get_counter ptr2 < get_counter ptr1 then ucast (get_counter ptr1) + 1
        else ucast (get_counter ptr2) + 1) (get_real_pointer ptr1) False = Some p" "D \<subseteq> E" for p E
    using that good_fields [OF ptr1(1)] ptr1(2)
    by (cases "get_counter ptr2 < get_counter ptr1") (auto intro!: cas_ok_next)
  show ?thesis
    unfolding lf_help_move_def Let_def
    using args by (auto simp: slot_args_def retry end' end1 intro!: lf_wp_create cas)
qed

lemma lf_wp_help_loop:
  assumes "slot_args ts n b i tid"
  shows "lf_wp ts n (lf_help_loop m fuel ts b i ini tid) D (\<lambda>_ _. True)"
proof (induction m arbitrary: D)
  case (Suc m)
  have "get_real_pointer p \<in> D" if "good D p" "get_marked p" for D p
    using that good_fields by blast
  then show ?case
    using assms slot_args_next [OF assms]
    by (auto simp: Let_def slot_args_def
        intro!: lf_wp_bind [OF lf_wp_mark [OF assms]] lf_wp_help_move [OF assms] Suc
        split: option.splits intro: good_mono)
qed simp

lemma lf_wp_help:
  "slot_args ts n b i tid \<Longrightarrow> lf_wp ts n (lf_help_relocate fuel ts b i ini tid) D (\<lambda>_ _. True)"
  by (simp add: lf_help_relocate_def lf_clear_hazard_def lf_wp_help_loop) (simp add: slot_args_def)

lemma lf_wp_unmark:
  assumes "slot_args ts n b i tid"
  shows "good D ptr1 \<Longrightarrow>
    lf_wp ts n (lf_unmark m fuel ts b i tid ptr1) D (\<lambda>D p. good D p \<and> \<not> get_marked p)"
proof (induction m arbitrary: D ptr1)
  case (Suc m)
  then show ?case
    using assms by (auto simp: slot_args_def intro!: lf_wp_bind [OF lf_wp_help [OF assms]])
qed simp

text \<open>A path that path discovery can hand on: all its entries are bucket numbers.\<close>

definition route_ok :: "u32 \<Rightarrow> u32 list \<Rightarrow> bool" where
  "route_ok ts route \<longleftrightarrow> length route = NUM_MAX_KICKS \<and> (\<forall>b \<in> set route. b < ts)"

lemma route_ok_update: "route_ok ts route \<Longrightarrow> b < ts \<Longrightarrow> route_ok ts (route[j := b])"
  by (auto simp: route_ok_def dest: set_update_subset_insert [THEN subsetD])

lemma route_ok_nth: "route_ok ts route \<Longrightarrow> j < NUM_MAX_KICKS \<Longrightarrow> route ! j < ts"
  by (auto simp: route_ok_def)

lemma lf_wp_discover:
  assumes "0 < ts" "i < NUM_ITEMS_PER_ENTRY" "tid < n"
  shows "b < ts \<Longrightarrow> depth < NUM_MAX_KICKS \<Longrightarrow> route_ok ts route \<Longrightarrow>
    lf_wp ts n (lf_discover m fuel ts i tid depth b route) D
      (\<lambda>_ (found, depth, b, route). b < ts \<and> route_ok ts route \<and> (found \<longrightarrow> depth < NUM_MAX_KICKS))"
proof (induction m arbitrary: D b depth route)
  case (Suc m)
  have args: "slot_args ts n b i tid" using assms Suc.prems by (simp add: slot_args_def)
  show ?case
    using Suc assms slot_args_next [OF args]
    by (auto simp: Let_def route_ok_update good_fields intro!: lf_wp_bind [OF lf_wp_unmark [OF args]])
qed simp

lemma lf_wp_traverse:
  assumes "0 < ts" "i < NUM_ITEMS_PER_ENTRY" "tid < n" "route_ok ts route" "lvl < NUM_MAX_KICKS"
  shows "\<forall>j \<in> set js. j \<le> lvl \<and> Suc j < NUM_MAX_KICKS \<Longrightarrow>
    lf_wp ts n (lf_traverse fuel ts i tid route lvl js) D
      (\<lambda>_ r. case r of None \<Rightarrow> True | Some sl \<Rightarrow> sl < NUM_MAX_KICKS)"
proof (induction js arbitrary: D)
  case (Cons j js)
  have b: "route ! lvl < ts" using assms(4,5) by (rule route_ok_nth)
  then have args: "slot_args ts n (route ! lvl) i tid" using assms by (simp add: slot_args_def)
  have rest: "lf_wp ts n (lf_traverse fuel ts i tid route lvl js) E
      (\<lambda>_ r. case r of None \<Rightarrow> True | Some sl \<Rightarrow> sl < NUM_MAX_KICKS)" for E
    using Cons by simp
  have refetch: "lf_wp ts n
      (if get_marked v
       then lf_bind (lf_help_relocate fuel ts (route ! lvl) i False tid)
              (\<lambda>_. LLoad (route ! lvl) i (\<lambda>source_ptr. LRet source_ptr))
       else LRet v) E (\<lambda>D p. good D p)" if "good E v" for v E
    using that b assms(2) by (auto intro!: lf_wp_bind [OF lf_wp_help [OF args]])
  show ?case
    unfolding lf_traverse.simps Let_def if_P [OF assms(5)] lf_wp.simps(5)
  proof (intro conjI allI impI, rule b, rule assms(2), rule lf_wp_bind [OF refetch])
    show "good E v" if "D \<subseteq> E \<and> good E v" for E v using that ..
  qed (use assms Cons.prems slot_args_next [OF args] in
      \<open>auto simp: good_fields intro!: rest lf_wp_bind [OF lf_wp_help [OF args]]\<close>)
qed simp

lemma lf_wp_relocate_from:
  assumes "0 < ts" "i < NUM_ITEMS_PER_ENTRY" "tid < n"
  shows "b < ts \<Longrightarrow> start < NUM_MAX_KICKS \<Longrightarrow>
    lf_wp ts n (lf_relocate_from m fuel ts b i tid start) D (\<lambda>_ _. True)"
proof (induction m arbitrary: D b start)
  case (Suc m)
  have route: "route_ok ts (replicate NUM_MAX_KICKS 0)"
    using assms(1) by (simp add: route_ok_def)
  have trav: "lf_wp ts n (lf_bind (lf_traverse fuel ts i tid r (d - Suc 0) (rev [0..<d])) (\<lambda>again.
      case again of Some start_level \<Rightarrow> lf_relocate_from m fuel ts b' i tid start_level
        | None \<Rightarrow> LRet True)) E (\<lambda>_ _. True)"
    if "route_ok ts r" "d < NUM_MAX_KICKS" "b' < ts" for r d b' E
  proof (rule lf_wp_bind [OF lf_wp_traverse [OF assms that(1)]])
    show "lf_wp ts n (case a of None \<Rightarrow> LRet True
        | Some start_level \<Rightarrow> lf_relocate_from m fuel ts b' i tid start_level) D' (\<lambda>_ _. True)"
      if "case a of None \<Rightarrow> True | Some sl \<Rightarrow> sl < NUM_MAX_KICKS" for D' a
      using that Suc.IH [OF \<open>b' < ts\<close>] by (auto split: option.splits)
  qed (use that(2) in auto)
  show ?case
    unfolding lf_relocate_from.simps
    by (rule lf_wp_bind [OF lf_wp_discover [OF assms Suc.prems route]]) (auto intro!: trav)
qed simp

lemma lf_wp_relocate:
  "slot_args ts n b i tid \<Longrightarrow> lf_wp ts n (lf_relocate fuel ts b i tid) D (\<lambda>_ _. True)"
  unfolding lf_relocate_def slot_args_def
  by (rule lf_wp_relocate_from) (auto simp: NUM_MAX_KICKS_def)

lemma lf_wp_try_slot:
  assumes "b < ts" "i < NUM_ITEMS_PER_ENTRY" "e \<in> D" "fits e"
    and "\<And>E x. D \<subseteq> E \<Longrightarrow> lf_wp ts n (occ x) E Q" "\<And>E. D \<subseteq> E \<Longrightarrow> lf_wp ts n ins E Q"
  shows "lf_wp ts n (lf_try_slot b i e occ ins) D Q"
  using assms by (auto simp: lf_try_slot_def intro!: lf_wp_create cas_ok_keep)

lemma lf_wp_scan:
  assumes "b1 < ts" "b2 < ts" "fits e" "\<And>E f. D \<subseteq> E \<Longrightarrow> lf_wp ts n (k f) E (\<lambda>_ _. True)"
  shows "set js \<subseteq> {..<NUM_ITEMS_PER_ENTRY} \<Longrightarrow> e \<in> E \<Longrightarrow> D \<subseteq> E \<Longrightarrow>
    lf_wp ts n (lf_scan js b1 b2 e f k) E (\<lambda>_ _. True)"
proof (induction js arbitrary: E f)
  case (Cons j js)
  have "lf_wp ts n (lf_scan js b1 b2 e g k) F (\<lambda>_ _. True)" if "E \<subseteq> F" for F g
    using Cons.prems that by (intro Cons.IH) auto
  with assms Cons.prems show ?case
    by (auto intro!: lf_wp_try_slot)
qed (use assms in simp)

lemma lf_wp_kick_any:
  assumes "0 < ts" "b < ts" "tid < n"
  shows "set order \<subseteq> {..<NUM_ITEMS_PER_ENTRY} \<Longrightarrow>
    lf_wp ts n (lf_kick_any fuel ts b tid order) D (\<lambda>_ _. True)"
proof (induction order arbitrary: D)
  case (Cons j order)
  then have "slot_args ts n b j tid" using assms by (simp add: slot_args_def)
  with Cons show ?case by (auto intro!: lf_wp_bind [OF lf_wp_relocate])
qed simp

lemma lf_wp_insert_loop:
  assumes "0 < ts" "b1 < ts" "b2 < ts" "fits e" "tid < n"
  shows "e \<in> D \<Longrightarrow> lf_wp ts n (lf_insert_loop m fuel ts b1 b2 e tid) D (\<lambda>_ _. True)"
proof (induction m arbitrary: D)
  case (Suc m)
  have IH: "lf_wp ts n (lf_insert_loop m fuel ts b1 b2 e tid) E (\<lambda>_ _. True)" if "D \<subseteq> E" for E
    using Suc that by auto
  have after: "lf_wp ts n
      (if f then lf_insert_loop m fuel ts b1 b2 e tid
       else LShuffle (\<lambda>order. lf_bind (lf_kick_any fuel ts b1 tid order) (\<lambda>success.
         if \<not> success then LRet False else lf_insert_loop m fuel ts b1 b2 e tid))) E (\<lambda>_ _. True)"
    if "D \<subseteq> E" for E f
    using that by (auto simp: IH intro!: lf_wp_bind [OF lf_wp_kick_any [OF assms(1,2,5)]] IH)
  show ?case
    unfolding lf_insert_loop.simps
    by (rule lf_wp_scan [OF assms(2-4) after]) (use Suc.prems in auto)
qed simp

lemma lf_wp_insert:
  assumes "0 < ts" "tid < n"
  shows "lf_wp ts n (lf_insert evp ts fuel key tid) D (\<lambda>_ _. True)"
  using assms get_next_hash_index_less [of ts] word_mod_less_divisor [of ts]
  by (auto simp: lf_insert_def lf_clear_hazard_def Let_def intro!: lf_wp_insert_loop)

lemma lf_wp_find_slot:
  assumes "slot_args ts n b1 i tid" "slot_args ts n b2 i tid"
  shows "lf_wp ts n (lf_find_slot m fuel ts b1 b2 fp tid i) D (\<lambda>_ _. True)"
proof (induction m arbitrary: D)
  case (Suc m)
  then show ?case
    using assms
    by (auto simp: Let_def slot_args_def good_fields
        intro!: lf_wp_bind [OF lf_wp_help [OF assms(1)]] lf_wp_bind [OF lf_wp_help [OF assms(2)]]
        dest: good_mono)
qed simp

lemma lf_wp_find_slots:
  assumes "0 < ts" "b1 < ts" "b2 < ts" "tid < n"
  shows "set js \<subseteq> {..<NUM_ITEMS_PER_ENTRY} \<Longrightarrow>
    lf_wp ts n (lf_find_slots js fuel ts b1 b2 fp ptr tid) D (\<lambda>_ _. True)"
proof (induction js arbitrary: D)
  case (Cons j js)
  then have "slot_args ts n b1 j tid" "slot_args ts n b2 j tid"
    using assms by (simp_all add: slot_args_def)
  with Cons show ?case
    by (auto intro!: lf_wp_bind [OF lf_wp_find_slot] split: option.split)
qed simp

lemma lf_wp_find_at:
  assumes "0 < ts" "tid < n"
  shows "lf_wp ts n (lf_find_at evp ts fuel key ptr tid) D (\<lambda>_ _. True)"
  using assms get_next_hash_index_less [of ts] word_mod_less_divisor [of ts]
  by (auto simp: lf_find_at_def lf_clear_hazard_def Let_def intro!: lf_wp_find_slots)

lemma lf_wp_find:
  "0 < ts \<Longrightarrow> tid < n \<Longrightarrow> lf_wp ts n (lf_find evp ts fuel key tid) D (\<lambda>_ _. True)"
  unfolding lf_find_def by (auto intro!: lf_wp_bind [OF lf_wp_find_at])

lemma lf_wp_remove_loop:
  assumes "0 < ts" "b1 < ts" "b2 < ts" "tid < n"
  shows "lf_wp ts n (lf_remove_loop m evp ts fuel key b1 b2 ptr tid) D (\<lambda>_ _. True)"
proof (induction m arbitrary: D ptr)
  case (Suc m)
  then show ?case
    using assms
    by (auto simp: Let_def lf_retire_key_def intro!: lf_wp_bind [OF lf_wp_find_at] lf_wp_create cas_ok_null)
qed simp

lemma lf_wp_remove:
  assumes "0 < ts" "tid < n"
  shows "lf_wp ts n (lf_remove evp ts fuel key tid) D (\<lambda>_ _. True)"
  using assms get_next_hash_index_less [of ts] word_mod_less_divisor [of ts]
  by (auto simp: lf_remove_def lf_clear_hazard_def Let_def intro!: lf_wp_remove_loop)

lemma lf_wp_op:
  "0 < ts \<Longrightarrow> tid < n \<Longrightarrow> lf_wp ts n (lf_op evp ts fuel tid c) D (\<lambda>_ _. True)"
  by (cases c) (auto intro!: lf_wp_bind [OF lf_wp_insert] lf_wp_bind [OF lf_wp_find]
      lf_wp_bind [OF lf_wp_remove])

lemma lf_wp_client:
  "0 < ts \<Longrightarrow> tid < n \<Longrightarrow> lf_wp ts n (lf_client evp ts fuel tid cs) D (\<lambda>_ _. True)"
proof (induction cs arbitrary: D)
  case (Cons c cs)
  have "lf_wp ts n (lf_bind (lf_client evp ts fuel tid cs) (\<lambda>rs. LRet (r # rs))) E (\<lambda>_ _. True)" for r E
    by (rule lf_wp_bind [OF Cons.IH [OF Cons.prems]]) simp
  then show ?case
    by (auto intro!: lf_wp_bind [OF lf_wp_op [OF Cons.prems]])
qed simp

section \<open>Every action keeps the invariant\<close>

definition lf_ok :: "u32 \<Rightarrow> nat \<Rightarrow> nat \<Rightarrow> lf_filter \<Rightarrow> 'a lf_prog \<Rightarrow> bool" where
  "lf_ok ts n t s p \<longleftrightarrow> lf_wp ts n p (dom (lf_heap s)) (\<lambda>_ _. True)"

text \<open>How the shared state may change.\<close>

definition lf_evolves :: "u32 \<Rightarrow> lf_filter \<Rightarrow> lf_filter \<Rightarrow> bool" where
  "lf_evolves ts s s' \<longleftrightarrow> lf_heap s \<subseteq>\<^sub>m lf_heap s' \<and>
     (\<forall>b < ts. \<forall>i < NUM_ITEMS_PER_ENTRY. get_counter (lf_at s b i) \<le> get_counter (lf_at s' b i)) \<and>
     (\<forall>t. \<exists>as. lf_retired_ptrs s' ! t = lf_retired_ptrs s ! t @ as)"

lemma lf_evolves_refl: "lf_evolves ts s s"
  by (simp add: lf_evolves_def)

lemma lf_evolves_trans: "lf_evolves ts s s' \<Longrightarrow> lf_evolves ts s' s'' \<Longrightarrow> lf_evolves ts s s''"
  unfolding lf_evolves_def
proof (intro conjI allI impI)
  assume l: "lf_heap s \<subseteq>\<^sub>m lf_heap s' \<and>
      (\<forall>b < ts. \<forall>i < NUM_ITEMS_PER_ENTRY. get_counter (lf_at s b i) \<le> get_counter (lf_at s' b i)) \<and>
      (\<forall>t. \<exists>as. lf_retired_ptrs s' ! t = lf_retired_ptrs s ! t @ as)"
    and r: "lf_heap s' \<subseteq>\<^sub>m lf_heap s'' \<and>
      (\<forall>b < ts. \<forall>i < NUM_ITEMS_PER_ENTRY. get_counter (lf_at s' b i) \<le> get_counter (lf_at s'' b i)) \<and>
      (\<forall>t. \<exists>as. lf_retired_ptrs s'' ! t = lf_retired_ptrs s' ! t @ as)"
  show "lf_heap s \<subseteq>\<^sub>m lf_heap s''" using l r by (blast intro: map_le_trans)
  show "get_counter (lf_at s b i) \<le> get_counter (lf_at s'' b i)"
    if "b < ts" "i < NUM_ITEMS_PER_ENTRY" for b i
    using l r that by (blast intro: order.trans)
  show "\<exists>as. lf_retired_ptrs s'' ! t = lf_retired_ptrs s ! t @ as" for t
    using l r by (metis append_assoc)
qed

lemma lf_inv_in_table:
  "lf_inv ts n s \<Longrightarrow> b < ts \<Longrightarrow> i < NUM_ITEMS_PER_ENTRY \<Longrightarrow> in_table s b i"
  by (auto simp: lf_inv_def in_table_def rect_def word_less_nat_alt)

lemma lf_inv_good:
  "lf_inv ts n s \<Longrightarrow> b < ts \<Longrightarrow> i < NUM_ITEMS_PER_ENTRY \<Longrightarrow> good (dom (lf_heap s)) (lf_at s b i)"
  by (simp add: lf_inv_def)

lemma lf_at_put:
  assumes "lf_inv ts n s" "b < ts" "i < NUM_ITEMS_PER_ENTRY"
  shows "lf_at (lf_put b i v s) b' i' = (if b' = b \<and> i' = i then v else lf_at s b' i')"
proof -
  have "cell (put_cell (lf_hash_table s) (unat b) i v) (unat b') i' =
      (if unat b' = unat b \<and> i' = i then v else cell (lf_hash_table s) (unat b') i')"
    using assms by (intro cell_put_cell) (auto simp: lf_inv_def word_less_nat_alt)
  then show ?thesis by (simp add: lf_at_def lf_put_def word_unat_eq_iff)
qed

lemma lf_inv_put:
  assumes "lf_inv ts n s" "b < ts" "i < NUM_ITEMS_PER_ENTRY" "cas_ok (dom (lf_heap s)) (lf_at s b i) v"
  shows "lf_inv ts n (lf_put b i v s) \<and> lf_evolves ts s (lf_put b i v s)"
proof -
  have "lf_heap (lf_put b i v s) = lf_heap s" "lf_retired_ptrs (lf_put b i v s) = lf_retired_ptrs s"
    by (simp_all add: lf_put_def)
  with assms(4) have "lf_evolves ts s (lf_put b i v s)"
    by (auto simp: lf_evolves_def lf_at_put [OF assms(1-3)] cas_ok_def)
  moreover have "lf_inv ts n (lf_put b i v s)"
  proof -
    have "good (dom (lf_heap s)) (lf_at (lf_put b i v s) b' i')"
      if "b' < ts" "i' < NUM_ITEMS_PER_ENTRY" for b' i'
      using assms(1,4) that by (simp add: lf_at_put [OF assms(1-3)] lf_inv_def cas_ok_def)
    then show ?thesis using assms(1) by (simp add: lf_inv_def lf_put_def)
  qed
  ultimately show ?thesis by simp
qed

lemma lf_inv_new:
  assumes "lf_inv ts n s" "lf_heap s a = None"
  shows "lf_inv ts n (s\<lparr>lf_heap := (lf_heap s)(a \<mapsto> str)\<rparr>) \<and>
    lf_evolves ts s (s\<lparr>lf_heap := (lf_heap s)(a \<mapsto> str)\<rparr>)"
proof -
  have at: "lf_at (s\<lparr>lf_heap := h\<rparr>) = lf_at s" for h by (intro ext) (simp add: lf_at_def)
  have "lf_heap s \<subseteq>\<^sub>m (lf_heap s)(a \<mapsto> str)" using assms(2) by (auto simp: map_le_def)
  then show ?thesis
    using assms(1) unfolding lf_inv_def lf_evolves_def at
    by (auto intro: good_mono [OF _ subset_insertI])
qed

lemma lf_inv_hazard:
  assumes "lf_inv ts n s"
  shows "lf_inv ts n (mark_hazard a j t s) \<and> lf_evolves ts s (mark_hazard a j t s)"
proof -
  have "lf_at (mark_hazard a j t s) = lf_at s" by (intro ext) (simp add: lf_at_def mark_hazard_def)
  with assms show ?thesis
    by (simp add: lf_inv_def lf_evolves_def) (simp add: mark_hazard_def)
qed

lemma lf_inv_retire:
  assumes "lf_inv ts n s" "t < n"
  shows "lf_inv ts n (push_retired t a s) \<and> lf_evolves ts s (push_retired t a s)"
proof -
  have "lf_at (push_retired t a s) = lf_at s" by (intro ext) (simp add: lf_at_def push_retired_def)
  with assms show ?thesis
    by (simp add: lf_inv_def lf_evolves_def) (simp add: push_retired_def nth_list_update)
qed

lemma lf_inv_clock:
  assumes "lf_inv ts n s"
  shows "lf_inv ts n (s\<lparr>lf_clock := c\<rparr>) \<and> lf_evolves ts s (s\<lparr>lf_clock := c\<rparr>)"
proof -
  have "lf_at (s\<lparr>lf_clock := c\<rparr>) = lf_at s" by (intro ext) (simp add: lf_at_def)
  with assms show ?thesis by (simp add: lf_inv_def lf_evolves_def)
qed

lemma lf_put_heap [simp]: "lf_heap (lf_put b i v s) = lf_heap s"
  by (simp add: lf_put_def)

lemma mark_hazard_heap [simp]: "lf_heap (mark_hazard a j t s) = lf_heap s"
  by (simp add: mark_hazard_def)

lemma push_retired_heap [simp]: "lf_heap (push_retired t a s) = lf_heap s"
  by (simp add: push_retired_def)

lemma env_ok_shuffle: "env_ok env \<Longrightarrow> set (env_shuffle env t) \<subseteq> {..<NUM_ITEMS_PER_ENTRY}"
  unfolding env_ok_def by (metis atLeast0LessThan atLeastLessThan_upt mset_eq_setD order.refl)

lemma env_ok_alloc:
  "env_ok env \<Longrightarrow> env_alloc env h = Some a \<Longrightarrow> fits a \<and> a \<noteq> 0 \<and> h a = None"
  by (simp add: env_ok_def)

lemma lf_ok_do:
  assumes "env_ok env" "lf_inv ts n s" "lf_ok ts n t s p" "\<not> lf_ended p"
  shows "lf_inv ts n (snd (lf_do env p s)) \<and> lf_ok ts n t (snd (lf_do env p s)) (fst (lf_do env p s)) \<and>
    lf_evolves ts s (snd (lf_do env p s))"
proof (cases p)
  case (LLoad b i k)
  then show ?thesis using assms lf_inv_good [OF assms(2)] by (auto simp: lf_ok_def lf_evolves_refl)
next
  case (LCas b i old new k)
  then show ?thesis
    using assms lf_inv_put [OF assms(2), of b i new] by (auto simp: lf_ok_def lf_evolves_refl)
next
  case (LNew str k)
  show ?thesis
  proof (cases "env_alloc env (lf_heap s)")
    case None
    with LNew assms show ?thesis by (simp add: lf_ok_def lf_evolves_refl)
  next
    case (Some a)
    with env_ok_alloc [OF assms(1)] have "fits a" "a \<noteq> 0" "lf_heap s a = None" by auto
    with Some LNew assms lf_inv_new [OF assms(2)] show ?thesis
      by (simp add: lf_ok_def subset_insertI)
  qed
next
  case (LRetire t' a q)
  then show ?thesis using assms lf_inv_retire [OF assms(2)] by (simp add: lf_ok_def)
next
  case (LShuffle k)
  then show ?thesis
    using assms lf_inv_clock [OF assms(2)] env_ok_shuffle [OF assms(1)] by (simp add: lf_ok_def)
qed (use assms lf_inv_hazard [OF assms(2)] in \<open>auto simp: lf_ok_def lf_evolves_refl\<close>)

lemma lf_ok_defined:
  assumes "lf_inv ts n s" "lf_ok ts n t s p"
  shows "defined_action p s"
  using assms lf_inv_in_table [OF assms(1)]
  by (cases p) (auto simp: lf_ok_def lf_inv_def rect_def)

interpretation lf_threads: thread_logic "lf_act env" "\<lambda>s. env_ok env \<and> lf_inv ts n s" "lf_ok ts n"
    "lf_evolves ts" for env ts n
proof unfold_locales
  show "lf_evolves ts s s" for s by (rule lf_evolves_refl)
  show "lf_evolves ts s s' \<Longrightarrow> lf_evolves ts s' s'' \<Longrightarrow> lf_evolves ts s s''" for s s' s''
    by (rule lf_evolves_trans)
  show "(env_ok env \<and> lf_inv ts n s') \<and> lf_ok ts n t s' p' \<and> lf_evolves ts s s'"
    if "env_ok env \<and> lf_inv ts n s" "lf_ok ts n t s p" "lf_act env t p s = Some (p', s')"
    for s t and p p' :: "'b lf_prog" and s'
    using that lf_ok_do [of env ts n s t p] by (auto simp: lf_act_def split: if_splits)
  show "lf_ok ts n u s' p" if "lf_ok ts n u s p" "lf_evolves ts s s'" for u s s' and p :: "'b lf_prog"
    using that lf_wp_mono [of "\<lambda>_ _. True" ts n p "dom (lf_heap s)" "dom (lf_heap s')"]
    by (auto simp: lf_ok_def lf_evolves_def dest: map_le_implies_dom_le)
qed

text \<open>Configurations that clients start in.\<close>

lemma lf_start_ok:
  assumes "env_ok env" "lf_inv ts n s" "length css \<le> n"
  shows "lf_threads.conf_ok env ts n (lf_start evp fuel s css)"
  unfolding lf_threads.conf_ok_def
proof (intro conjI allI impI)
  show "env_ok env" by (rule assms(1))
  show "lf_inv ts n (fst (lf_start evp fuel s css))" using assms(2) by (simp add: lf_start_def)
  fix t assume "t < length (snd (lf_start evp fuel s css))"
  with assms(2,3) show "lf_ok ts n t (fst (lf_start evp fuel s css)) (snd (lf_start evp fuel s css) ! t)"
    by (auto simp: lf_start_def lf_ok_def lf_inv_def intro!: lf_wp_client)
qed

lemma lf_act_defined:
  "defined_action p s \<Longrightarrow> \<not> lf_ended p \<Longrightarrow> lf_act env t p s = Some (lf_do env p s)"
  by (simp add: lf_act_def)

section \<open>Properties\<close>

text \<open>
  C1. Memory safety: any number of threads that call \<open>insert\<close>, \<open>find\<close> and \<open>remove\<close>, with a
  \<open>tid\<close> below the thread count, never leave the table, never index the hazard, retired or
  route arrays out of range and never read an entry that is not live; and a thread that has
  not ended can always act, whatever the others do.
\<close>

theorem lf_memory_safe:
  assumes "env_ok env" "lf_inv ts n s" "length css \<le> n"
    and "thread_reach (lf_act env) (lf_start evp fuel s css) (s', ps)" "t < length ps"
  shows "defined_action (ps ! t) s' \<and>
    (\<not> lf_ended (ps ! t) \<longrightarrow> (\<exists>d. thread_step (lf_act env) (s', ps) d))"
proof -
  note ok = lf_start_ok [OF assms(1-3), of evp fuel]
  have inv: "lf_inv ts n s'" using lf_threads.reach_inv [OF assms(4) ok] by simp
  have "lf_ok ts n t s' (ps ! t)" using lf_threads.reach_ok [OF assms(4) ok] assms(5) by simp
  then have d: "defined_action (ps ! t) s'" by (rule lf_ok_defined [OF inv])
  have "\<exists>d. thread_step (lf_act env) (s', ps) d" if "\<not> lf_ended (ps ! t)"
  proof -
    obtain p s'' where do: "lf_do env (ps ! t) s' = (p, s'')" by force
    have "lf_act env t (ps ! t) s' = Some (p, s'')"
      using lf_act_defined [OF d that, of env t] do by simp
    then show ?thesis by (blast intro: thread_stepI [OF assms(5)])
  qed
  with d show ?thesis by blast
qed

lemma lf_demo_inv: "lf_inv 2 2 lf_demo"
proof -
  have "rect (unat (2 :: u32)) NUM_ITEMS_PER_ENTRY (lf_hash_table lf_demo)"
    "rect 2 MAX_HAZARD_POINTER_COUNT (lf_hazard_ptrs lf_demo)"
    "lf_table_size lf_demo = 2" "length (lf_retired_ptrs lf_demo) = 2"
    by code_simp+
  moreover have "lf_at lf_demo b i = 0" if "b < 2" "i < NUM_ITEMS_PER_ENTRY" for b i
  proof -
    have "lf_hash_table lf_demo = replicate 2 (replicate NUM_ITEMS_PER_ENTRY 0)" by code_simp
    with that show ?thesis by (simp add: lf_at_def word_less_nat_alt)
  qed
  ultimately show ?thesis by (simp add: lf_inv_def good_def)
qed

text \<open>Thread 0 has allocated its entry and is about to read the table, thread 1 has not begun.\<close>

lemma lf_demo_run:
  "\<exists>s ps. thread_exec (lf_act demo_env) [0, 0, 0]
       (lf_start pad_evp 1 lf_demo [[InsertKey [0]], [FindKey [0]]]) = Some (s, ps) \<and>
     length ps = 2 \<and> \<not> lf_ended (ps ! 0) \<and> lf_heap s 16 = Some (md5_fingerprint pad_evp [0])"
  by (simp add: lf_start_def lf_insert_def lf_clear_hazard_def Let_def lf_act_def lf_demo_def
      mark_hazard_def put_cell_def MAX_HAZARD_POINTER_COUNT_def demo_env_def lf_try_slot_def
      NUM_ITEMS_PER_ENTRY_def numeral_eq_Suc upt_rec)

lemma lf_memory_safe_witness:
  "\<exists>s ps. thread_reach (lf_act demo_env)
       (lf_start pad_evp 1 lf_demo [[InsertKey [0]], [FindKey [0]]]) (s, ps) \<and>
     defined_action (ps ! 0) s \<and> (\<exists>d. thread_step (lf_act demo_env) (s, ps) d)"
proof -
  obtain s ps where run: "thread_exec (lf_act demo_env) [0, 0, 0]
       (lf_start pad_evp 1 lf_demo [[InsertKey [0]], [FindKey [0]]]) = Some (s, ps)"
    and ps: "length ps = 2" "\<not> lf_ended (ps ! 0)"
    using lf_demo_run by metis
  note reach = thread_exec_reach [OF run]
  have "defined_action (ps ! 0) s \<and> (\<exists>d. thread_step (lf_act demo_env) (s, ps) d)"
    using lf_memory_safe [OF demo_env_ok lf_demo_inv _ reach, of 0] ps by simp
  with reach show ?thesis by (intro exI [of _ s] exI [of _ ps] conjI) simp_all
qed

text \<open>
  C2. What every interleaving preserves: the table stays well formed, in particular only slots
  that hold an entry are marked and no slot holds a dangling pointer; entries never change and
  are never freed; the counter of a slot never decreases; retired lists only grow.
\<close>

theorem lf_interleaving_invariant:
  assumes "env_ok env" "lf_inv ts n s" "length css \<le> n"
    and "thread_reach (lf_act env) (lf_start evp fuel s css) (s', ps)"
  shows "lf_inv ts n s' \<and> lf_evolves ts s s'"
  using lf_threads.reach_inv [OF assms(4) lf_start_ok [OF assms(1-3)]]
    lf_threads.reach_evolves [OF assms(4) lf_start_ok [OF assms(1-3)]]
  by (simp add: lf_start_def)

lemma lf_interleaving_invariant_witness:
  "\<exists>s ps. thread_reach (lf_act demo_env)
       (lf_start pad_evp 1 lf_demo [[InsertKey [0]], [FindKey [0]]]) (s, ps) \<and>
     lf_heap s 16 = Some (md5_fingerprint pad_evp [0]) \<and> lf_inv 2 2 s"
proof -
  obtain s ps where run: "thread_exec (lf_act demo_env) [0, 0, 0]
       (lf_start pad_evp 1 lf_demo [[InsertKey [0]], [FindKey [0]]]) = Some (s, ps)"
    and heap: "lf_heap s 16 = Some (md5_fingerprint pad_evp [0])"
    using lf_demo_run by metis
  note reach = thread_exec_reach [OF run]
  have "lf_inv 2 2 s"
    using lf_interleaving_invariant [OF demo_env_ok lf_demo_inv _ reach] by simp
  with reach heap show ?thesis by (intro exI [of _ s] exI [of _ ps] conjI)
qed

end
