(* ===== verification/Lock_Free_Lifecycle.thy ===== *)
theory Lock_Free_Lifecycle
  imports Lock_Free_Conc
begin

text \<open>
  The members of \<open>LockFreeCuckooFilter\<close> that run while no other thread uses the filter:
  constructors, destructor, \<open>reset\<close>, \<open>size\<close>, \<open>change_verbose\<close>, and the freeing of retired
  entries by \<open>free_hazard_pointers\<close>. They are functions of the state.
\<close>

section \<open>The code\<close>

text \<open>
  \<open>LfAbort\<close> is \<open>abort()\<close>, \<open>LfLengthError\<close> the exception of \<open>resize\<close> with a negative size,
  \<open>LfUndefined\<close> undefined behaviour: a second \<open>delete\<close> of an entry, a read of an uninitialised
  field, an index out of range.
\<close>

datatype lf_error = LfAbort | LfLengthError | LfUndefined

definition lf_new ::
  "u32 \<Rightarrow> u32 \<Rightarrow> bool \<Rightarrow> (u64 \<rightharpoonup> bytes) \<Rightarrow> nat \<Rightarrow> lf_error + lf_filter" where
  "lf_new capacity thread_count verbose heap clock =
     (if sint capacity \<le> 0 then Inl LfAbort
      else if sint thread_count < 0 then Inl LfLengthError
      else Inr \<lparr>lf_table_size = capacity, lf_thread_count = None,
                lf_hash_table = replicate (unat capacity) (replicate NUM_ITEMS_PER_ENTRY 0),
                lf_verbose = verbose,
                lf_hazard_ptrs = replicate (unat thread_count) (replicate MAX_HAZARD_POINTER_COUNT 0),
                lf_retired_ptrs = replicate (unat thread_count) [],
                lf_heap = heap, lf_clock = clock\<rparr>)"

definition lf_new_quiet ::
  "u32 \<Rightarrow> u32 \<Rightarrow> (u64 \<rightharpoonup> bytes) \<Rightarrow> nat \<Rightarrow> lf_error + lf_filter" where
  "lf_new_quiet capacity thread_count heap clock = lf_new capacity thread_count False heap clock"

definition lf_size :: "lf_filter \<Rightarrow> u32" where
  "lf_size s = lf_table_size s"

definition lf_change_verbose :: "bool \<Rightarrow> lf_filter \<Rightarrow> lf_filter" where
  "lf_change_verbose verbose s = s\<lparr>lf_verbose := verbose\<rparr>"

text \<open>\<open>delete\<close> of the entries at some addresses, skipping null pointers.\<close>

primrec delete_all :: "u64 list \<Rightarrow> (u64 \<rightharpoonup> bytes) \<Rightarrow> lf_error + (u64 \<rightharpoonup> bytes)" where
  "delete_all [] h = Inr h"
| "delete_all (a # as) h =
     (if a = 0 then delete_all as h
      else if h a = None then Inl LfUndefined
      else delete_all as (h(a := None)))"

text \<open>The real pointers of the table, in the order of the two nested loops.\<close>

definition slot_pointers :: "lf_filter \<Rightarrow> u64 list" where
  "slot_pointers s =
     map (\<lambda>(b, i). get_real_pointer (cell (lf_hash_table s) b i))
       (List.product [0..<unat (lf_table_size s)] [0..<NUM_ITEMS_PER_ENTRY])"

text \<open>The destructor: what is left are the entries that remain live in the process.\<close>

definition lf_destroy :: "lf_filter \<Rightarrow> lf_error + (u64 \<rightharpoonup> bytes)" where
  "lf_destroy s = delete_all (slot_pointers s) (lf_heap s)"

definition lf_reset :: "u32 \<Rightarrow> u32 \<Rightarrow> lf_filter \<Rightarrow> lf_error + lf_filter" where
  "lf_reset capacity thread_count s =
     (case delete_all (slot_pointers s) (lf_heap s) of
        Inl e \<Rightarrow> Inl e
      | Inr h \<Rightarrow>
          if sint capacity < 0 \<or> sint thread_count < 0 then Inl LfLengthError
          else Inr (s\<lparr>lf_table_size := capacity, lf_thread_count := Some thread_count,
            lf_hash_table := replicate (unat capacity) (replicate NUM_ITEMS_PER_ENTRY 0),
            lf_hazard_ptrs := replicate (unat thread_count) (replicate MAX_HAZARD_POINTER_COUNT 0),
            lf_retired_ptrs := replicate (unat thread_count) [], lf_heap := h\<rparr>))"

section \<open>\<open>free_hazard_pointers\<close>\<close>

definition hazard_record :: "nat \<Rightarrow> lf_filter \<Rightarrow> u64 set" where
  "hazard_record n s =
     set (filter (\<lambda>p. p \<noteq> 0)
       (concat (map (\<lambda>i. map (\<lambda>j. cell (lf_hazard_ptrs s) i j) [0..<MAX_HAZARD_POINTER_COUNT]) [0..<n])))"

text \<open>
  The loop that compacts \<open>retired_ptrs[tid]\<close> in place: the pointers still in the hazard record
  move to the front, the others are deleted.
\<close>

primrec free_loop ::
  "nat list \<Rightarrow> u64 set \<Rightarrow> u64 list \<Rightarrow> nat \<Rightarrow> (u64 \<rightharpoonup> bytes) \<Rightarrow> lf_error + u64 list \<times> nat \<times> (u64 \<rightharpoonup> bytes)" where
  "free_loop [] hazards retired new_count h = Inr (retired, new_count, h)"
| "free_loop (i # is) hazards retired new_count h =
     (if retired ! i \<in> hazards
      then free_loop is hazards (retired[new_count := retired ! i]) (new_count + 1) h
      else case delete_all [retired ! i] h of
             Inl e \<Rightarrow> Inl e
           | Inr h \<Rightarrow> free_loop is hazards retired new_count h)"

definition free_hazard_pointers :: "nat \<Rightarrow> lf_filter \<Rightarrow> lf_error + lf_filter" where
  "free_hazard_pointers tid s =
     (case lf_thread_count s of
        None \<Rightarrow> Inl LfUndefined
      | Some thread_count \<Rightarrow>
          if length (lf_hazard_ptrs s) < unat thread_count \<or> length (lf_retired_ptrs s) \<le> tid
          then Inl LfUndefined
          else
            let old_count = length (lf_retired_ptrs s ! tid)
            in case free_loop [0..<old_count] (hazard_record (unat thread_count) s)
                      (lf_retired_ptrs s ! tid) 0 (lf_heap s) of
                 Inl e \<Rightarrow> Inl e
               | Inr (retired, new_count, h) \<Rightarrow>
                   Inr (s\<lparr>lf_retired_ptrs := (lf_retired_ptrs s)[tid := take new_count retired],
                          lf_heap := h\<rparr>))"

section \<open>Deleting entries\<close>

lemma delete_all_distinct:
  assumes "distinct (filter (\<lambda>a. a \<noteq> 0) as)" "\<forall>a \<in> set as. a \<noteq> 0 \<longrightarrow> h a \<noteq> None"
  shows "delete_all as h = Inr (\<lambda>a. if a \<in> set as \<and> a \<noteq> 0 then None else h a)"
  using assms
proof (induction as arbitrary: h)
  case (Cons a as)
  show ?case
  proof (cases "a = 0")
    case True
    then show ?thesis using Cons by (simp add: fun_eq_iff)
  next
    case False
    then have "delete_all as (h(a := None)) =
        Inr (\<lambda>x. if x \<in> set as \<and> x \<noteq> 0 then None else (h(a := None)) x)"
      using Cons.prems by (intro Cons.IH) auto
    with False Cons.prems show ?thesis by (auto simp: fun_eq_iff)
  qed
qed simp

text \<open>The compaction is a filter, and exactly the pointers filtered out are deleted.\<close>

definition compacts :: "nat \<Rightarrow> u64 set \<Rightarrow> u64 list \<Rightarrow> nat \<Rightarrow> (u64 \<rightharpoonup> bytes) \<Rightarrow> bool" where
  "compacts k hazards retired nc h \<longleftrightarrow>
     (let kept = filter (\<lambda>a. a \<in> hazards) (drop k retired) in
      \<exists>retired'. free_loop [k..<length retired] hazards retired nc h =
          Inr (retired', nc + length kept,
            \<lambda>a. if a \<in> set (drop k retired) - hazards then None else h a) \<and>
        take (nc + length kept) retired' = take nc retired @ kept \<and>
        length retired' = length retired)"

lemma free_loop_filter:
  "distinct (drop k retired) \<Longrightarrow> \<forall>a \<in> set (drop k retired). a \<noteq> 0 \<and> h a \<noteq> None \<Longrightarrow>
   nc \<le> k \<Longrightarrow> k \<le> length retired \<Longrightarrow> compacts k hazards retired nc h"
proof (induction "length retired - k" arbitrary: k retired nc h)
  case 0
  then show ?case by (simp add: compacts_def)
next
  case (Suc d)
  define a where "a = retired ! k"
  have k: "k < length retired" using Suc.hyps(2) by simp
  then have upt: "[k..<length retired] = k # [Suc k..<length retired]" by (simp add: upt_conv_Cons)
  have dr: "drop k retired = a # drop (Suc k) retired" by (simp add: a_def Cons_nth_drop_Suc k)
  show ?case
  proof (cases "a \<in> hazards")
    case True
    let ?r = "retired[nc := a]"
    have dr': "drop (Suc k) ?r = drop (Suc k) retired" using Suc.prems(3) by simp
    have take': "take (Suc nc) ?r = take nc retired @ [a]"
      using Suc.prems(3) k by (simp add: take_Suc_conv_app_nth)
    have "compacts (Suc k) hazards ?r (Suc nc) h"
      by (rule Suc.hyps(1)) (use Suc.hyps(2) Suc.prems k in \<open>auto simp: dr dr'\<close>)
    then show ?thesis
      unfolding compacts_def upt dr dr' take' Let_def using True by (auto simp: fun_eq_iff a_def)
  next
    case False
    have live: "a \<noteq> 0" "h a \<noteq> None" using Suc.prems(2) by (simp_all add: dr)
    have "compacts (Suc k) hazards retired nc (h(a := None))"
      by (rule Suc.hyps(1)) (use Suc.hyps(2) Suc.prems k in \<open>auto simp: dr\<close>)
    moreover have "(\<lambda>x. if x \<in> set (drop (Suc k) retired) - hazards then None else (h(a := None)) x) =
        (\<lambda>x. if x \<in> set (a # drop (Suc k) retired) - hazards then None else h x)"
      using False by (auto simp: fun_eq_iff)
    ultimately show ?thesis
      unfolding compacts_def upt dr Let_def using False live by (auto simp: a_def)
  qed
qed

lemma in_slot_pointers:
  "a \<in> set (slot_pointers s) \<longleftrightarrow>
     (\<exists>b < lf_table_size s. \<exists>i < NUM_ITEMS_PER_ENTRY. a = get_real_pointer (lf_at s b i))"
proof -
  have "unat (word_of_nat k :: u32) = k" if "k < unat (lf_table_size s)" for k
    using that unat_lt_numerals(3) [of "lf_table_size s"]
    by (simp add: unsigned_of_nat take_bit_nat_eq_self)
  then have "(\<exists>k < unat (lf_table_size s). P k) \<longleftrightarrow> (\<exists>b < lf_table_size s. P (unat b))" for P
    by (metis word_less_nat_alt)
  moreover have "a \<in> set (slot_pointers s) \<longleftrightarrow> (\<exists>k < unat (lf_table_size s).
      \<exists>i < NUM_ITEMS_PER_ENTRY. a = get_real_pointer (cell (lf_hash_table s) k i))"
    by (auto simp: slot_pointers_def image_iff) (blast, metis atLeast0LessThan lessThan_iff)
  ultimately show ?thesis by (simp add: lf_at_def)
qed

text \<open>Every entry of the table is live and in one slot only.\<close>

definition owns_slots :: "lf_filter \<Rightarrow> bool" where
  "owns_slots s \<longleftrightarrow> distinct (filter (\<lambda>a. a \<noteq> 0) (slot_pointers s)) \<and>
     (\<forall>a \<in> set (slot_pointers s). a \<noteq> 0 \<longrightarrow> lf_heap s a \<noteq> None)"

lemma lf_new_inv:
  assumes "lf_new capacity thread_count verbose heap clock = Inr s"
  shows "lf_inv capacity (unat thread_count) s \<and> lf_thread_count s = None \<and>
    (\<forall>b < capacity. \<forall>i < NUM_ITEMS_PER_ENTRY. lf_at s b i = 0)"
proof -
  have "0 < capacity" using assms by (auto simp: lf_new_def word_greater_zero_iff split: if_splits)
  moreover have at: "lf_at s b i = 0" if "b < capacity" "i < NUM_ITEMS_PER_ENTRY" for b i
    using assms that by (auto simp: lf_new_def lf_at_def word_less_nat_alt split: if_splits)
  ultimately show ?thesis
    using assms by (auto simp: lf_new_def lf_inv_def good_def at split: if_splits)
qed

lemma replicate_2_4: "replicate 2 x = [x, x]" "replicate 4 x = [x, x, x, x]"
  by (simp_all add: numeral_eq_Suc)

lemma lf_demo_new: "lf_new 2 2 False Map.empty 0 = Inr lf_demo"
  by (simp add: lf_new_def lf_demo_def NUM_ITEMS_PER_ENTRY_def MAX_HAZARD_POINTER_COUNT_def
      replicate_2_4)

lemma free_hazard_pointers_eq:
  assumes "lf_thread_count s = Some tc" "unat tc \<le> length (lf_hazard_ptrs s)"
    and "tid < length (lf_retired_ptrs s)" "distinct (lf_retired_ptrs s ! tid)"
    and "\<forall>a \<in> set (lf_retired_ptrs s ! tid). a \<noteq> 0 \<and> lf_heap s a \<noteq> None"
  shows "free_hazard_pointers tid s = Inr (s\<lparr>
    lf_retired_ptrs := (lf_retired_ptrs s)
      [tid := filter (\<lambda>a. a \<in> hazard_record (unat tc) s) (lf_retired_ptrs s ! tid)],
    lf_heap := (\<lambda>a. if a \<in> set (lf_retired_ptrs s ! tid) - hazard_record (unat tc) s then None
      else lf_heap s a)\<rparr>)"
  using free_loop_filter [of 0 "lf_retired_ptrs s ! tid" "lf_heap s" 0 "hazard_record (unat tc) s"] assms
  by (auto simp: compacts_def free_hazard_pointers_def Let_def linorder_not_less [symmetric])

section \<open>Properties\<close>

text \<open>
  Construction: a capacity that is not positive aborts, a negative thread count makes
  \<open>resize\<close> throw, otherwise the table is empty and well formed; but \<open>thread_count\<close> is left
  uninitialised, so that \<open>free_hazard_pointers\<close> on a filter that was never \<open>reset\<close> is undefined.
\<close>

lemma lf_new_result:
  shows "(lf_new capacity thread_count verbose heap clock = Inl LfAbort \<longleftrightarrow> sint capacity \<le> 0) \<and>
    (lf_new capacity thread_count verbose heap clock = Inl LfLengthError \<longleftrightarrow>
      0 < sint capacity \<and> sint thread_count < 0) \<and>
    (\<forall>s. lf_new capacity thread_count verbose heap clock = Inr s \<longrightarrow>
      lf_inv capacity (unat thread_count) s \<and>
      (\<forall>b < capacity. \<forall>i < NUM_ITEMS_PER_ENTRY. lf_at s b i = 0) \<and>
      free_hazard_pointers tid s = Inl LfUndefined)"
  using lf_new_inv [of capacity thread_count verbose heap clock]
  by (auto simp: lf_new_def free_hazard_pointers_def)

lemma lf_new_result_witness:
  "lf_new 2 2 False Map.empty 0 = Inr lf_demo \<and> free_hazard_pointers 0 lf_demo = Inl LfUndefined"
  using lf_new_result [of 2 2 False Map.empty 0 0] lf_demo_new by blast

text \<open>
  C30. \<open>free_hazard_pointers\<close> deletes exactly the calling thread's retired entries that no
  thread has announced as hazardous, keeps the others in their order, and touches no other
  entry; the in-place compaction never runs out of range.
\<close>

theorem free_hazard_pointers_result:
  assumes "lf_thread_count s = Some tc" "unat tc \<le> length (lf_hazard_ptrs s)"
    and "tid < length (lf_retired_ptrs s)" "distinct (lf_retired_ptrs s ! tid)"
    and "\<forall>a \<in> set (lf_retired_ptrs s ! tid). a \<noteq> 0 \<and> lf_heap s a \<noteq> None"
  shows "free_hazard_pointers tid s = Inr (s\<lparr>
    lf_retired_ptrs := (lf_retired_ptrs s)
      [tid := filter (\<lambda>a. a \<in> hazard_record (unat tc) s) (lf_retired_ptrs s ! tid)],
    lf_heap := (\<lambda>a. if a \<in> set (lf_retired_ptrs s ! tid) - hazard_record (unat tc) s then None
      else lf_heap s a)\<rparr>)"
  by (rule free_hazard_pointers_eq [OF assms])

text \<open>One entry in the table, two retired ones, of which thread 1 has announced the first.\<close>

definition lf_used :: lf_filter where
  "lf_used = lf_demo\<lparr>lf_thread_count := Some 2, lf_hash_table := [[16, 0, 0, 0], [0, 0, 0, 0]],
     lf_hazard_ptrs := [[0, 0], [32, 0]], lf_retired_ptrs := [[32, 48], []],
     lf_heap := [16 \<mapsto> [1], 32 \<mapsto> [2], 48 \<mapsto> [3]]\<rparr>"

lemma hazard_record_used: "hazard_record 2 lf_used = {32}"
  by code_simp

lemma free_hazard_pointers_result_witness:
  "\<exists>s'. free_hazard_pointers 0 lf_used = Inr s' \<and> lf_retired_ptrs s' = [[32], []] \<and>
     lf_heap s' 48 = None \<and> lf_heap s' 32 = Some [2] \<and> lf_heap s' 16 = Some [1]"
  using free_hazard_pointers_result [of lf_used 2 0] hazard_record_used
  by (simp add: lf_used_def lf_demo_def)

end
