(* ===== verification/Lock_Free_Solo.thy ===== *)
theory Lock_Free_Solo
  imports Lock_Free_Lifecycle AMQ
begin

text \<open>
  The operations of the lock-free filter while no other thread runs: they return within a
  stated fuel and implement the multiset of items. Between such calls no slot is marked. At the
  end, what \<open>reset\<close> leaves behind and how the operations run on it.
\<close>

section \<open>Running a program alone\<close>

datatype 'a lf_result = LfReturned 'a | LfAborted | LfFaulted | LfLooping

primrec lf_run :: "lf_env \<Rightarrow> 'a lf_prog \<Rightarrow> lf_filter \<Rightarrow> 'a lf_result \<times> lf_filter" where
  "lf_run env (LRet a) s = (LfReturned a, s)"
| "lf_run env LAbort s = (LfAborted, s)"
| "lf_run env LFault s = (LfFaulted, s)"
| "lf_run env LOut s = (LfLooping, s)"
| "lf_run env (LLoad b i k) s =
     (if in_table s b i then lf_run env (k (lf_at s b i)) s else (LfFaulted, s))"
| "lf_run env (LCas b i old new k) s =
     (if \<not> in_table s b i then (LfFaulted, s)
      else if lf_at s b i = old then lf_run env (k True) (lf_put b i new s)
      else lf_run env (k False) s)"
| "lf_run env (LDeref a k) s =
     (case lf_heap s a of None \<Rightarrow> (LfFaulted, s) | Some str \<Rightarrow> lf_run env (k str) s)"
| "lf_run env (LNew str k) s =
     (case env_alloc env (lf_heap s) of None \<Rightarrow> (LfAborted, s)
      | Some a \<Rightarrow> lf_run env (k a) (s\<lparr>lf_heap := (lf_heap s)(a \<mapsto> str)\<rparr>))"
| "lf_run env (LHazard t j a p) s =
     (if t < length (lf_hazard_ptrs s) \<and> j < MAX_HAZARD_POINTER_COUNT
      then lf_run env p (mark_hazard a j t s) else (LfFaulted, s))"
| "lf_run env (LRetire t a p) s =
     (if t < length (lf_retired_ptrs s) then lf_run env p (push_retired t a s) else (LfFaulted, s))"
| "lf_run env (LShuffle k) s =
     lf_run env (k (env_shuffle env (lf_clock s))) (s\<lparr>lf_clock := Suc (lf_clock s)\<rparr>)"

text \<open>It is the repetition of the actions that interleavings are made of.\<close>

lemma lf_run_act:
  assumes "\<not> lf_ended p"
  shows "lf_run env p s =
    (case lf_act env t p s of None \<Rightarrow> (LfFaulted, s) | Some (q, s') \<Rightarrow> lf_run env q s')"
  using assms by (cases p) (auto simp: lf_act_def in_table_def split: option.split)

section \<open>Total correctness\<close>

text \<open>
  \<open>lf_total env p s Q A\<close>: run from \<open>s\<close>, the program returns with \<open>Q\<close>, or aborts if \<open>A\<close>
  allows it; it never faults and never loops beyond its fuel.
\<close>

definition lf_total ::
  "lf_env \<Rightarrow> 'a lf_prog \<Rightarrow> lf_filter \<Rightarrow> ('a \<Rightarrow> lf_filter \<Rightarrow> bool) \<Rightarrow> bool \<Rightarrow> bool" where
  "lf_total env p s Q A \<longleftrightarrow>
     (case lf_run env p s of (LfReturned a, s') \<Rightarrow> Q a s' | (LfAborted, s') \<Rightarrow> A | _ \<Rightarrow> False)"

lemma lf_total_simps [simp]:
  "lf_total env (LRet r) s Q A = Q r s"
  "lf_total env LAbort s Q A = A"
  "\<not> lf_total env LFault s Q A"
  "\<not> lf_total env LOut s Q A"
  "lf_total env (LLoad b i k) s Q A \<longleftrightarrow> in_table s b i \<and> lf_total env (k (lf_at s b i)) s Q A"
  "lf_total env (LCas b i old new kc) s Q A \<longleftrightarrow> in_table s b i \<and>
     (if lf_at s b i = old then lf_total env (kc True) (lf_put b i new s) Q A
      else lf_total env (kc False) s Q A)"
  "lf_total env (LDeref a kd) s Q A \<longleftrightarrow> (\<exists>str. lf_heap s a = Some str \<and> lf_total env (kd str) s Q A)"
  "lf_total env (LNew str' kn) s Q A \<longleftrightarrow>
     (case env_alloc env (lf_heap s) of None \<Rightarrow> A
      | Some a \<Rightarrow> lf_total env (kn a) (s\<lparr>lf_heap := (lf_heap s)(a \<mapsto> str')\<rparr>) Q A)"
  "lf_total env (LHazard t j a p) s Q A \<longleftrightarrow>
     t < length (lf_hazard_ptrs s) \<and> j < MAX_HAZARD_POINTER_COUNT \<and>
     lf_total env p (mark_hazard a j t s) Q A"
  "lf_total env (LRetire t a p) s Q A \<longleftrightarrow>
     t < length (lf_retired_ptrs s) \<and> lf_total env p (push_retired t a s) Q A"
  "lf_total env (LShuffle ks) s Q A \<longleftrightarrow>
     lf_total env (ks (env_shuffle env (lf_clock s))) (s\<lparr>lf_clock := Suc (lf_clock s)\<rparr>) Q A"
  by (auto simp: lf_total_def split: option.splits)

lemma lf_total_bind:
  "lf_total env p s R A \<Longrightarrow> (\<And>a s'. R a s' \<Longrightarrow> lf_total env (f a) s' Q A) \<Longrightarrow>
    lf_total env (lf_bind p f) s Q A"
  by (induction p arbitrary: s) (auto split: if_splits option.splits)

lemma lf_total_mono:
  "lf_total env p s R A \<Longrightarrow> (\<And>a s'. R a s' \<Longrightarrow> Q a s') \<Longrightarrow> lf_total env p s Q A"
  by (auto simp: lf_total_def split: lf_result.splits prod.splits)

lemma lf_total_create:
  "(\<And>p. create_pointer c a m = Some p \<Longrightarrow> lf_total env (k p) s Q A) \<Longrightarrow>
    (create_pointer c a m = None \<Longrightarrow> A) \<Longrightarrow> lf_total env (lf_create c a m k) s Q A"
  by (auto simp: lf_create_def split: option.split)

section \<open>Quiescent states\<close>

text \<open>The fingerprint in a slot, empty for a free slot, and the whole table read that way.\<close>

definition entry_str :: "(u64 \<rightharpoonup> bytes) \<Rightarrow> table_pointer \<Rightarrow> bytes" where
  "entry_str h p = (if get_real_pointer p = 0 then [] else the (h (get_real_pointer p)))"

definition lf_str :: "lf_filter \<Rightarrow> u32 \<Rightarrow> nat \<Rightarrow> bytes" where
  "lf_str s b i = entry_str (lf_heap s) (lf_at s b i)"

definition lf_view :: "lf_filter \<Rightarrow> string_table" where
  "lf_view s = map (map (entry_str (lf_heap s))) (lf_hash_table s)"

definition lf_items :: "lf_filter \<Rightarrow> (bytes \<times> u32 set) multiset" where
  "lf_items s = items (lf_table_size s) (lf_view s)"

text \<open>No slot is marked, and the stored fingerprints are not empty.\<close>

definition lf_quiet :: "u32 \<Rightarrow> nat \<Rightarrow> lf_filter \<Rightarrow> bool" where
  "lf_quiet ts n s \<longleftrightarrow> lf_inv ts n s \<and>
     (\<forall>b < ts. \<forall>i < NUM_ITEMS_PER_ENTRY. \<not> get_marked (lf_at s b i) \<and>
        (get_real_pointer (lf_at s b i) \<noteq> 0 \<longrightarrow> lf_str s b i \<noteq> []))"

lemma lf_quietD:
  assumes "lf_quiet ts n s"
  shows "lf_inv ts n s" "lf_table_size s = ts" "0 < ts"
    "length (lf_hazard_ptrs s) = n" "length (lf_retired_ptrs s) = n"
  using assms by (auto simp: lf_quiet_def lf_inv_def rect_def)

lemma lf_quiet_slot:
  assumes "lf_quiet ts n s" "b < ts" "i < NUM_ITEMS_PER_ENTRY"
  shows "in_table s b i" "\<not> get_marked (lf_at s b i)"
    "get_real_pointer (lf_at s b i) = 0 \<longleftrightarrow> lf_str s b i = []"
    "get_real_pointer (lf_at s b i) \<noteq> 0 \<Longrightarrow>
      lf_heap s (get_real_pointer (lf_at s b i)) = Some (lf_str s b i)"
proof -
  have inv: "lf_inv ts n s" by (rule lf_quietD(1) [OF assms(1)])
  show "in_table s b i" by (rule lf_inv_in_table [OF inv assms(2,3)])
  show "\<not> get_marked (lf_at s b i)" "get_real_pointer (lf_at s b i) = 0 \<longleftrightarrow> lf_str s b i = []"
    using assms by (auto simp: lf_quiet_def lf_str_def entry_str_def)
  show "lf_heap s (get_real_pointer (lf_at s b i)) = Some (lf_str s b i)"
    if "get_real_pointer (lf_at s b i) \<noteq> 0"
    using lf_inv_good [OF inv assms(2,3)] that by (auto simp: good_def lf_str_def entry_str_def)
qed

lemma cell_lf_view:
  assumes "lf_inv ts n s" "b < ts" "i < NUM_ITEMS_PER_ENTRY"
  shows "cell (lf_view s) (unat b) i = lf_str s b i"
proof -
  have "unat b < length (lf_hash_table s)" "i < length (lf_hash_table s ! unat b)"
    using assms by (auto simp: lf_inv_def rect_def word_less_nat_alt)
  then show ?thesis by (simp add: lf_view_def lf_str_def lf_at_def cell_def)
qed

lemma table_ok_lf_view: "lf_inv ts n s \<Longrightarrow> table_ok ts (lf_view s)"
  by (auto simp: lf_inv_def table_ok_def rect_def lf_view_def)

text \<open>States that differ in the hazard pointers only.\<close>

definition haz :: "nat \<Rightarrow> lf_filter \<Rightarrow> lf_filter \<Rightarrow> bool" where
  "haz n s s' \<longleftrightarrow> (\<exists>h. s' = s\<lparr>lf_hazard_ptrs := h\<rparr> \<and>
     (rect n MAX_HAZARD_POINTER_COUNT (lf_hazard_ptrs s) \<longrightarrow> rect n MAX_HAZARD_POINTER_COUNT h))"

lemma haz_refl [simp]: "haz n s s"
  unfolding haz_def by (rule exI [of _ "lf_hazard_ptrs s"]) simp

lemma haz_trans: "haz n s s' \<Longrightarrow> haz n s' s'' \<Longrightarrow> haz n s s''"
  by (auto simp: haz_def)

lemma haz_mark [simp]: "haz n s s' \<Longrightarrow> haz n s (mark_hazard a j t s')"
  by (auto simp: haz_def mark_hazard_def)

lemma haz_view: "lf_view (s\<lparr>lf_hazard_ptrs := h\<rparr>) = lf_view s"
  by (simp add: lf_view_def)

lemma hazD:
  assumes "haz n s s'"
  shows "lf_at s' = lf_at s" "lf_str s' = lf_str s" "lf_heap s' = lf_heap s"
    "lf_items s' = lf_items s" "lf_table_size s' = lf_table_size s" "lf_view s' = lf_view s"
    "lf_retired_ptrs s' = lf_retired_ptrs s" "in_table s' = in_table s" "lf_clock s' = lf_clock s"
proof -
  from assms obtain h where s': "s' = s\<lparr>lf_hazard_ptrs := h\<rparr>" by (auto simp: haz_def)
  show at: "lf_at s' = lf_at s" by (intro ext) (simp add: s' lf_at_def)
  show heap: "lf_heap s' = lf_heap s" by (simp add: s')
  show "lf_str s' = lf_str s" unfolding lf_str_def at heap ..
  show "lf_view s' = lf_view s" by (simp add: s' haz_view)
  then show "lf_items s' = lf_items s" by (simp add: lf_items_def s')
  show "in_table s' = in_table s" by (intro ext) (simp add: s' in_table_def)
qed (use assms in \<open>auto simp: haz_def\<close>)

lemma haz_quiet:
  assumes "haz n s s'" "lf_quiet ts n s"
  shows "lf_quiet ts n s'"
proof -
  from assms obtain h where h: "s' = s\<lparr>lf_hazard_ptrs := h\<rparr>" "rect n MAX_HAZARD_POINTER_COUNT h"
    by (auto simp: haz_def lf_quiet_def lf_inv_def)
  with assms(2) show ?thesis
    unfolding lf_quiet_def lf_inv_def hazD [OF assms(1)] by simp
qed

lemma counter_not_too_large [simp]: "\<not> UINT16_MAX < ucast (c :: u16)"
  by (simp add: linorder_not_less)

section \<open>\<open>find\<close> and \<open>remove\<close> alone\<close>

text \<open>What one round of \<open>find\<close> answers for a slot number.\<close>

definition slot_hit :: "lf_filter \<Rightarrow> u32 \<Rightarrow> u32 \<Rightarrow> bytes \<Rightarrow> nat \<Rightarrow> (nat \<times> table_pointer) option" where
  "slot_hit s b1 b2 fp i =
     (if lf_str s b1 i = fp then Some (i, lf_at s b1 i)
      else if lf_str s b2 i = fp then Some (i + NUM_ITEMS_PER_ENTRY, lf_at s b2 i)
      else None)"

lemma check_counter_same [simp]: "\<not> check_counter c1 c2 c1 c2"
  by (simp add: check_counter_def)

lemma mark_hazard_same [simp]:
  "lf_at (mark_hazard a j t s) = lf_at s"
  "lf_str (mark_hazard a j t s) = lf_str s"
  "in_table (mark_hazard a j t s) = in_table s"
  "lf_retired_ptrs (mark_hazard a j t s) = lf_retired_ptrs s"
  "lf_clock (mark_hazard a j t s) = lf_clock s"
  using hazD [OF haz_mark [OF haz_refl], of a j t s] by simp_all

lemma mark_hazard_length [simp]: "length (lf_hazard_ptrs (mark_hazard a j t s)) = length (lf_hazard_ptrs s)"
  by (simp add: mark_hazard_def put_cell_def)

lemma lf_total_find_slot:
  assumes "lf_quiet ts n s" "b1 < ts" "b2 < ts" "i < NUM_ITEMS_PER_ENTRY" "tid < n" "fp \<noteq> []"
  shows "lf_total env (lf_find_slot (Suc m) fuel ts b1 b2 fp tid i) s
    (\<lambda>r s'. haz n s s' \<and> r = slot_hit s b1 b2 fp i) False"
  using lf_quiet_slot [OF assms(1,2,4)] lf_quiet_slot [OF assms(1,3,4)] lf_quietD [OF assms(1)] assms
  by (auto simp: Let_def slot_hit_def)

text \<open>The first hit over a list of slot numbers.\<close>

fun first_hit :: "lf_filter \<Rightarrow> u32 \<Rightarrow> u32 \<Rightarrow> bytes \<Rightarrow> nat list \<Rightarrow> (nat \<times> table_pointer) option" where
  "first_hit s b1 b2 fp [] = None"
| "first_hit s b1 b2 fp (i # is) =
     (case slot_hit s b1 b2 fp i of Some r \<Rightarrow> Some r | None \<Rightarrow> first_hit s b1 b2 fp is)"

lemma haz_hit: "haz n s s' \<Longrightarrow> slot_hit s' = slot_hit s"
  by (intro ext) (simp add: slot_hit_def hazD)

lemma haz_first_hit: "haz n s s' \<Longrightarrow> first_hit s' b1 b2 fp is = first_hit s b1 b2 fp is"
  by (induction "is") (auto simp: haz_hit split: option.split)

lemma lf_total_find_slots:
  assumes "b1 < ts" "b2 < ts" "tid < n" "fp \<noteq> []" "0 < fuel"
  shows "lf_quiet ts n s \<Longrightarrow> set is \<subseteq> {..<NUM_ITEMS_PER_ENTRY} \<Longrightarrow>
    lf_total env (lf_find_slots is fuel ts b1 b2 fp ptr tid) s
      (\<lambda>r s'. haz n s s' \<and> r = (case first_hit s b1 b2 fp is of Some r \<Rightarrow> r
         | None \<Rightarrow> (NUM_ITEMS_PER_ENTRY * 2, ptr))) False"
proof (induction "is" arbitrary: s)
  case (Cons i "is")
  obtain m where fuel: "fuel = Suc m" using assms(5) gr0_implies_Suc by blast
  have i: "i < NUM_ITEMS_PER_ENTRY" using Cons.prems by simp
  show ?case
    unfolding lf_find_slots.simps fuel
  proof (rule lf_total_bind [OF lf_total_find_slot [OF Cons.prems(1) assms(1,2) i assms(3,4)]])
    fix r s'
    assume r: "haz n s s' \<and> r = slot_hit s b1 b2 fp i"
    then have "lf_quiet ts n s'" using Cons.prems(1) haz_quiet by blast
    from Cons.IH [OF this] Cons.prems(2)
    show "lf_total env (case r of None \<Rightarrow> lf_find_slots is (Suc m) ts b1 b2 fp ptr tid
        | Some x \<Rightarrow> LRet x) s' (\<lambda>r s'. haz n s s' \<and>
        r = (case first_hit s b1 b2 fp (i # is) of None \<Rightarrow> (NUM_ITEMS_PER_ENTRY * 2, ptr)
          | Some r \<Rightarrow> r)) False"
      using r haz_first_hit [of n s s'] unfolding fuel
      by (auto split: option.split elim!: lf_total_mono intro: haz_trans)
  qed
qed simp

lemma first_hit_None:
  "first_hit s b1 b2 fp is = None \<longleftrightarrow> (\<forall>i \<in> set is. lf_str s b1 i \<noteq> fp \<and> lf_str s b2 i \<noteq> fp)"
  by (induction "is") (auto simp: slot_hit_def)

lemma first_hit_SomeD:
  "first_hit s b1 b2 fp is = Some (l, p) \<Longrightarrow> \<exists>i \<in> set is.
     (lf_str s b1 i = fp \<and> p = lf_at s b1 i \<and> l = i) \<or>
     (lf_str s b2 i = fp \<and> p = lf_at s b2 i \<and> l = i + NUM_ITEMS_PER_ENTRY)"
  by (induction "is") (auto simp: slot_hit_def split: if_splits)

definition lf_ready :: "evp_digest \<Rightarrow> u32 \<Rightarrow> nat \<Rightarrow> lf_filter \<Rightarrow> bool" where
  "lf_ready evp ts n s \<longleftrightarrow> evp_md5_ok evp \<and> is_pow2 ts \<and> lf_quiet ts n s"

text \<open>The two buckets of a key, and where \<open>find\<close> locates it.\<close>

definition key_hit :: "evp_digest \<Rightarrow> u32 \<Rightarrow> bytes \<Rightarrow> lf_filter \<Rightarrow> (nat \<times> table_pointer) option" where
  "key_hit evp ts key s =
     (let fp = md5_fingerprint evp key; h = jenkins_hash key mod ts
      in first_hit s h (get_next_hash_index ts h fp) fp [0..<NUM_ITEMS_PER_ENTRY])"

lemma key_hit_item:
  assumes "lf_ready evp ts n s"
  shows "key_hit evp ts key s \<noteq> None \<longleftrightarrow> key_item evp ts key \<in># lf_items s"
proof -
  let ?fp = "md5_fingerprint evp key" and ?h = "jenkins_hash key mod ts"
  have r: "is_pow2 ts" "?fp \<noteq> []" "lf_quiet ts n s"
    using assms by (simp_all add: lf_ready_def md5_fingerprint_nonempty)
  note q = lf_quietD [OF r(3)]
  have ts: "ts \<noteq> 0" using r(1) by (rule is_pow2_neq_0)
  have scan: "slot_of (lf_view s) b ?fp \<noteq> None \<longleftrightarrow> (\<exists>i < NUM_ITEMS_PER_ENTRY. lf_str s b i = ?fp)"
    if "b < ts" for b
    unfolding slot_of_def first_idx_not_None using cell_lf_view [OF q(1) that] by auto
  show ?thesis
    unfolding lf_items_def q(2) key_item_scan [OF r(1,2)] scan [OF hash_mod_less [OF ts]]
      scan [OF get_next_hash_index_less [OF ts]] key_hit_def Let_def first_hit_None
    by auto
qed

lemma haz_key_hit: "haz n s s' \<Longrightarrow> key_hit evp ts key s' = key_hit evp ts key s"
  by (simp add: key_hit_def Let_def haz_first_hit)

lemma lf_total_find_at:
  assumes "lf_quiet ts n s" "tid < n" "md5_fingerprint evp key \<noteq> []" "0 < fuel"
  shows "lf_total env (lf_find_at evp ts fuel key ptr tid) s
    (\<lambda>r s'. haz n s s' \<and>
       r = (case key_hit evp ts key s of Some r \<Rightarrow> r | None \<Rightarrow> (NUM_ITEMS_PER_ENTRY * 2, ptr))) False"
proof -
  let ?fp = "md5_fingerprint evp key" and ?h = "jenkins_hash key mod ts"
  let ?s = "mark_hazard 0 1 tid (mark_hazard 0 0 tid s)"
  note q = lf_quietD [OF assms(1)]
  have ts: "ts \<noteq> 0" using q(3) by auto
  have h: "haz n s ?s" by simp
  have "lf_total env (lf_find_slots [0..<NUM_ITEMS_PER_ENTRY] fuel ts ?h
      (get_next_hash_index ts ?h ?fp) ?fp ptr tid) ?s
      (\<lambda>r s'. haz n s s' \<and>
        r = (case key_hit evp ts key s of Some r \<Rightarrow> r | None \<Rightarrow> (NUM_ITEMS_PER_ENTRY * 2, ptr))) False"
    by (rule lf_total_mono, rule lf_total_find_slots [OF hash_mod_less [OF ts]
          get_next_hash_index_less [OF ts] assms(2-4) haz_quiet [OF h assms(1)]])
      (auto simp: key_hit_def Let_def haz_first_hit [OF h, unfolded One_nat_def] intro: haz_trans [OF h [unfolded One_nat_def]])
  then show ?thesis
    using assms(2) q(4) ts by (simp add: lf_find_at_def lf_clear_hazard_def Let_def)
qed

text \<open>Writing a slot.\<close>

lemma lf_view_put: "lf_view (lf_put b i v s) = put_cell (lf_view s) (unat b) i (entry_str (lf_heap s) v)"
  unfolding lf_view_def lf_put_def put_cell_def
  by (cases "unat b < length (lf_hash_table s)") (simp_all add: map_update list_update_beyond)

lemma lf_put_same [simp]:
  "lf_table_size (lf_put b i v s) = lf_table_size s"
  "lf_hazard_ptrs (lf_put b i v s) = lf_hazard_ptrs s"
  "lf_retired_ptrs (lf_put b i v s) = lf_retired_ptrs s"
  "lf_clock (lf_put b i v s) = lf_clock s"
  by (simp_all add: lf_put_def)

lemma in_table_put [simp]: "in_table (lf_put b i v s) = in_table s"
  by (intro ext) (simp add: in_table_def lf_put_def put_cell_def)

lemma lf_str_put:
  assumes "lf_inv ts n s" "b < ts" "i < NUM_ITEMS_PER_ENTRY"
  shows "lf_str (lf_put b i v s) b' i' = (if b' = b \<and> i' = i then entry_str (lf_heap s) v else lf_str s b' i')"
  by (auto simp: lf_str_def lf_at_put [OF assms])

lemma lf_quiet_put:
  assumes q: "lf_quiet ts n s" and "b < ts" "i < NUM_ITEMS_PER_ENTRY" "\<not> get_marked v"
    and v: "get_real_pointer v \<noteq> 0 \<Longrightarrow>
      \<exists>str. lf_heap s (get_real_pointer v) = Some str \<and> str \<noteq> []"
  shows "lf_quiet ts n (lf_put b i v s)"
proof -
  note inv = lf_quietD(1) [OF q]
  have good: "good (dom (lf_heap s)) v" using assms(4) v by (auto simp: good_def)
  have "lf_inv ts n (lf_put b i v s)"
  proof -
    have "good (dom (lf_heap s)) (lf_at (lf_put b i v s) b' i')"
      if "b' < ts" "i' < NUM_ITEMS_PER_ENTRY" for b' i'
      using inv good that by (simp add: lf_at_put [OF inv assms(2,3)] lf_inv_def)
    then show ?thesis using inv by (simp add: lf_inv_def) (simp add: lf_put_def)
  qed
  moreover have "entry_str (lf_heap s) v \<noteq> []" if "get_real_pointer v \<noteq> 0"
    using v [OF that] that by (auto simp: entry_str_def)
  ultimately show ?thesis
    using q assms(4)
    by (auto simp: lf_quiet_def lf_at_put [OF inv assms(2,3)] lf_str_put [OF inv assms(2,3)])
qed

lemma lf_items_put:
  assumes q: "lf_quiet ts n s" and "b < ts" "i < NUM_ITEMS_PER_ENTRY"
  shows "lf_items (lf_put b i v s) + slot_contents (\<lambda>b fp. {#(fp, home ts b fp)#}) b (lf_str s b i) =
    lf_items s + slot_contents (\<lambda>b fp. {#(fp, home ts b fp)#}) b (entry_str (lf_heap s) v)"
  using contents_put [OF table_ok_lf_view [OF lf_quietD(1) [OF q]] assms(2,3),
      of "\<lambda>b fp. {#(fp, home ts b fp)#}" "entry_str (lf_heap s) v"]
  by (simp add: lf_items_def lf_view_put items_def lf_quietD(2) [OF q]
      cell_lf_view [OF lf_quietD(1) [OF q] assms(2,3)])

lemma push_retired_same [simp]:
  "lf_at (push_retired t a s) = lf_at s"
  "lf_str (push_retired t a s) = lf_str s"
  "lf_items (push_retired t a s) = lf_items s"
proof -
  show at: "lf_at (push_retired t a s) = lf_at s"
    by (intro ext) (simp add: lf_at_def push_retired_def)
  show "lf_str (push_retired t a s) = lf_str s"
    unfolding lf_str_def at push_retired_heap ..
  have "lf_hash_table (push_retired t a s) = lf_hash_table s"
    "lf_table_size (push_retired t a s) = lf_table_size s"
    by (simp_all add: push_retired_def)
  then show "lf_items (push_retired t a s) = lf_items s"
    unfolding lf_items_def lf_view_def push_retired_heap by simp
qed

lemma lf_quiet_retired: "lf_quiet ts n s \<Longrightarrow> t < n \<Longrightarrow> lf_quiet ts n (push_retired t a s)"
  using lf_inv_retire [of ts n s t a] by (simp add: lf_quiet_def)

text \<open>A hit denotes a slot of one of the key's buckets that holds its fingerprint.\<close>

lemma key_hit_SomeD:
  assumes "key_hit evp ts key s = Some (l, p)"
  defines "h \<equiv> jenkins_hash key mod ts" and "fp \<equiv> md5_fingerprint evp key"
  defines "b \<equiv> if l < NUM_ITEMS_PER_ENTRY then h else get_next_hash_index ts h fp"
    and "i \<equiv> l mod NUM_ITEMS_PER_ENTRY"
  shows "i < NUM_ITEMS_PER_ENTRY" "lf_str s b i = fp" "p = lf_at s b i" "l < NUM_ITEMS_PER_ENTRY * 2"
proof -
  obtain j where j: "j < NUM_ITEMS_PER_ENTRY" and
    "(lf_str s h j = fp \<and> p = lf_at s h j \<and> l = j) \<or>
     (lf_str s (get_next_hash_index ts h fp) j = fp \<and> p = lf_at s (get_next_hash_index ts h fp) j \<and>
      l = j + NUM_ITEMS_PER_ENTRY)"
    using first_hit_SomeD [OF assms(1) [unfolded key_hit_def Let_def]] by (auto simp: h_def fp_def)
  then show "i < NUM_ITEMS_PER_ENTRY" "lf_str s b i = fp" "p = lf_at s b i"
    "l < NUM_ITEMS_PER_ENTRY * 2"
    by (auto simp: b_def i_def)
qed

lemma slot_weight_home:
  assumes "is_pow2 ts" "b \<in> {jenkins_hash key mod ts,
      get_next_hash_index ts (jenkins_hash key mod ts) (md5_fingerprint evp key)}"
  shows "{#(md5_fingerprint evp key, home ts b (md5_fingerprint evp key))#} = {#key_item evp ts key#}"
  using assms home_weight [OF assms(1) hash_mod_less [OF is_pow2_neq_0 [OF assms(1)]]]
  by (auto simp: key_item_def)

text \<open>Emptying a slot of the key and retiring its entry takes one item away.\<close>

lemma lf_ready_take:
  assumes r: "lf_ready evp ts n s" and h: "haz n s s'" and "tid < n"
    and bi: "b < ts" "i < NUM_ITEMS_PER_ENTRY" and str: "lf_str s' b i = md5_fingerprint evp key"
    and b: "b \<in> {jenkins_hash key mod ts,
      get_next_hash_index ts (jenkins_hash key mod ts) (md5_fingerprint evp key)}"
    and null: "create_pointer c 0 False = Some null"
  shows "lf_ready evp ts n (push_retired tid a (lf_put b i null s')) \<and>
    lf_items (push_retired tid a (lf_put b i null s')) = lf_items s - {#key_item evp ts key#}"
proof -
  have quiet: "lf_quiet ts n s'" using r haz_quiet [OF h] by (simp add: lf_ready_def)
  have n0: "get_real_pointer null = 0" "\<not> get_marked null"
    using create_pointer_fields [OF null] by simp_all
  then have "lf_quiet ts n (lf_put b i null s')" by (intro lf_quiet_put [OF quiet bi]) simp_all
  then have "lf_quiet ts n (push_retired tid a (lf_put b i null s'))"
    using assms(3) by (rule lf_quiet_retired)
  moreover have "lf_items (lf_put b i null s') + {#key_item evp ts key#} = lf_items s"
    using lf_items_put [OF quiet bi, of null] str n0 r hazD(4) [OF h] slot_weight_home [OF _ b]
    by (simp add: entry_str_def lf_ready_def md5_fingerprint_nonempty)
  then have "lf_items (lf_put b i null s') = lf_items s - {#key_item evp ts key#}"
    by (metis add_diff_cancel_right')
  ultimately show ?thesis using r by (simp add: lf_ready_def)
qed

lemma lf_total_remove:
  assumes "lf_ready evp ts n s" "tid < n" "0 < fuel"
  shows "lf_total env (lf_remove evp ts fuel key tid) s
    (\<lambda>r s'. lf_ready evp ts n s' \<and> (r \<longleftrightarrow> key_item evp ts key \<in># lf_items s) \<and>
       lf_items s' = lf_items s - {#key_item evp ts key#}) False"
proof -
  let ?fp = "md5_fingerprint evp key" and ?h = "jenkins_hash key mod ts"
  let ?h2 = "get_next_hash_index ts ?h ?fp"
  let ?s = "mark_hazard 0 1 tid (mark_hazard 0 0 tid s)"
  let ?Q = "\<lambda>r s'. lf_ready evp ts n s' \<and> (r \<longleftrightarrow> key_item evp ts key \<in># lf_items s) \<and>
       lf_items s' = lf_items s - {#key_item evp ts key#}"
  have r: "is_pow2 ts" "?fp \<noteq> []" "lf_quiet ts n s"
    using assms(1) by (simp_all add: lf_ready_def md5_fingerprint_nonempty)
  note q = lf_quietD [OF r(3)]
  have ts: "ts \<noteq> 0" using r(1) by (rule is_pow2_neq_0)
  have hs: "haz n s ?s" by simp
  obtain m where fuel: "fuel = Suc m" using assms(3) gr0_implies_Suc by blast
  have "lf_total env (lf_remove_loop (Suc m) evp ts fuel key ?h ?h2 0 tid) ?s ?Q False"
    unfolding lf_remove_loop.simps
  proof (rule lf_total_bind [OF lf_total_find_at [OF haz_quiet [OF hs r(3)] assms(2) r(2) assms(3)]])
    fix res s'
    assume res: "haz n ?s s' \<and> res = (case key_hit evp ts key ?s of
        None \<Rightarrow> (NUM_ITEMS_PER_ENTRY * 2, 0) | Some r \<Rightarrow> r)"
    then have h: "haz n s s'" using hs haz_trans by blast
    have hit: "res = (case key_hit evp ts key s of
        None \<Rightarrow> (NUM_ITEMS_PER_ENTRY * 2, 0) | Some r \<Rightarrow> r)"
      using res haz_key_hit [OF hs] by simp
    have quiet: "lf_quiet ts n s'" by (rule haz_quiet [OF h r(3)])
    show "lf_total env (case res of (location, ptr1) \<Rightarrow>
        if location = NUM_ITEMS_PER_ENTRY * 2 then LRet False
        else let hash_val = if location < NUM_ITEMS_PER_ENTRY then ?h else ?h2
          in lf_create (ucast (get_counter ptr1)) 0 False (\<lambda>null.
               LCas hash_val (location mod NUM_ITEMS_PER_ENTRY) ptr1 null (\<lambda>swapped.
                 if swapped then lf_retire_key ptr1 tid (LRet True)
                 else lf_remove_loop m evp ts fuel key ?h ?h2 ptr1 tid))) s' ?Q False"
    proof (cases "key_hit evp ts key s")
      case None
      then have "key_item evp ts key \<notin># lf_items s" using key_hit_item [OF assms(1)] by blast
      with None hit quiet assms(1) hazD(4) [OF h] show ?thesis
        by (simp add: lf_ready_def diff_single_trivial)
    next
      case (Some lp)
      obtain l p where lp: "lp = (l, p)" by force
      note D = key_hit_SomeD [OF Some [unfolded lp]]
      let ?b = "if l < NUM_ITEMS_PER_ENTRY then ?h else ?h2" and ?i = "l mod NUM_ITEMS_PER_ENTRY"
      have b: "?b < ts" using hash_mod_less [OF ts] get_next_hash_index_less [OF ts] by simp
      have slot: "in_table s' ?b ?i" "lf_str s' ?b ?i = ?fp" "lf_at s' ?b ?i = p"
        using lf_quiet_slot(1) [OF quiet b D(1)] D hazD [OF h] by simp_all
      have item: "key_item evp ts key \<in># lf_items s"
        using Some key_hit_item [OF assms(1)] by blast
      have after: "?Q True (push_retired tid (get_real_pointer p) (lf_put ?b ?i null s'))"
        if "create_pointer (ucast (get_counter p)) 0 False = Some null" for null
        using lf_ready_take [OF assms(1) h assms(2) b D(1) slot(2) _ that] item by simp
      have "l \<noteq> NUM_ITEMS_PER_ENTRY * 2" using D(4) by simp
      moreover have "tid < length (lf_retired_ptrs s')"
        using lf_quietD(5) [OF quiet] assms(2) by simp
      ultimately show ?thesis
        using Some lp hit slot(1,3) after
        by (auto simp: lf_retire_key_def Let_def intro!: lf_total_create)
    qed
  qed
  then show ?thesis
    using assms(2) q(4) ts
    by (simp add: lf_remove_def lf_clear_hazard_def Let_def fuel del: lf_remove_loop.simps)
qed

section \<open>Moving one item\<close>

lemma lf_put_mark_hazard [simp]:
  "lf_put b i v (mark_hazard a j t s) = mark_hazard a j t (lf_put b i v s)"
  by (simp add: lf_put_def mark_hazard_def)

lemma lf_put_move:
  "src \<noteq> dst \<Longrightarrow> lf_put src i null (lf_put dst i new (lf_put src i m s)) =
    lf_put src i null (lf_put dst i new s)"
  using put_cell_swap [of "unat src" "unat dst" "lf_hash_table s" i m i new]
  by (simp add: lf_put_def word_unat_eq_iff)

text \<open>\<open>moved\<close>: the entry of slot \<open>i\<close> of bucket \<open>src\<close> has gone to bucket \<open>dst\<close>.\<close>

definition moved :: "nat \<Rightarrow> nat \<Rightarrow> u32 \<Rightarrow> u32 \<Rightarrow> lf_filter \<Rightarrow> lf_filter \<Rightarrow> bool" where
  "moved n i src dst s s' \<longleftrightarrow> (\<exists>new null.
     get_real_pointer new = get_real_pointer (lf_at s src i) \<and> \<not> get_marked new \<and>
     unat (get_counter new) =
       Suc (max (unat (get_counter (lf_at s src i))) (unat (get_counter (lf_at s dst i)))) \<and>
     get_real_pointer null = 0 \<and> \<not> get_marked null \<and>
     unat (get_counter null) = Suc (unat (get_counter (lf_at s src i))) \<and>
     haz n (lf_put src i null (lf_put dst i new s)) s')"

lemma haz_put:
  assumes "haz n s s'"
  shows "haz n (lf_put b i v s) (lf_put b i v s')"
proof -
  obtain h where h: "s' = s\<lparr>lf_hazard_ptrs := h\<rparr>"
    "rect n MAX_HAZARD_POINTER_COUNT (lf_hazard_ptrs s) \<longrightarrow> rect n MAX_HAZARD_POINTER_COUNT h"
    using assms by (auto simp: haz_def)
  then show ?thesis unfolding haz_def by (intro exI [of _ h]) (simp add: lf_put_def)
qed

lemma moved_haz:
  assumes "haz n s t" "moved n i src dst t s'"
  shows "moved n i src dst s s'"
proof -
  from assms(2) obtain new null where "haz n (lf_put src i null (lf_put dst i new t)) s'"
    and p: "get_real_pointer new = get_real_pointer (lf_at s src i)" "\<not> get_marked new"
      "unat (get_counter new) =
        Suc (max (unat (get_counter (lf_at s src i))) (unat (get_counter (lf_at s dst i))))"
      "get_real_pointer null = 0" "\<not> get_marked null"
      "unat (get_counter null) = Suc (unat (get_counter (lf_at s src i)))"
    by (auto simp: moved_def hazD(1) [OF assms(1)])
  then have "haz n (lf_put src i null (lf_put dst i new s)) s'"
    using haz_put [OF haz_put [OF assms(1)]] haz_trans by blast
  with p show ?thesis unfolding moved_def by blast
qed

definition counter_room :: "lf_filter \<Rightarrow> u32 \<Rightarrow> nat \<Rightarrow> bool" where
  "counter_room s b i \<longleftrightarrow> unat (get_counter (lf_at s b i)) < 65535"

lemma lf_total_help_move:
  assumes q: "lf_quiet ts n s" and b: "src < ts" "dst < ts" "src \<noteq> dst" "i < NUM_ITEMS_PER_ENTRY"
    and m: "m = get_new_mark (lf_at s src i) True"
    and full: "lf_str s src i \<noteq> []" and empty: "lf_str s dst i = []"
    and room: "A \<or> counter_room s src i \<and> counter_room s dst i"
  shows "lf_total env (lf_help_move src dst i m (lf_at s dst i) retry) (lf_put src i m s)
    (\<lambda>_. moved n i src dst s) A"
proof -
  note inv = lf_quietD(1) [OF q]
  note src = lf_quiet_slot [OF q b(1,4)] and dst = lf_quiet_slot [OF q b(2,4)]
  note at = lf_at_put [OF inv b(1,4)]
  let ?c = "get_counter (lf_at s src i)" and ?d = "get_counter (lf_at s dst i)"
  let ?n = "if ?d < ?c then ?c else ?d"
  have n: "(if ?d < ?c then ucast ?c + 1 else ucast ?d + 1) = (ucast ?n + 1 :: u64)" by simp
  have un: "unat ?n = max (unat ?c) (unat ?d)" by (simp add: word_less_nat_alt max_def)
  have f: "fits (get_real_pointer (lf_at s src i))" "fits 0" by simp_all
  have over: "UINT16_MAX < ucast ?c + 1 \<Longrightarrow> A" "UINT16_MAX < ucast ?d + 1 \<Longrightarrow> A"
    using room create_pointer_next_defined [of ?c] create_pointer_next_defined [of ?d]
    by (auto simp: counter_room_def)
  have finish: "moved n i src dst s (lf_put src i null (lf_put dst i new (lf_put src i m s)))"
    if "create_pointer (ucast ?n + 1) (get_real_pointer (lf_at s src i)) False = Some new"
      "create_pointer (ucast ?c + 1) 0 False = Some null" for new null
    unfolding lf_put_move [OF b(3)] moved_def
    using create_pointer_fields [OF that(1) f(1)] create_pointer_fields [OF that(2) f(2)]
      create_pointer_next_counter [OF that(1) f(1)] create_pointer_next_counter [OF that(2) f(2)] un
    by (intro exI [of _ new] exI [of _ null]) simp
  have atd: "lf_at (lf_put src i m s) dst i = lf_at s dst i" "lf_at (lf_put src i m s) src i = m"
    "lf_at (lf_put dst i new (lf_put src i m s)) src i = m" for new
  proof -
    show "lf_at (lf_put src i m s) dst i = lf_at s dst i" "lf_at (lf_put src i m s) src i = m"
      using b(3) by (simp_all add: at)
    have r: "rect (unat ts) NUM_ITEMS_PER_ENTRY (lf_hash_table s)" using inv by (simp add: lf_inv_def)
    show "lf_at (lf_put dst i new (lf_put src i m s)) src i = m"
    proof -
      have "unat src \<noteq> unat dst" using b(3) by (simp add: word_unat_eq_iff)
      with b r show ?thesis
        by (simp add: lf_at_def lf_put_def word_less_nat_alt
            cell_put_cell [where n = "unat ts" and m = NUM_ITEMS_PER_ENTRY])
    qed
  qed
  show ?thesis
  proof (cases "?d < ?c")
    case True
    then show ?thesis
      unfolding lf_help_move_def Let_def
      using src(1) dst(1,3) empty finish [unfolded m]
      by (auto simp: m atd [unfolded m] intro!: lf_total_create) (blast dest: over)+
  next
    case False
    then show ?thesis
      unfolding lf_help_move_def Let_def
      using src(1) dst(1,3) empty finish [unfolded m]
      by (auto simp: m atd [unfolded m] intro!: lf_total_create) (blast dest: over)+
  qed
qed

lemma lf_total_help:
  assumes q: "lf_quiet ts n s" and b: "src < ts" "i < NUM_ITEMS_PER_ENTRY" "tid < n"
    and dst: "dst = get_next_hash_index ts src (lf_str s src i)"
    and full: "lf_str s src i \<noteq> []" and empty: "lf_str s dst i = []"
    and room: "A \<or> counter_room s src i \<and> counter_room s dst i"
    and fuel: "fuel = Suc (Suc f)"
  shows "lf_total env (lf_help_relocate fuel ts src i True tid) s (\<lambda>_. moved n i src dst s) A"
proof -
  note D = lf_quietD [OF q]
  note src = lf_quiet_slot [OF q b(1,2)]
  have ts: "ts \<noteq> 0" using D(3) by auto
  have d: "dst < ts" unfolding dst by (rule get_next_hash_index_less [OF ts])
  have ne: "src \<noteq> dst" using full empty by auto
  let ?m = "get_new_mark (lf_at s src i) True"
  have at: "lf_at (lf_put src i ?m s) dst i = lf_at s dst i" "lf_at (lf_put src i ?m s) src i = ?m"
    using ne by (simp_all add: lf_at_put [OF D(1) b(1,2)])
  have move: "lf_total env (lf_help_move src dst i ?m (lf_at s dst i) retry)
      (mark_hazard a1 1 tid (mark_hazard a2 0 tid (mark_hazard a3 0 tid
        (mark_hazard 0 1 tid (mark_hazard 0 0 tid (lf_put src i ?m s))))))
      (\<lambda>_. moved n i src dst s) A" for a1 a2 a3 retry
  proof -
    let ?h = "mark_hazard a1 1 tid (mark_hazard a2 0 tid (mark_hazard a3 0 tid
        (mark_hazard 0 1 tid (mark_hazard 0 0 tid s))))"
    have h: "haz n s ?h" by simp
    have "lf_total env (lf_help_move src dst i ?m (lf_at s dst i) retry) (lf_put src i ?m ?h)
        (\<lambda>_. moved n i src dst ?h) A"
      using lf_total_help_move [OF haz_quiet [OF h q] b(1) d ne b(2), of ?m A env retry] full empty room
      by (simp add: counter_room_def)
    then show ?thesis using moved_haz [OF h] by (auto elim!: lf_total_mono)
  qed
  show ?thesis
    unfolding lf_help_relocate_def lf_clear_hazard_def fuel
    using src full D(4) b(3) at lf_quiet_slot(1) [OF q d b(2)] move dst
    by (simp add: Let_def)
qed

lemma moved_result:
  assumes q: "lf_quiet ts n s" and b: "src < ts" "dst < ts" "i < NUM_ITEMS_PER_ENTRY"
    and full: "lf_str s src i \<noteq> []" and empty: "lf_str s dst i = []"
    and mv: "moved n i src dst s s'"
  shows "lf_quiet ts n s'" "lf_heap s' = lf_heap s"
    "lf_str s' b' i' = (if i' = i \<and> b' = src then [] else if i' = i \<and> b' = dst then lf_str s src i
       else lf_str s b' i')"
    "is_pow2 ts \<Longrightarrow> dst = get_next_hash_index ts src (lf_str s src i) \<Longrightarrow> lf_items s' = lf_items s"
    "\<forall>b < ts. \<forall>i < NUM_ITEMS_PER_ENTRY. unat (get_counter (lf_at s b i)) \<le> c \<Longrightarrow>
      \<forall>b < ts. \<forall>i < NUM_ITEMS_PER_ENTRY. unat (get_counter (lf_at s' b i)) \<le> Suc c"
proof -
  obtain new null where h: "haz n (lf_put src i null (lf_put dst i new s)) s'"
    and p: "get_real_pointer new = get_real_pointer (lf_at s src i)" "\<not> get_marked new"
      "unat (get_counter new) =
        Suc (max (unat (get_counter (lf_at s src i))) (unat (get_counter (lf_at s dst i))))"
      "get_real_pointer null = 0" "\<not> get_marked null"
      "unat (get_counter null) = Suc (unat (get_counter (lf_at s src i)))"
    using mv by (auto simp: moved_def)
  have ne: "src \<noteq> dst" using full empty by auto
  let ?t = "lf_put dst i new s" and ?u = "lf_put src i null (lf_put dst i new s)"
  have e: "entry_str (lf_heap s) new = lf_str s src i" "entry_str (lf_heap s) null = []"
    by (simp_all add: entry_str_def lf_str_def p)
  have t: "lf_quiet ts n ?t"
    using lf_quiet_slot(4) [OF q b(1,3)] full by (intro lf_quiet_put [OF q b(2,3) p(2)]) (auto simp: p)
  have u: "lf_quiet ts n ?u" by (rule lf_quiet_put [OF t b(1,3) p(5)]) (simp add: p)
  note at_t = lf_at_put [OF lf_quietD(1) [OF q] b(2,3)] and at_u = lf_at_put [OF lf_quietD(1) [OF t] b(1,3)]
  note str_t = lf_str_put [OF lf_quietD(1) [OF q] b(2,3)] and str_u = lf_str_put [OF lf_quietD(1) [OF t] b(1,3)]
  show "lf_quiet ts n s'" by (rule haz_quiet [OF h u])
  show "lf_heap s' = lf_heap s" by (simp add: hazD [OF h])
  show "lf_str s' b' i' = (if i' = i \<and> b' = src then [] else if i' = i \<and> b' = dst then lf_str s src i
       else lf_str s b' i')"
    using ne by (auto simp: hazD [OF h] str_u str_t e)
  show "lf_items s' = lf_items s"
    if "is_pow2 ts" "dst = get_next_hash_index ts src (lf_str s src i)"
  proof -
    let ?g = "\<lambda>b fp. {#(fp, home ts b fp)#}" and ?fp = "lf_str s src i"
    have "lf_items ?t = lf_items s + {#(?fp, home ts dst ?fp)#}"
      using lf_items_put [OF q b(2,3), of new] empty full e(1) by simp
    moreover have "lf_items ?u + {#(?fp, home ts src ?fp)#} = lf_items ?t"
      using lf_items_put [OF t b(1,3), of null] full ne e(2) by (simp add: str_t)
    moreover have "{#(?fp, home ts dst ?fp)#} = {#(?fp, home ts src ?fp)#}"
      unfolding that(2) by (rule home_weight [OF that(1) b(1)])
    ultimately show ?thesis by (simp add: hazD [OF h])
  qed
  show "\<forall>b < ts. \<forall>i < NUM_ITEMS_PER_ENTRY. unat (get_counter (lf_at s' b i)) \<le> Suc c"
    if c: "\<forall>b < ts. \<forall>i < NUM_ITEMS_PER_ENTRY. unat (get_counter (lf_at s b i)) \<le> c"
  proof -
    have "unat (get_counter (lf_at s src i)) \<le> c" "unat (get_counter (lf_at s dst i)) \<le> c"
      using c b by auto
    then show ?thesis using c by (auto simp: hazD [OF h] at_u at_t p le_Suc_eq)
  qed
qed

section \<open>Path discovery alone\<close>

definition step_bucket :: "lf_filter \<Rightarrow> nat \<Rightarrow> u32 \<Rightarrow> u32" where
  "step_bucket s i b = get_next_hash_index (lf_table_size s) b (lf_str s b i)"

definition route_to :: "lf_filter \<Rightarrow> nat \<Rightarrow> u32 \<Rightarrow> nat \<Rightarrow> u32" where
  "route_to s i b d = (step_bucket s i ^^ d) b"

text \<open>How far along the path from bucket \<open>b\<close> in column \<open>i\<close> the first empty slot is.\<close>

definition dist_within :: "nat \<Rightarrow> lf_filter \<Rightarrow> nat \<Rightarrow> u32 \<Rightarrow> nat option" where
  "dist_within m s i b = first_idx (\<lambda>d. lf_str s (route_to s i b d) i = []) m"

lemma route_to_Suc: "route_to s i b (Suc d) = route_to s i (step_bucket s i b) d"
  by (simp only: route_to_def funpow_Suc_right comp_apply)

lemma route_to_step: "route_to s i b (Suc d) = step_bucket s i (route_to s i b d)"
  by (simp add: route_to_def)

lemma route_to_0 [simp]: "route_to s i b 0 = b"
  by (simp add: route_to_def)

lemma route_to_less: "lf_quiet ts n s \<Longrightarrow> b < ts \<Longrightarrow> route_to s i b d < ts"
  using lf_quietD(2,3) [of ts n s] get_next_hash_index_less [of ts]
  by (cases d) (auto simp: route_to_step step_bucket_def)

lemma dist_within_Suc:
  "dist_within (Suc m) s i b =
     (if lf_str s b i = [] then Some 0 else map_option Suc (dist_within m s i (step_bucket s i b)))"
  unfolding dist_within_def first_idx_Suc by (simp add: route_to_Suc)

lemma haz_dist:
  "haz n s s' \<Longrightarrow> dist_within m s' i b = dist_within m s i b"
  "haz n s s' \<Longrightarrow> route_to s' i b d = route_to s i b d"
proof -
  assume h: "haz n s s'"
  then have "step_bucket s' i = step_bucket s i" by (intro ext) (simp add: step_bucket_def hazD)
  then show r: "route_to s' i b d = route_to s i b d" for d by (simp add: route_to_def)
  show "dist_within m s' i b = dist_within m s i b"
    by (simp add: dist_within_def r hazD [OF h])
qed

lemma lf_total_unmark:
  "\<not> get_marked p \<Longrightarrow> 0 < fuel \<Longrightarrow> lf_total env (lf_unmark fuel g ts b i tid p) s (\<lambda>r s'. r = p \<and> s' = s) A"
  by (cases fuel) simp_all

lemma lf_total_discover:
  assumes q: "lf_quiet ts n s" and b: "b < ts" "i < NUM_ITEMS_PER_ENTRY" "tid < n" "0 < fuel"
    and m: "0 < m" "m + depth = NUM_MAX_KICKS" "length route = NUM_MAX_KICKS"
  shows "lf_total env (lf_discover m fuel ts i tid depth b route) s (\<lambda>(found, d, b', route') s'.
    haz n s s' \<and> (\<forall>k < depth. route' ! k = route ! k) \<and>
    (case dist_within m s i b of None \<Rightarrow> \<not> found
     | Some j \<Rightarrow> found \<and> d = depth + j \<and> (\<forall>k < j. route' ! (depth + k) = route_to s i b k))) A"
  using q b(1) m
proof (induction m arbitrary: s b depth route)
  case (Suc m)
  note q = Suc.prems(1) and b1 = Suc.prems(2)
  note slot = lf_quiet_slot [OF q b1 b(2)] and D = lf_quietD [OF q]
  let ?s = "mark_hazard (get_real_pointer (lf_at s b i)) 0 tid s"
  have h: "haz n s ?s" by simp
  show ?case
  proof (cases "lf_str s b i = []")
    case True
    then show ?thesis
      using slot D(4) b(3,4)
      by (auto simp: dist_within_Suc intro!: lf_total_bind [OF lf_total_unmark])
  next
    case False
    have next': "get_next_hash_index ts b (lf_str s b i) = step_bucket s i b"
      by (simp add: step_bucket_def D(2))
    have lt: "step_bucket s i b < ts" using route_to_less [OF q b1, of i 1] by (simp add: route_to_step)
    have depth: "depth < NUM_MAX_KICKS" using Suc.prems(4) by simp
    let ?Q = "\<lambda>(found, d, b', route') s'. haz n s s' \<and> (\<forall>k < depth. route' ! k = route ! k) \<and>
      (case dist_within (Suc m) s i b of None \<Rightarrow> \<not> found
       | Some j \<Rightarrow> found \<and> d = depth + j \<and> (\<forall>k < j. route' ! (depth + k) = route_to s i b k))"
    have go: "lf_total env
        (if Suc depth < NUM_MAX_KICKS
         then lf_discover m fuel ts i tid (Suc depth) (step_bucket s i b) (route[depth := b])
         else LRet (False, Suc depth, step_bucket s i b, route[depth := b])) ?s ?Q A"
    proof (cases "Suc depth < NUM_MAX_KICKS")
      case True
      have "lf_total env (lf_discover m fuel ts i tid (Suc depth) (step_bucket s i b) (route[depth := b])) ?s
        (\<lambda>(found, d, b', route') s'. haz n ?s s' \<and>
          (\<forall>k < Suc depth. route' ! k = route[depth := b] ! k) \<and>
          (case dist_within m ?s i (step_bucket s i b) of None \<Rightarrow> \<not> found
           | Some j \<Rightarrow> found \<and> d = Suc depth + j \<and>
               (\<forall>k < j. route' ! (Suc depth + k) = route_to ?s i (step_bucket s i b) k))) A"
        by (rule Suc.IH [OF haz_quiet [OF h q] lt]) (use Suc.prems True in auto)
      then have "lf_total env (lf_discover m fuel ts i tid (Suc depth) (step_bucket s i b) (route[depth := b])) ?s ?Q A"
      proof (rule lf_total_mono, clarify)
        fix found d b' route' s'
        assume hz: "haz n ?s s'" and keep: "\<forall>k < Suc depth. route' ! k = route[depth := b] ! k"
          and res: "case dist_within m ?s i (step_bucket s i b) of None \<Rightarrow> \<not> found
           | Some j \<Rightarrow> found \<and> d = Suc depth + j \<and>
               (\<forall>k < j. route' ! (Suc depth + k) = route_to ?s i (step_bucket s i b) k)"
        have at: "route' ! depth = b" using keep depth Suc.prems(5) by simp
        have "route' ! (depth + k) = route_to s i b k"
          if "k < Suc j" "\<forall>k < j. route' ! (Suc depth + k) = route_to s i (step_bucket s i b) k" for j k
          using that at by (cases k) (auto simp: route_to_Suc)
        then show "haz n s s' \<and> (\<forall>k < depth. route' ! k = route ! k) \<and>
          (case dist_within (Suc m) s i b of None \<Rightarrow> \<not> found
           | Some j \<Rightarrow> found \<and> d = depth + j \<and> (\<forall>k < j. route' ! (depth + k) = route_to s i b k))"
          using haz_trans [OF h hz] keep res False
          by (auto simp: dist_within_Suc haz_dist [OF h] split: option.splits)
      qed
      with True show ?thesis by simp
    next
      case False': False
      then have "m = 0" using Suc.prems(4) by simp
      moreover have "dist_within 0 s i x = None" for x by (simp add: dist_within_def)
      ultimately show ?thesis using False' False by (simp add: dist_within_Suc)
    qed
    have "get_real_pointer (lf_at s b i) \<noteq> 0" using slot(3) False by simp
    then show ?thesis
      using slot(1,2,4) D(4) b(3,4) depth go
      by (auto simp: next' Let_def intro!: lf_total_bind [OF lf_total_unmark])
  qed
qed simp

section \<open>\<open>relocate\<close> alone\<close>

text \<open>Once the source is empty, the rest of the path loop skips.\<close>

lemma lf_total_traverse_skip:
  assumes "lf_quiet ts n s" "route ! lvl < ts" "i < NUM_ITEMS_PER_ENTRY" "lvl < NUM_MAX_KICKS"
    and "lf_str s (route ! lvl) i = []"
  shows "lf_total env (lf_traverse fuel ts i tid route lvl js) s (\<lambda>r s'. r = None \<and> s' = s) A"
  using lf_quiet_slot [OF assms(1-3)] assms(4,5) by (induction js) (simp_all add: Let_def)

lemma lf_total_traverse:
  assumes q: "lf_quiet ts n s" and b: "src < ts" "i < NUM_ITEMS_PER_ENTRY" "tid < n"
    and src: "route ! lvl = src" "lvl < NUM_MAX_KICKS"
    and dst: "dst = get_next_hash_index ts src (lf_str s src i)"
    and full: "lf_str s src i \<noteq> []" and empty: "lf_str s dst i = []"
    and room: "A \<or> counter_room s src i \<and> counter_room s dst i"
    and fuel: "fuel = Suc (Suc f)"
  shows "lf_total env (lf_traverse fuel ts i tid route lvl (j # js)) s
    (\<lambda>r s'. r = None \<and> moved n i src dst s s') A"
proof -
  note D = lf_quietD [OF q] and slot = lf_quiet_slot [OF q b(1,2)]
  have d: "dst < ts" unfolding dst using D(3) by (intro get_next_hash_index_less) auto
  note dslot = lf_quiet_slot [OF q d b(2)]
  let ?s = "mark_hazard 0 1 tid s"
  have h: "haz n s ?s" by simp
  have "lf_total env (lf_bind (lf_help_relocate fuel ts src i True tid)
      (\<lambda>_. lf_traverse fuel ts i tid route lvl js)) ?s (\<lambda>r s'. r = None \<and> moved n i src dst s s') A"
  proof (rule lf_total_bind [where R = "\<lambda>_. moved n i src dst ?s"])
    show "lf_total env (lf_help_relocate fuel ts src i True tid) ?s (\<lambda>_. moved n i src dst ?s) A"
      by (rule lf_total_help [OF haz_quiet [OF h q] b _ _ _ _ fuel])
        (use dst full empty room in \<open>simp_all add: counter_room_def\<close>)
    fix s'
    assume m: "moved n i src dst ?s s'"
    note m' = moved_haz [OF h m]
    note R = moved_result [OF q b(1) d b(2) full empty m']
    have "lf_str s' src i = []" using R(3) [of src i] by simp
    then have "lf_total env (lf_traverse fuel ts i tid route lvl js) s' (\<lambda>r s''. r = None \<and> s'' = s') A"
      using lf_total_traverse_skip [OF R(1), of route lvl i] b src by simp
    then show "lf_total env (lf_traverse fuel ts i tid route lvl js) s'
        (\<lambda>r s'. r = None \<and> moved n i src dst s s') A"
      using m' by (auto elim: lf_total_mono)
  qed
  then show ?thesis
    using slot dslot full empty src dst D(4) b(3) by (auto simp: Let_def)
qed

text \<open>
  Alone, \<open>relocate\<close> moves exactly one item, the last one of the path, or nothing when the path
  from the slot finds no free slot within \<open>NUM_MAX_KICKS\<close> buckets.
\<close>

lemma lf_total_relocate:
  assumes q: "lf_quiet ts n s" and b: "b < ts" "i < NUM_ITEMS_PER_ENTRY" "tid < n"
    and full: "lf_str s b i \<noteq> []"
    and room: "dist_within NUM_MAX_KICKS s i b \<noteq> None \<Longrightarrow>
      A \<or> (\<forall>b < ts. \<forall>i < NUM_ITEMS_PER_ENTRY. counter_room s b i)"
    and fuel: "2 \<le> fuel"
  shows "lf_total env (lf_relocate fuel ts b i tid) s (\<lambda>r s'.
    case dist_within NUM_MAX_KICKS s i b of
      None \<Rightarrow> \<not> r \<and> haz n s s'
    | Some j \<Rightarrow> r \<and> (\<exists>d. j = Suc d \<and> moved n i (route_to s i b d) (route_to s i b j) s s')) A"
proof -
  obtain f where f: "fuel = Suc (Suc f)" using fuel by (metis add_2_eq_Suc le_iff_add)
  have pos: "0 < NUM_MAX_KICKS" "0 < fuel" by (simp_all add: NUM_MAX_KICKS_def f)
  have unroll: "lf_relocate fuel ts b i tid = lf_relocate_from (Suc (Suc f)) fuel ts b i tid 0"
    by (simp only: lf_relocate_def f)
  show ?thesis
    unfolding unroll lf_relocate_from.simps(2) [of "Suc f"]
  proof (rule lf_total_bind [OF lf_total_discover [OF q b pos(2,1)]], simp, simp, clarify)
    fix found d b' route s'
    assume h: "haz n s s'"
      and res: "case dist_within NUM_MAX_KICKS s i b of None \<Rightarrow> \<not> found
       | Some j \<Rightarrow> found \<and> d = 0 + j \<and> (\<forall>k < j. route ! (0 + k) = route_to s i b k)"
    note q' = haz_quiet [OF h q]
    let ?Q = "\<lambda>r s'. case dist_within NUM_MAX_KICKS s i b of None \<Rightarrow> \<not> r \<and> haz n s s'
      | Some j \<Rightarrow> r \<and> (\<exists>d. j = Suc d \<and> moved n i (route_to s i b d) (route_to s i b j) s s')"
    show "lf_total env
       (if found
        then lf_bind (lf_traverse fuel ts i tid route (d - 1) (rev [0..<d])) (\<lambda>again.
          case again of None \<Rightarrow> LRet True
          | Some start_level \<Rightarrow> lf_relocate_from (Suc f) fuel ts b' i tid start_level)
        else LRet False) s' ?Q A"
    proof (cases "dist_within NUM_MAX_KICKS s i b")
      case None
      with res h show ?thesis by simp
    next
      case (Some j)
      then have j: "j < NUM_MAX_KICKS" "lf_str s (route_to s i b j) i = []"
        "\<forall>k < j. lf_str s (route_to s i b k) i \<noteq> []"
        unfolding dist_within_def first_idx_Some_iff by auto
      have "j \<noteq> 0" using j(2) full by (cases j) auto
      then obtain e where e: "j = Suc e" by (cases j) auto
      let ?src = "route_to s i b e" and ?dst = "route_to s i b j"
      have "lf_total env (lf_traverse fuel ts i tid route e (e # rev [0..<e])) s'
          (\<lambda>r s''. r = None \<and> moved n i ?src ?dst s' s'') A"
      proof (rule lf_total_traverse [OF q' route_to_less [OF q b(1)] b(2,3) _ _ _ _ _ _ f])
        show "?dst = get_next_hash_index ts ?src (lf_str s' ?src i)"
          by (simp add: e route_to_step step_bucket_def lf_quietD(2) [OF q] hazD [OF h])
        show "A \<or> counter_room s' ?src i \<and> counter_room s' ?dst i"
          using room Some route_to_less [OF q b(1)] b(2) by (auto simp: counter_room_def hazD [OF h])
      qed (use j res Some e in \<open>auto simp: hazD [OF h]\<close>)
      then have "lf_total env (lf_bind (lf_traverse fuel ts i tid route e (e # rev [0..<e])) (\<lambda>again.
          case again of None \<Rightarrow> LRet True
          | Some start_level \<Rightarrow> lf_relocate_from (Suc f) fuel ts b' i tid start_level)) s' ?Q A"
        by (rule lf_total_bind) (auto simp: Some e dest: moved_haz [OF h])
      with Some res e show ?thesis
        by (simp del: lf_traverse.simps lf_relocate_from.simps)
    qed
  qed
qed

section \<open>\<open>insert\<close> alone\<close>

lemma dist_moved:
  assumes q: "lf_quiet ts n s" and b: "b < ts" "i < NUM_ITEMS_PER_ENTRY"
    and dist: "dist_within NUM_MAX_KICKS s i b = Some (Suc d)"
    and mv: "moved n i (route_to s i b d) (route_to s i b (Suc d)) s s'"
  shows "dist_within NUM_MAX_KICKS s' i b = Some d"
    and "i' \<noteq> i \<Longrightarrow> dist_within NUM_MAX_KICKS s' i' b = dist_within NUM_MAX_KICKS s i' b"
proof -
  let ?r = "route_to s i b"
  have D: "Suc d < NUM_MAX_KICKS" "lf_str s (?r (Suc d)) i = []" "\<And>k. k \<le> d \<Longrightarrow> lf_str s (?r k) i \<noteq> []"
    using dist unfolding dist_within_def first_idx_Some_iff by auto
  note R = moved_result [OF q route_to_less [OF q b(1)] route_to_less [OF q b(1)] b(2) D(3) [OF order.refl] D(2) mv]
  have ts: "lf_table_size s' = lf_table_size s"
    using lf_quietD(2) [OF q] lf_quietD(2) [OF R(1)] by simp
  have other: "?r k \<noteq> ?r d \<and> ?r k \<noteq> ?r (Suc d)" if "k < d" for k
  proof -
    have "?r (Suc k) \<noteq> ?r (Suc d)" using D(2) D(3) [of "Suc k"] that by (metis Suc_leI)
    then have "?r k \<noteq> ?r d" by (metis route_to_step)
    moreover have "?r k \<noteq> ?r (Suc d)" using D(2) D(3) [of k] that by (metis less_imp_le)
    ultimately show ?thesis ..
  qed
  have str: "lf_str s' (?r k) i = lf_str s (?r k) i" if "k < d" for k
    using R(3) [of "?r k" i] other [OF that] by simp
  have same: "route_to s' i b k = ?r k" if "k \<le> d" for k
    using that
  proof (induction k)
    case (Suc k)
    then show ?case using str [of k] by (simp add: route_to_step step_bucket_def ts)
  qed simp
  show "dist_within NUM_MAX_KICKS s' i b = Some d"
    unfolding dist_within_def first_idx_Some_iff using D(1,3) same str R(3) [of "?r d" i] by auto
  show "dist_within NUM_MAX_KICKS s' i' b = dist_within NUM_MAX_KICKS s i' b" if "i' \<noteq> i"
  proof -
    have "lf_str s' b' i' = lf_str s b' i'" for b' using R(3) [of b' i'] that by simp
    moreover from this have "step_bucket s' i' = step_bucket s i'"
      by (intro ext) (simp add: step_bucket_def ts)
    ultimately show ?thesis by (simp add: dist_within_def route_to_def)
  qed
qed

text \<open>The number of moves that can still be made for a bucket.\<close>

definition moves_left :: "lf_filter \<Rightarrow> u32 \<Rightarrow> nat" where
  "moves_left s b = (\<Sum>i < NUM_ITEMS_PER_ENTRY.
     case dist_within NUM_MAX_KICKS s i b of None \<Rightarrow> 0 | Some d \<Rightarrow> d)"

lemma moves_left_haz: "haz n s s' \<Longrightarrow> moves_left s' b = moves_left s b"
  by (simp add: moves_left_def haz_dist)

lemma moves_left_bound: "moves_left s b \<le> 36"
proof -
  have "(case dist_within NUM_MAX_KICKS s i b of None \<Rightarrow> 0 | Some d \<Rightarrow> d) \<le> 9" for i
    by (auto simp: dist_within_def first_idx_Some_iff NUM_MAX_KICKS_def split: option.split)
  then have "moves_left s b \<le> (\<Sum>i < NUM_ITEMS_PER_ENTRY. 9)"
    unfolding moves_left_def by (intro sum_mono)
  then show ?thesis by (simp add: NUM_ITEMS_PER_ENTRY_def)
qed

lemma moves_left_moved:
  assumes "lf_quiet ts n s" "b < ts" "i < NUM_ITEMS_PER_ENTRY"
    "dist_within NUM_MAX_KICKS s i b = Some (Suc d)"
    "moved n i (route_to s i b d) (route_to s i b (Suc d)) s s'"
  shows "moves_left s b = Suc (moves_left s' b)"
proof -
  note M = dist_moved [OF assms]
  let ?f = "\<lambda>s i. case dist_within NUM_MAX_KICKS s i b of None \<Rightarrow> 0 | Some d \<Rightarrow> d"
  have "(\<Sum>j \<in> {..<NUM_ITEMS_PER_ENTRY} - {i}. ?f s' j) = (\<Sum>j \<in> {..<NUM_ITEMS_PER_ENTRY} - {i}. ?f s j)"
    by (rule sum.cong) (auto simp: M(2))
  then show ?thesis
    unfolding moves_left_def
    using assms(3,4) M(1) by (simp add: sum.remove [of "{..<NUM_ITEMS_PER_ENTRY}" i])
qed

text \<open>Counters that leave room for \<open>k\<close> more moves.\<close>

definition counters_below :: "u32 \<Rightarrow> lf_filter \<Rightarrow> nat \<Rightarrow> bool" where
  "counters_below ts s k \<longleftrightarrow>
     (\<forall>b < ts. \<forall>i < NUM_ITEMS_PER_ENTRY. unat (get_counter (lf_at s b i)) + k \<le> 65535)"

lemma counters_below_room:
  "counters_below ts s (Suc k) \<Longrightarrow> \<forall>b < ts. \<forall>i < NUM_ITEMS_PER_ENTRY. counter_room s b i"
  by (fastforce simp: counters_below_def counter_room_def)

definition one_move :: "u32 \<Rightarrow> nat \<Rightarrow> u32 \<Rightarrow> lf_filter \<Rightarrow> lf_filter \<Rightarrow> bool" where
  "one_move ts n b s s' \<longleftrightarrow> lf_quiet ts n s' \<and> lf_heap s' = lf_heap s \<and>
     (is_pow2 ts \<longrightarrow> lf_items s' = lf_items s) \<and> moves_left s b = Suc (moves_left s' b) \<and>
     (\<forall>k. counters_below ts s (Suc k) \<longrightarrow> counters_below ts s' k)"

lemma one_move_moved:
  assumes "lf_quiet ts n s" "b < ts" "i < NUM_ITEMS_PER_ENTRY"
    "dist_within NUM_MAX_KICKS s i b = Some (Suc d)"
    "moved n i (route_to s i b d) (route_to s i b (Suc d)) s s'"
  shows "one_move ts n b s s'"
proof -
  have D: "lf_str s (route_to s i b (Suc d)) i = []" "lf_str s (route_to s i b d) i \<noteq> []"
    using assms(4) unfolding dist_within_def first_idx_Some_iff by auto
  note R = moved_result [OF assms(1) route_to_less [OF assms(1,2)] route_to_less [OF assms(1,2)]
      assms(3) D(2,1) assms(5)]
  have "counters_below ts s' k" if "counters_below ts s (Suc k)" for k
  proof -
    have "k \<le> 65534" using that assms(2,3) by (fastforce simp: counters_below_def)
    with that R(5) [of "65534 - k"] show ?thesis by (fastforce simp: counters_below_def)
  qed
  moreover have "lf_items s' = lf_items s" if "is_pow2 ts"
    by (rule R(4) [OF that])
      (simp add: route_to_step step_bucket_def lf_quietD(2) [OF assms(1)])
  ultimately show ?thesis
    unfolding one_move_def using R(1,2) moves_left_moved [OF assms] by blast
qed

lemma one_move_haz: "haz n s t \<Longrightarrow> one_move ts n b t s' \<Longrightarrow> one_move ts n b s s'"
  unfolding one_move_def counters_below_def by (simp add: hazD moves_left_haz)

lemma moves_left_0:
  assumes "moves_left s b = 0" "i < NUM_ITEMS_PER_ENTRY" "lf_str s b i \<noteq> []"
  shows "dist_within NUM_MAX_KICKS s i b = None"
proof (rule ccontr)
  assume "dist_within NUM_MAX_KICKS s i b \<noteq> None"
  then obtain d where d: "dist_within NUM_MAX_KICKS s i b = Some d" by auto
  moreover have "\<forall>i < NUM_ITEMS_PER_ENTRY.
      (case dist_within NUM_MAX_KICKS s i b of None \<Rightarrow> 0 | Some d \<Rightarrow> d) = 0"
    using assms(1) unfolding moves_left_def by simp
  ultimately have "d = 0" using assms(2) by force
  with d assms(3) show False by (simp add: dist_within_def first_idx_Some_iff)
qed

lemma lf_total_kick_any:
  assumes b: "b < ts" "tid < n" and fuel: "2 \<le> fuel"
  shows "lf_quiet ts n s \<Longrightarrow> set order \<subseteq> {..<NUM_ITEMS_PER_ENTRY} \<Longrightarrow>
    \<forall>i < NUM_ITEMS_PER_ENTRY. lf_str s b i \<noteq> [] \<Longrightarrow>
    moves_left s b \<noteq> 0 \<longrightarrow> A \<or> counters_below ts s 1 \<Longrightarrow>
    lf_total env (lf_kick_any fuel ts b tid order) s
      (\<lambda>r s'. if r then one_move ts n b s s' else haz n s s') A"
proof (induction order arbitrary: s)
  case (Cons i order)
  have i: "i < NUM_ITEMS_PER_ENTRY" "lf_str s b i \<noteq> []" using Cons.prems by auto
  have room: "A \<or> (\<forall>b < ts. \<forall>i < NUM_ITEMS_PER_ENTRY. counter_room s b i)"
    if "dist_within NUM_MAX_KICKS s i b \<noteq> None"
    using Cons.prems(4) moves_left_0 [OF _ i] that counters_below_room [of ts s 0] by auto
  have sub: "set order \<subseteq> {..<NUM_ITEMS_PER_ENTRY}" using Cons.prems(2) by simp
  show ?case
    unfolding lf_kick_any.simps
  proof (rule lf_total_bind [OF lf_total_relocate [OF Cons.prems(1) b(1) i(1) b(2) i(2) room fuel]])
    fix r s'
    assume r: "case dist_within NUM_MAX_KICKS s i b of None \<Rightarrow> \<not> r \<and> haz n s s'
      | Some j \<Rightarrow> r \<and> (\<exists>d. j = Suc d \<and> moved n i (route_to s i b d) (route_to s i b j) s s')"
    show "lf_total env (if r then LRet True else lf_kick_any fuel ts b tid order) s'
      (\<lambda>r s'. if r then one_move ts n b s s' else haz n s s') A"
    proof (cases "dist_within NUM_MAX_KICKS s i b")
      case None
      with r have h: "\<not> r" "haz n s s'" by simp_all
      have "lf_total env (lf_kick_any fuel ts b tid order) s'
          (\<lambda>r s''. if r then one_move ts n b s' s'' else haz n s' s'') A"
        by (rule Cons.IH [OF haz_quiet [OF h(2) Cons.prems(1)] sub])
          (use Cons.prems(3,4) in \<open>simp_all add: hazD [OF h(2)] moves_left_haz [OF h(2)]
            counters_below_def\<close>)
      with h show ?thesis
        by (auto elim!: lf_total_mono split: if_splits intro: one_move_haz haz_trans)
    next
      case (Some j)
      with r one_move_moved [OF Cons.prems(1) b(1) i(1)] show ?thesis by auto
    qed
  qed
qed simp

text \<open>The scan stores the entry in the first free slot it meets.\<close>

lemma lf_total_try_slot:
  assumes "lf_quiet ts n s" "b < ts" "i < NUM_ITEMS_PER_ENTRY"
    and "\<And>new. lf_str s b i = [] \<Longrightarrow> create_pointer (ucast (get_counter (lf_at s b i))) e False = Some new \<Longrightarrow>
      lf_total env ins (lf_put b i new s) Q A"
    and "lf_str s b i \<noteq> [] \<Longrightarrow> lf_total env (occ False) s Q A"
  shows "lf_total env (lf_try_slot b i e occ ins) s Q A"
  using lf_quiet_slot [OF assms(1-3)] assms(4,5)
  by (auto simp: lf_try_slot_def intro!: lf_total_create)

lemma lf_total_scan:
  assumes q: "lf_quiet ts n s" and b: "b1 < ts" "b2 < ts"
    and put: "\<And>b i new. b \<in> {b1, b2} \<Longrightarrow> i < NUM_ITEMS_PER_ENTRY \<Longrightarrow> lf_str s b i = [] \<Longrightarrow>
      create_pointer (ucast (get_counter (lf_at s b i))) e False = Some new \<Longrightarrow>
      Q True (lf_put b i new s)"
    and k: "\<forall>i \<in> set js0. lf_str s b1 i \<noteq> [] \<and> lf_str s b2 i \<noteq> [] \<Longrightarrow> lf_total env (k False) s Q A"
  shows "set js \<subseteq> {..<NUM_ITEMS_PER_ENTRY} \<Longrightarrow>
    \<forall>i \<in> set js0 - set js. lf_str s b1 i \<noteq> [] \<and> lf_str s b2 i \<noteq> [] \<Longrightarrow>
    lf_total env (lf_scan js b1 b2 e False k) s Q A"
proof (induction js)
  case (Cons j js)
  then have j: "j < NUM_ITEMS_PER_ENTRY" by simp
  show ?case
    unfolding lf_scan.simps
  proof (rule lf_total_try_slot [OF q b(1) j])
    show "lf_total env (lf_try_slot b2 j e (\<lambda>e2. lf_scan js b1 b2 e (False \<or> False \<or> e2) k) (LRet True)) s Q A"
      if "lf_str s b1 j \<noteq> []"
    proof (rule lf_total_try_slot [OF q b(2) j])
      show "lf_total env (lf_scan js b1 b2 e (False \<or> False \<or> False) k) s Q A" if "lf_str s b2 j \<noteq> []"
        using Cons that \<open>lf_str s b1 j \<noteq> []\<close> by auto
    qed (use put j in simp)
  qed (use put j in simp)
qed (use k in simp)

lemma clock_same:
  "lf_at (s\<lparr>lf_clock := c\<rparr>) = lf_at s"
  "lf_str (s\<lparr>lf_clock := c\<rparr>) = lf_str s"
  "lf_items (s\<lparr>lf_clock := c\<rparr>) = lf_items s"
  "moves_left (s\<lparr>lf_clock := c\<rparr>) b = moves_left s b"
  "counters_below ts (s\<lparr>lf_clock := c\<rparr>) k = counters_below ts s k"
proof -
  show at: "lf_at (s\<lparr>lf_clock := c\<rparr>) = lf_at s" by (intro ext) (simp add: lf_at_def)
  show str: "lf_str (s\<lparr>lf_clock := c\<rparr>) = lf_str s" by (intro ext) (simp add: lf_str_def at)
  show "lf_items (s\<lparr>lf_clock := c\<rparr>) = lf_items s" by (simp add: lf_items_def lf_view_def)
  have "step_bucket (s\<lparr>lf_clock := c\<rparr>) i = step_bucket s i" for i
    by (intro ext) (simp add: step_bucket_def str)
  then show "moves_left (s\<lparr>lf_clock := c\<rparr>) b = moves_left s b"
    by (simp add: moves_left_def dist_within_def route_to_def str)
  show "counters_below ts (s\<lparr>lf_clock := c\<rparr>) k = counters_below ts s k"
    by (simp add: counters_below_def at)
qed

lemma lf_quiet_clock: "lf_quiet ts n s \<Longrightarrow> lf_quiet ts n (s\<lparr>lf_clock := c\<rparr>)"
  using lf_inv_clock [of ts n s c] by (simp add: lf_quiet_def clock_same)

lemma counters_below_mono: "counters_below ts s k \<Longrightarrow> j \<le> k \<Longrightarrow> counters_below ts s j"
  by (fastforce simp: counters_below_def)

text \<open>Storing a live entry with a fingerprint in a free slot.\<close>

lemma lf_put_entry:
  assumes q: "lf_quiet ts n s" and b: "b < ts" "i < NUM_ITEMS_PER_ENTRY" and empty: "lf_str s b i = []"
    and e: "lf_heap s e = Some fp" "fp \<noteq> []" "e \<noteq> 0" "fits e"
    and new: "create_pointer (ucast (get_counter (lf_at s b i))) e False = Some new"
  shows "lf_quiet ts n (lf_put b i new s)"
    "lf_items (lf_put b i new s) = add_mset (fp, home ts b fp) (lf_items s)"
proof -
  note f = create_pointer_fields [OF new e(4)]
  show "lf_quiet ts n (lf_put b i new s)"
    by (rule lf_quiet_put [OF q b]) (use f e in auto)
  show "lf_items (lf_put b i new s) = add_mset (fp, home ts b fp) (lf_items s)"
    using lf_items_put [OF q b, of new] empty f e by (simp add: entry_str_def)
qed

lemma lf_total_insert_loop:
  assumes b: "b1 < ts" "tid < n" "b2 = get_next_hash_index ts b1 fp" and fuel: "2 \<le> fuel"
    and e: "fp \<noteq> []" "e \<noteq> 0" "fits e" and env: "env_ok env" and pow2: "is_pow2 ts"
  shows "lf_quiet ts n s \<Longrightarrow> lf_heap s e = Some fp \<Longrightarrow> moves_left s b1 < m \<Longrightarrow>
    A \<or> counters_below ts s (moves_left s b1) \<Longrightarrow>
    lf_total env (lf_insert_loop m fuel ts b1 b2 e tid) s (\<lambda>r s'. lf_quiet ts n s' \<and>
      lf_items s' = lf_items s + (if r then {#(fp, home ts b1 fp)#} else {#})) A"
proof (induction m arbitrary: s)
  case (Suc m)
  note q = Suc.prems(1)
  have b2: "b2 < ts" unfolding b(3) using lf_quietD(3) [OF q] by (intro get_next_hash_index_less) auto
  have homes: "home ts b fp = home ts b1 fp" if "b \<in> {b1, b2}" for b
    using that home_next [of ts b1 fp] b(1,3) pow2 by (auto simp: pow2_index_def)
  let ?Q = "\<lambda>r s'. lf_quiet ts n s' \<and>
      lf_items s' = lf_items s + (if r then {#(fp, home ts b1 fp)#} else {#})"
  show ?case
    unfolding lf_insert_loop.simps
  proof (rule lf_total_scan [where ?js0.0 = "[0..<NUM_ITEMS_PER_ENTRY]", OF q b(1) b2])
    show "?Q True (lf_put b i new s)"
      if "b \<in> {b1, b2}" "i < NUM_ITEMS_PER_ENTRY" "lf_str s b i = []"
        "create_pointer (ucast (get_counter (lf_at s b i))) e False = Some new" for b i new
      using lf_put_entry [OF q _ that(2,3) Suc.prems(2) e that(4)] that(1) b(1) b2 homes [OF that(1)]
      by auto
    assume full: "\<forall>i \<in> set [0..<NUM_ITEMS_PER_ENTRY]. lf_str s b1 i \<noteq> [] \<and> lf_str s b2 i \<noteq> []"
    let ?s = "s\<lparr>lf_clock := Suc (lf_clock s)\<rparr>" and ?order = "env_shuffle env (lf_clock s)"
    have "lf_total env (lf_bind (lf_kick_any fuel ts b1 tid ?order) (\<lambda>success.
        if \<not> success then LRet False else lf_insert_loop m fuel ts b1 b2 e tid)) ?s ?Q A"
    proof (rule lf_total_bind [OF lf_total_kick_any [OF b(1,2) fuel lf_quiet_clock [OF q]]])
      show "set ?order \<subseteq> {..<NUM_ITEMS_PER_ENTRY}" by (rule env_ok_shuffle [OF env])
      show "\<forall>i < NUM_ITEMS_PER_ENTRY. lf_str ?s b1 i \<noteq> []" using full by (simp add: clock_same)
      show "moves_left ?s b1 \<noteq> 0 \<longrightarrow> A \<or> counters_below ts ?s 1"
        using Suc.prems(4) counters_below_mono [of ts s "moves_left s b1" 1] by (auto simp: clock_same)
      fix r s'
      assume r: "if r then one_move ts n b1 ?s s' else haz n ?s s'"
      show "lf_total env (if \<not> r then LRet False else lf_insert_loop m fuel ts b1 b2 e tid) s' ?Q A"
      proof (cases r)
        case False
        with r haz_quiet [OF _ lf_quiet_clock [OF q]] show ?thesis
          by (auto simp: hazD clock_same)
      next
        case True
        with r have mv: "lf_quiet ts n s'" "lf_heap s' = lf_heap s" "lf_items s' = lf_items s"
          "moves_left s b1 = Suc (moves_left s' b1)"
          "\<And>k. counters_below ts s (Suc k) \<Longrightarrow> counters_below ts s' k"
          using pow2 by (simp_all add: one_move_def clock_same)
        have "lf_total env (lf_insert_loop m fuel ts b1 b2 e tid) s' (\<lambda>r s''. lf_quiet ts n s'' \<and>
            lf_items s'' = lf_items s' + (if r then {#(fp, home ts b1 fp)#} else {#})) A"
          by (rule Suc.IH [OF mv(1)]) (use mv Suc.prems in auto)
        with True mv(3) show ?thesis by simp
      qed
    qed
    then show "lf_total env (if False then lf_insert_loop m fuel ts b1 b2 e tid
        else LShuffle (\<lambda>order. lf_bind (lf_kick_any fuel ts b1 tid order) (\<lambda>success.
          if \<not> success then LRet False else lf_insert_loop m fuel ts b1 b2 e tid))) s ?Q A"
      by simp
  qed auto
qed simp

text \<open>What may make \<open>insert\<close> give up by an exception or an \<open>abort\<close>.\<close>

definition may_abort :: "lf_env \<Rightarrow> u32 \<Rightarrow> lf_filter \<Rightarrow> bool" where
  "may_abort env ts s \<longleftrightarrow> env_alloc env (lf_heap s) = None \<or> \<not> counters_below ts s 36"

lemma lf_quiet_new:
  fixes fp :: bytes
  assumes q: "lf_quiet ts n s" and a: "lf_heap s a = None"
  defines "t \<equiv> s\<lparr>lf_heap := (lf_heap s)(a \<mapsto> fp)\<rparr>"
  shows "lf_quiet ts n t" "lf_items t = lf_items s" "lf_at t = lf_at s"
proof -
  note inv = lf_quietD(1) [OF q]
  show at: "lf_at t = lf_at s" by (intro ext) (simp add: t_def lf_at_def)
  have heap: "lf_heap t = (lf_heap s)(a \<mapsto> fp)" by (simp add: t_def)
  have old: "get_real_pointer (lf_at s b i) \<noteq> a"
    if "b < ts" "i < NUM_ITEMS_PER_ENTRY" "get_real_pointer (lf_at s b i) \<noteq> 0" for b i
    using lf_inv_good [OF inv that(1,2)] that(3) a by (auto simp: good_def)
  then have str: "lf_str t b i = lf_str s b i" if "b < ts" "i < NUM_ITEMS_PER_ENTRY" for b i
    unfolding lf_str_def at heap entry_str_def using old [OF that] by auto
  then show "lf_quiet ts n t"
    using q lf_inv_new [OF inv a, of fp] by (simp add: lf_quiet_def at flip: t_def)
  have inv': "lf_inv ts n t" using lf_inv_new [OF inv a] by (simp add: t_def)
  have "cell (lf_view t) b i = cell (lf_view s) b i" if "b < unat ts" "i < NUM_ITEMS_PER_ENTRY" for b i
  proof -
    have u: "unat (word_of_nat b :: u32) = b"
      using that(1) unat_lt_numerals(3) [of ts] by (simp add: unsigned_of_nat take_bit_nat_eq_self)
    then have lt: "(word_of_nat b :: u32) < ts" using that(1) by (simp add: word_less_nat_alt)
    show ?thesis
      using cell_lf_view [OF inv lt that(2)] cell_lf_view [OF inv' lt that(2)] str [OF lt that(2)] u by simp
  qed
  then have "contents ts g (lf_view t) = contents ts g (lf_view s)" for g :: "u32 \<Rightarrow> bytes \<Rightarrow> (bytes \<times> u32 set) multiset"
    unfolding contents_def by (intro cell_sum_cong) simp
  then show "lf_items t = lf_items s"
    using lf_quietD(2) [OF q] by (simp add: lf_items_def items_def t_def)
qed

lemma lf_total_insert:
  assumes r: "lf_ready evp ts n s" and env: "env_ok env" and tid: "tid < n" and fuel: "37 \<le> fuel"
  shows "lf_total env (lf_insert evp ts fuel key tid) s (\<lambda>r s'. lf_ready evp ts n s' \<and>
    lf_items s' = lf_items s + (if r then {#key_item evp ts key#} else {#})) (may_abort env ts s)"
proof -
  let ?fp = "md5_fingerprint evp key" and ?h = "jenkins_hash key mod ts"
  let ?s = "mark_hazard 0 (Suc 0) tid (mark_hazard 0 0 tid s)"
  have R: "is_pow2 ts" "?fp \<noteq> []" "lf_quiet ts n s"
    using r by (simp_all add: lf_ready_def md5_fingerprint_nonempty)
  have ts: "ts \<noteq> 0" using R(1) by (rule is_pow2_neq_0)
  have h: "haz n s ?s" by simp
  note q = haz_quiet [OF h R(3)]
  have go: "lf_total env (lf_insert_loop fuel fuel ts ?h (get_next_hash_index ts ?h ?fp) a tid)
      (?s\<lparr>lf_heap := (lf_heap ?s)(a \<mapsto> ?fp)\<rparr>) (\<lambda>r s'. lf_ready evp ts n s' \<and>
      lf_items s' = lf_items s + (if r then {#key_item evp ts key#} else {#})) (may_abort env ts s)"
    if a: "env_alloc env (lf_heap s) = Some a" for a
  proof -
    let ?t = "?s\<lparr>lf_heap := (lf_heap ?s)(a \<mapsto> ?fp)\<rparr>"
    have a': "fits a" "a \<noteq> 0" "lf_heap ?s a = None" using env_ok_alloc [OF env a] by simp_all
    note T = lf_quiet_new [OF q a'(3), of ?fp]
    have "counters_below ts ?t k = counters_below ts s k" for k
      unfolding counters_below_def T(3) by simp
    then have c: "may_abort env ts s \<or> counters_below ts ?t (moves_left ?t ?h)"
      using counters_below_mono [of ts s 36 "moves_left ?t ?h"] moves_left_bound [of ?t ?h]
      unfolding may_abort_def by blast
    have m: "moves_left ?t ?h < fuel" using moves_left_bound [of ?t ?h] fuel by linarith
    have "lf_total env (lf_insert_loop fuel fuel ts ?h (get_next_hash_index ts ?h ?fp) a tid) ?t
      (\<lambda>r s'. lf_quiet ts n s' \<and>
        lf_items s' = lf_items ?t + (if r then {#(?fp, home ts ?h ?fp)#} else {#})) (may_abort env ts s)"
      by (rule lf_total_insert_loop [OF hash_mod_less [OF ts] tid refl _ R(2) a'(2,1) env R(1) T(1) _ m c])
        (use fuel in simp_all)
    then show ?thesis
      using r T(2) hazD(4) [OF h] by (auto elim!: lf_total_mono simp: lf_ready_def key_item_def)
  qed
  show ?thesis
    using go lf_quietD(4) [OF R(3)] tid ts
    by (auto simp: lf_insert_def lf_clear_hazard_def Let_def may_abort_def split: option.split)
qed

section \<open>The filter contract, for calls that do not overlap\<close>

definition lf_ins :: "evp_digest \<Rightarrow> u32 \<Rightarrow> nat \<Rightarrow> bytes \<Rightarrow> lf_filter \<Rightarrow> bool \<Rightarrow> lf_filter \<Rightarrow> bool" where
  "lf_ins evp ts n key s r s' \<longleftrightarrow> (\<exists>env fuel tid. env_ok env \<and> tid < n \<and> 37 \<le> fuel \<and>
     lf_run env (lf_insert evp ts fuel key tid) s = (LfReturned r, s'))"

definition lf_fnd :: "evp_digest \<Rightarrow> u32 \<Rightarrow> nat \<Rightarrow> bytes \<Rightarrow> lf_filter \<Rightarrow> bool \<Rightarrow> lf_filter \<Rightarrow> bool" where
  "lf_fnd evp ts n key s r s' \<longleftrightarrow> (\<exists>env fuel tid location. tid < n \<and> 0 < fuel \<and>
     lf_run env (lf_find evp ts fuel key tid) s = (LfReturned location, s') \<and>
     r = (location < NUM_ITEMS_PER_ENTRY * 2))"

definition lf_del :: "evp_digest \<Rightarrow> u32 \<Rightarrow> nat \<Rightarrow> bytes \<Rightarrow> lf_filter \<Rightarrow> bool \<Rightarrow> lf_filter \<Rightarrow> bool" where
  "lf_del evp ts n key s r s' \<longleftrightarrow> (\<exists>env fuel tid. tid < n \<and> 0 < fuel \<and>
     lf_run env (lf_remove evp ts fuel key tid) s = (LfReturned r, s'))"

lemma lf_total_find:
  assumes r: "lf_ready evp ts n s" and tid: "tid < n" and fuel: "0 < fuel"
  shows "lf_total env (lf_find evp ts fuel key tid) s (\<lambda>location s'. haz n s s' \<and>
    (case key_hit evp ts key s of None \<Rightarrow> location = NUM_ITEMS_PER_ENTRY * 2
     | Some (l, p) \<Rightarrow> location = l)) False"
  using lf_total_find_at [of ts n s tid evp key fuel env 0] assms
  by (auto simp: lf_find_def lf_ready_def md5_fingerprint_nonempty split: option.splits
      intro!: lf_total_bind)

lemma lf_total_run:
  "lf_total env p s Q A \<Longrightarrow> lf_run env p s = (LfReturned a, s') \<Longrightarrow> Q a s'"
  by (simp add: lf_total_def)

lemma lf_fnd_result:
  assumes "lf_ready evp ts n s" "lf_fnd evp ts n key s r s'"
  shows "haz n s s'" "r \<longleftrightarrow> key_item evp ts key \<in># lf_items s"
proof -
  obtain env fuel tid l where f: "tid < n" "0 < fuel"
    "lf_run env (lf_find evp ts fuel key tid) s = (LfReturned l, s')" "r = (l < NUM_ITEMS_PER_ENTRY * 2)"
    using assms(2) by (auto simp: lf_fnd_def)
  have Q: "haz n s s' \<and> (case key_hit evp ts key s of None \<Rightarrow> l = NUM_ITEMS_PER_ENTRY * 2
      | Some (l', p) \<Rightarrow> l = l')"
    by (rule lf_total_run [OF lf_total_find [OF assms(1) f(1,2)] f(3)])
  then show "haz n s s'" by simp
  show "r \<longleftrightarrow> key_item evp ts key \<in># lf_items s"
    using Q key_hit_item [OF assms(1), of key] key_hit_SomeD(4) [of evp ts key s] f(4)
    by (auto split: option.splits)
qed

interpretation lf: amq "lf_ready evp ts n" lf_items "key_item evp ts" "lf_ins evp ts n"
    "lf_fnd evp ts n" "lf_del evp ts n" for evp ts n
proof unfold_locales
  fix s k r t
  assume s: "lf_ready evp ts n s"
  have ins: "lf_ready evp ts n t \<and> lf_items t = lf_items s + (if r then {#key_item evp ts k#} else {#})"
    if "lf_ins evp ts n k s r t" for r
    using that lf_total_run [OF lf_total_insert [OF s]] unfolding lf_ins_def by blast
  have del: "lf_ready evp ts n t \<and> (r \<longleftrightarrow> key_item evp ts k \<in># lf_items s) \<and>
      lf_items t = lf_items s - {#key_item evp ts k#}" if "lf_del evp ts n k s r t"
    using that lf_total_run [OF lf_total_remove [OF s]] unfolding lf_del_def by blast
  show "lf_ready evp ts n t" if "lf_ins evp ts n k s r t" using ins [OF that] by simp
  show "lf_ready evp ts n t" if "lf_del evp ts n k s r t" using del [OF that] by simp
  show "lf_items t = add_mset (key_item evp ts k) (lf_items s)" if "lf_ins evp ts n k s True t"
    using ins [OF that] by simp
  show "\<exists>x. add_mset x (lf_items t) = add_mset (key_item evp ts k) (lf_items s)"
    if "lf_ins evp ts n k s False t"
    using ins [OF that] by auto
  show "lf_ready evp ts n t" "lf_items t = lf_items s" "r \<longleftrightarrow> key_item evp ts k \<in># lf_items s"
    if "lf_fnd evp ts n k s r t"
    using lf_fnd_result [OF s that] s haz_quiet hazD(4) by (auto simp: lf_ready_def)
  show "r \<longleftrightarrow> key_item evp ts k \<in># lf_items s"
    "lf_items t = lf_items s - {#key_item evp ts k#}" if "lf_del evp ts n k s r t"
    using del [OF that] by simp_all
qed

lemma lf_new_ready:
  assumes "evp_md5_ok evp" "is_pow2 capacity" "lf_new capacity thread_count v h c = Inr s"
  shows "lf_ready evp capacity (unat thread_count) s" "lf_items s = {#}"
proof -
  note N = lf_new_inv [OF assms(3)]
  have "lf_quiet capacity (unat thread_count) s" using N by (auto simp: lf_quiet_def)
  with assms show "lf_ready evp capacity (unat thread_count) s" by (simp add: lf_ready_def)
  have "lf_table_size s = capacity"
    "lf_hash_table s = replicate (unat capacity) (replicate NUM_ITEMS_PER_ENTRY 0)"
    using assms(3) by (auto simp: lf_new_def split: if_splits)
  then show "lf_items s = {#}" by (simp add: lf_items_def lf_view_def entry_str_def items_def)
qed

lemma lf_demo_ready: "lf_ready pad_evp 2 2 lf_demo" "lf_items lf_demo = {#}"
  using lf_new_ready [OF pad_evp_ok is_pow2_2 lf_demo_new] by simp_all

section \<open>Properties\<close>

text \<open>
  C7. \<open>insert\<close> alone, on an unmarked table of power-of-two size: it returns within 37 rounds
  of its loop (each failed round moves one item closer, and there are at most 36 such moves),
  with true and one item more, or with false and the same items. It ends otherwise only if
  the allocation fails or a counter is within 36 of its maximum.
\<close>

theorem lf_insert_alone:
  assumes "lf_ready evp ts n s" "env_ok env" "tid < n" "37 \<le> fuel"
  shows "lf_total env (lf_insert evp ts fuel key tid) s (\<lambda>r s'. lf_ready evp ts n s' \<and>
    lf_items s' = lf_items s + (if r then {#key_item evp ts key#} else {#}))
    (env_alloc env (lf_heap s) = None \<or>
     \<not> (\<forall>b < ts. \<forall>i < NUM_ITEMS_PER_ENTRY. unat (get_counter (lf_at s b i)) + 36 \<le> 65535))"
  using lf_total_insert [OF assms] by (simp add: may_abort_def counters_below_def)

lemma lf_insert_alone_witness:
  "lf_total demo_env (lf_insert pad_evp 2 37 [0] 0) lf_demo (\<lambda>r s'. lf_ready pad_evp 2 2 s' \<and>
     lf_items s' = (if r then {#key_item pad_evp 2 [0]#} else {#})) False"
proof -
  have "lf_at lf_demo b i = 0" if "b < 2" "i < NUM_ITEMS_PER_ENTRY" for b i
    using lf_new_inv [OF lf_demo_new] that by blast
  moreover have "env_alloc demo_env (lf_heap lf_demo) = Some 16"
    by (simp add: demo_env_def lf_demo_def)
  ultimately show ?thesis
    using lf_insert_alone [OF lf_demo_ready(1) demo_env_ok, of 0 37 "[0]"] lf_demo_ready(2) by simp
qed

text \<open>
  C19. \<open>find\<close> and \<open>remove\<close> alone, on an unmarked table of power-of-two size: one round per slot
  is enough; \<open>find\<close> answers 8 exactly for keys whose item is not stored and changes nothing but
  the hazard pointers, \<open>remove\<close> takes one copy of the item away.
\<close>

theorem lf_find_remove_alone:
  assumes "lf_ready evp ts n s" "tid < n" "0 < fuel"
  shows "lf_total env (lf_find evp ts fuel key tid) s (\<lambda>location s'. haz n s s' \<and>
      location \<le> 8 \<and> (location = 8 \<longleftrightarrow> key_item evp ts key \<notin># lf_items s)) False \<and>
    lf_total env (lf_remove evp ts fuel key tid) s (\<lambda>r s'. lf_ready evp ts n s' \<and>
      (r \<longleftrightarrow> key_item evp ts key \<in># lf_items s) \<and>
      lf_items s' = lf_items s - {#key_item evp ts key#}) False"
proof -
  have loc: "location \<le> 8 \<and> (location = 8 \<longleftrightarrow> key_item evp ts key \<notin># lf_items s)"
    if "case key_hit evp ts key s of None \<Rightarrow> location = NUM_ITEMS_PER_ENTRY * 2
      | Some (l, p) \<Rightarrow> location = l" for location
    using that key_hit_item [OF assms(1), of key] key_hit_SomeD(4) [of evp ts key s]
    by (auto simp: NUM_ITEMS_PER_ENTRY_def split: option.splits)
  have "lf_total env (lf_find evp ts fuel key tid) s (\<lambda>location s'. haz n s s' \<and>
      location \<le> 8 \<and> (location = 8 \<longleftrightarrow> key_item evp ts key \<notin># lf_items s)) False"
    by (rule lf_total_mono [OF lf_total_find [OF assms]]) (use loc in blast)
  with lf_total_remove [OF assms] show ?thesis by blast
qed

lemma lf_find_remove_alone_witness:
  "lf_total demo_env (lf_find pad_evp 2 1 [0] 0) lf_demo (\<lambda>location s'. haz 2 lf_demo s' \<and> location = 8) False"
  using lf_find_remove_alone [OF lf_demo_ready(1), of 0 1 demo_env "[0]"] lf_demo_ready(2)
  by (auto elim!: lf_total_mono)

text \<open>
  C27. No false negatives over histories of non-overlapping calls on a fresh lock-free filter of
  power-of-two size: \<open>find\<close> locates a key exactly when its item was inserted more often than
  removed. Unlike the locked filters, a failed insertion is harmless, but it is excluded here as
  in the common contract.
\<close>

theorem lf_find_after_history:
  assumes "evp_md5_ok evp" "is_pow2 capacity" "lf_new capacity threads v h c = Inr s0"
    and "history (lf_ins evp capacity (unat threads)) (lf_fnd evp capacity (unat threads))
      (lf_del evp capacity (unat threads)) s0 hs s" "no_failed_insert hs"
    and "lf_run env (lf_find evp capacity fuel key tid) s = (LfReturned location, s')"
    and "0 < fuel" "tid < unat threads"
  shows "location < 8 \<longleftrightarrow>
    count (image_mset (key_item evp capacity) (removed hs)) (key_item evp capacity key)
    < count (image_mset (key_item evp capacity) (inserted hs)) (key_item evp capacity key)"
proof -
  note N = lf_new_ready [OF assms(1-3)]
  have "lf_fnd evp capacity (unat threads) key s (location < 8) s'"
    using assms(6-8) by (auto simp: lf_fnd_def NUM_ITEMS_PER_ENTRY_def)
  then show ?thesis by (rule lf.query_balance [OF assms(4) N assms(5)])
qed

text \<open>An insertion into the empty filter succeeds.\<close>

lemma lf_demo_insert:
  "\<exists>s. lf_run demo_env (lf_insert pad_evp 2 (Suc m) [0] 0) lf_demo = (LfReturned True, s)"
proof -
  have at: "lf_at lf_demo b i = 0" if "b < 2" "i < NUM_ITEMS_PER_ENTRY" for b i
    using lf_new_inv [OF lf_demo_new] that by blast
  have "jenkins_hash [0] mod 2 < (2 :: u32)" by (rule hash_mod_less) simp
  moreover from this have "in_table lf_demo (jenkins_hash [0] mod 2) 0"
    using lf_inv_in_table [OF lf_demo_inv] by (simp add: NUM_ITEMS_PER_ENTRY_def)
  moreover have "env_alloc demo_env (lf_heap lf_demo) = Some 16"
    "[0..<NUM_ITEMS_PER_ENTRY] = 0 # [1..<NUM_ITEMS_PER_ENTRY]"
    by (simp_all add: demo_env_def lf_demo_def NUM_ITEMS_PER_ENTRY_def upt_conv_Cons)
  moreover have "lf_at (s\<lparr>lf_heap := h\<rparr>) = lf_at s" "in_table (s\<lparr>lf_heap := h\<rparr>) = in_table s" for s h
    by (simp_all add: fun_eq_iff lf_at_def in_table_def)
  moreover have "create_pointer 0 16 False = Some 16" "lf_hazard_ptrs lf_demo = [[0, 0], [0, 0]]"
    by code_simp+
  ultimately show ?thesis
    using at [of _ 0]
    by (simp add: lf_insert_def lf_clear_hazard_def Let_def lf_try_slot_def lf_create_def NUM_ITEMS_PER_ENTRY_def)
qed

lemma lf_find_after_history_witness:
  "\<exists>s location s'. history (lf_ins pad_evp 2 2) (lf_fnd pad_evp 2 2) (lf_del pad_evp 2 2)
       lf_demo [Ins [0] True] s \<and>
     lf_run demo_env (lf_find pad_evp 2 1 [0] 0) s = (LfReturned location, s') \<and> location < 8"
proof -
  obtain s where "lf_run demo_env (lf_insert pad_evp 2 (Suc 36) [0] 0) lf_demo = (LfReturned True, s)"
    using lf_demo_insert by blast
  then have ins: "lf_ins pad_evp 2 2 [0] lf_demo True s"
    unfolding lf_ins_def by (intro exI [of _ demo_env] exI [of _ "Suc 36"] exI [of _ 0]) (simp add: demo_env_ok)
  note hist = history_Ins [where ins = "lf_ins pad_evp 2 2" and fnd = "lf_fnd pad_evp 2 2"
      and del = "lf_del pad_evp 2 2", OF ins history_Nil]
  have "lf_total demo_env (lf_find pad_evp 2 1 [0] 0) s (\<lambda>_ _. True) False"
    by (rule lf_total_mono [OF lf_total_find [OF lf.history_inv [OF hist lf_demo_ready(1)]]]) simp_all
  then obtain l s' where run: "lf_run demo_env (lf_find pad_evp 2 1 [0] 0) s = (LfReturned l, s')"
    by (auto simp: lf_total_def split: prod.splits lf_result.splits)
  have "l < 8 \<longleftrightarrow> count (image_mset (key_item pad_evp 2) (removed [Ins [0] True])) (key_item pad_evp 2 [0])
      < count (image_mset (key_item pad_evp 2) (inserted [Ins [0] True])) (key_item pad_evp 2 [0])"
    by (rule lf_find_after_history [OF pad_evp_ok is_pow2_2 lf_demo_new _ _ run])
      (use hist in \<open>simp_all add: no_failed_insert_def\<close>)
  with run hist show ?thesis by auto
qed

section \<open>A filter that was reset\<close>

text \<open>With table size 0 every operation ends in undefined behaviour, whatever its thread id.\<close>

lemma lf_run_size_0:
  "fst (lf_run env (lf_find evp 0 fuel key tid) s) = LfFaulted"
  "fst (lf_run env (lf_remove evp 0 fuel key tid) s) = LfFaulted"
  "fst (lf_run env (lf_insert evp 0 fuel key tid) s) =
     (if tid < length (lf_hazard_ptrs s) \<and> env_alloc env (lf_heap s) = None then LfAborted else LfFaulted)"
  by (simp_all add: lf_find_def lf_find_at_def lf_remove_def lf_insert_def lf_clear_hazard_def Let_def
      MAX_HAZARD_POINTER_COUNT_def split: option.split)

lemma lf_reset_fields:
  assumes "delete_all (slot_pointers s) (lf_heap s) = Inr h" "lf_reset capacity tc s = Inr s'"
  shows "lf_heap s' = h" "lf_table_size s' = capacity" "lf_thread_count s' = Some tc"
    "lf_retired_ptrs s' = replicate (unat tc) []" "length (lf_hazard_ptrs s') = unat tc"
    "0 < capacity \<Longrightarrow> lf_quiet capacity (unat tc) s'" "lf_items s' = {#}"
proof -
  have s': "s' = s\<lparr>lf_table_size := capacity, lf_thread_count := Some tc,
      lf_hash_table := replicate (unat capacity) (replicate NUM_ITEMS_PER_ENTRY 0),
      lf_hazard_ptrs := replicate (unat tc) (replicate MAX_HAZARD_POINTER_COUNT 0),
      lf_retired_ptrs := replicate (unat tc) [], lf_heap := h\<rparr>"
    using assms by (simp add: lf_reset_def split: if_splits)
  then show "lf_heap s' = h" "lf_table_size s' = capacity" "lf_thread_count s' = Some tc"
    "lf_retired_ptrs s' = replicate (unat tc) []" "length (lf_hazard_ptrs s') = unat tc"
    by simp_all
  show "lf_items s' = {#}" by (simp add: s' lf_items_def lf_view_def entry_str_def items_def)
  have "lf_at s' b i = 0" if "b < capacity" "i < NUM_ITEMS_PER_ENTRY" for b i
    using that by (simp add: s' lf_at_def word_less_nat_alt)
  then show "lf_quiet capacity (unat tc) s'" if "0 < capacity"
    using that by (simp add: lf_quiet_def lf_inv_def good_def s')
qed

text \<open>
  C36. \<open>reset\<close>, and the destructor in the same way, on a filter whose slots hold distinct live
  entries: they delete exactly the entries in the table, so retired entries that were not freed
  stay live, and \<open>reset\<close> forgets the lists that own them. A negative size or thread count throws;
  every other capacity is accepted. A positive one leaves an empty, well-formed, unmarked
  filter; 0 leaves one on which every call of \<open>find\<close>, \<open>remove\<close> and \<open>insert\<close> ends in undefined
  behaviour (the division by the table size), unless the allocation in \<open>insert\<close> fails first.
\<close>

theorem lf_reset_result:
  assumes "owns_slots s"
  shows "lf_destroy s = Inr (\<lambda>a. if a \<in> set (slot_pointers s) \<and> a \<noteq> 0 then None else lf_heap s a) \<and>
    (lf_reset capacity tc s = Inl LfLengthError \<longleftrightarrow> sint capacity < 0 \<or> sint tc < 0) \<and>
    (0 \<le> sint capacity \<and> 0 \<le> sint tc \<longrightarrow>
      (\<exists>s'. lf_reset capacity tc s = Inr s' \<and> lf_destroy s = Inr (lf_heap s') \<and>
        lf_thread_count s' = Some tc \<and> lf_retired_ptrs s' = replicate (unat tc) [] \<and>
        (0 < capacity \<longrightarrow> lf_quiet capacity (unat tc) s' \<and> lf_items s' = {#}) \<and>
        (capacity = 0 \<longrightarrow> lf_table_size s' = 0 \<and>
          (\<forall>env evp fuel key tid.
            fst (lf_run env (lf_find evp 0 fuel key tid) s') = LfFaulted \<and>
            fst (lf_run env (lf_remove evp 0 fuel key tid) s') = LfFaulted \<and>
            fst (lf_run env (lf_insert evp 0 fuel key tid) s') =
              (if tid < unat tc \<and> env_alloc env (lf_heap s') = None then LfAborted else LfFaulted)))))"
proof -
  let ?h = "\<lambda>a. if a \<in> set (slot_pointers s) \<and> a \<noteq> 0 then None else lf_heap s a"
  have del: "delete_all (slot_pointers s) (lf_heap s) = Inr ?h"
    using assms by (intro delete_all_distinct) (auto simp: owns_slots_def)
  have dtor: "lf_destroy s = Inr ?h" by (simp add: lf_destroy_def del)
  have err: "lf_reset capacity tc s = Inl LfLengthError \<longleftrightarrow> sint capacity < 0 \<or> sint tc < 0"
    by (simp add: lf_reset_def del)
  show ?thesis
  proof (intro conjI impI dtor err)
    assume "0 \<le> sint capacity \<and> 0 \<le> sint tc"
    then obtain s' where s': "lf_reset capacity tc s = Inr s'" by (auto simp: lf_reset_def del)
    note F = lf_reset_fields [OF del s']
    show "\<exists>s'. lf_reset capacity tc s = Inr s' \<and> lf_destroy s = Inr (lf_heap s') \<and>
        lf_thread_count s' = Some tc \<and> lf_retired_ptrs s' = replicate (unat tc) [] \<and>
        (0 < capacity \<longrightarrow> lf_quiet capacity (unat tc) s' \<and> lf_items s' = {#}) \<and>
        (capacity = 0 \<longrightarrow> lf_table_size s' = 0 \<and>
          (\<forall>env evp fuel key tid.
            fst (lf_run env (lf_find evp 0 fuel key tid) s') = LfFaulted \<and>
            fst (lf_run env (lf_remove evp 0 fuel key tid) s') = LfFaulted \<and>
            fst (lf_run env (lf_insert evp 0 fuel key tid) s') =
              (if tid < unat tc \<and> env_alloc env (lf_heap s') = None then LfAborted else LfFaulted)))"
      by (intro exI [of _ s'] conjI) (simp_all add: s' dtor F lf_run_size_0)
  qed
qed

lemma lf_reset_result_witness:
  "\<exists>s'. lf_reset 0 1 lf_used = Inr s' \<and> lf_destroy lf_used = Inr (lf_heap s') \<and>
     lf_heap s' 16 = None \<and> lf_heap s' 32 = Some [2] \<and> lf_retired_ptrs s' = [[]] \<and>
     fst (lf_run demo_env (lf_insert pad_evp 0 5 [0] 0) s') = LfFaulted"
proof -
  have slots: "slot_pointers lf_used = [16, 0, 0, 0, 0, 0, 0, 0]" by code_simp
  then have owns: "owns_slots lf_used" by (simp add: owns_slots_def) (simp add: lf_used_def)
  from lf_reset_result [OF owns, of 0 1] obtain s' where s': "lf_reset 0 1 lf_used = Inr s'"
    "lf_destroy lf_used = Inr (lf_heap s')" "lf_retired_ptrs s' = replicate (unat (1 :: u32)) []"
    "\<forall>env evp fuel key tid. fst (lf_run env (lf_insert evp 0 fuel key tid) s') =
      (if tid < unat (1 :: u32) \<and> env_alloc env (lf_heap s') = None then LfAborted else LfFaulted)"
    by auto
  have "lf_heap s' = (\<lambda>a. if a \<in> set (slot_pointers lf_used) \<and> a \<noteq> 0 then None else lf_heap lf_used a)"
    using lf_reset_result [OF owns] s'(2) by simp
  moreover have "lf_heap lf_used 32 = Some [2]" by (simp add: lf_used_def)
  ultimately have "lf_heap s' 16 = None" "lf_heap s' 32 = Some [2]" by (simp_all add: slots)
  moreover have "env_alloc demo_env (lf_heap s') \<noteq> None"
    using \<open>lf_heap s' 16 = None\<close> by (simp add: demo_env_def)
  ultimately show ?thesis using s' by (intro exI [of _ s']) simp
qed

end
