(* ===== verification/Lock_Free_Races.thy ===== *)
theory Lock_Free_Races
  imports Lock_Free_Solo
begin

text \<open>
  What \<open>help_relocate\<close> does when the slots change under it. It tries to take back a mark with
  a compare-and-swap on the destination slot instead of the source slot: a mark whose
  destination has been occupied stays for ever, and every operation that meets it spins. An
  item whose two buckets coincide is taken for one that was already moved, and erased. A helper
  copies an entry to the destination again after it was removed from there, so a key inserted
  once is removed twice. And an entry cannot be moved once a counter is used up: the process
  aborts and the mark stays.
\<close>

section \<open>A mark that stays\<close>

text \<open>
  The slot is marked, its entry's other bucket holds a different entry in that slot, and the
  counter can still be incremented.
\<close>

definition stuck_mark :: "u32 \<Rightarrow> lf_filter \<Rightarrow> u32 \<Rightarrow> nat \<Rightarrow> bool" where
  "stuck_mark ts s b i \<longleftrightarrow> get_marked (lf_at s b i) \<and>
     unat (get_counter (lf_at s b i)) < 65535 \<and>
     (let d = get_next_hash_index ts b (lf_str s b i)
      in get_real_pointer (lf_at s d i) \<noteq> 0 \<and>
         get_real_pointer (lf_at s d i) \<noteq> get_real_pointer (lf_at s b i))"

lemma lf_run_bind:
  "lf_run env (lf_bind p f) s =
     (case lf_run env p s of (LfReturned a, s') \<Rightarrow> lf_run env (f a) s'
      | (LfAborted, s') \<Rightarrow> (LfAborted, s') | (LfFaulted, s') \<Rightarrow> (LfFaulted, s')
      | (LfLooping, s') \<Rightarrow> (LfLooping, s'))"
  by (induction p arbitrary: s) (auto split: option.split)

lemma haz_inv:
  assumes "haz n s s'" "lf_inv ts n s"
  shows "lf_inv ts n s'"
proof -
  from assms obtain h where h: "s' = s\<lparr>lf_hazard_ptrs := h\<rparr>" "rect n MAX_HAZARD_POINTER_COUNT h"
    by (auto simp: haz_def lf_inv_def)
  with assms(2) show ?thesis unfolding lf_inv_def hazD [OF assms(1)] by simp
qed

lemma haz_stuck: "haz n s s' \<Longrightarrow> stuck_mark ts s' b i = stuck_mark ts s b i"
  by (simp add: stuck_mark_def hazD)

lemma stuck_mark_help:
  assumes inv: "lf_inv ts n s" and b: "b < ts" "i < NUM_ITEMS_PER_ENTRY" "tid < n"
    and stuck: "stuck_mark ts s b i" and fuel: "fuel = Suc f"
  shows "lf_total env (lf_help_relocate fuel ts b i False tid) s (\<lambda>_. haz n s) False"
proof -
  have ts: "ts \<noteq> 0" using inv by (auto simp: lf_inv_def)
  have len: "length (lf_hazard_ptrs s) = n" using inv by (auto simp: lf_inv_def rect_def)
  let ?p = "lf_at s b i" and ?d = "get_next_hash_index ts b (lf_str s b i)"
  let ?q = "lf_at s ?d i"
  have d: "?d < ts" by (rule get_next_hash_index_less [OF ts])
  have S: "get_marked ?p" "unat (get_counter ?p) < 65535" "get_real_pointer ?q \<noteq> 0"
    "get_real_pointer ?q \<noteq> get_real_pointer ?p"
    using stuck by (simp_all add: stuck_mark_def Let_def)
  have g: "good (dom (lf_heap s)) ?p" by (rule lf_inv_good [OF inv b(1,2)])
  then have heap: "lf_heap s (get_real_pointer ?p) = Some (lf_str s b i)"
    using S(1) by (auto simp: good_def lf_str_def entry_str_def)
  have ne: "?q \<noteq> ?p" using S(4) by auto
  have "lf_total env (lf_help_end ?d i ?p ?q) s' (\<lambda>_. haz n s) False" if h: "haz n s s'" for s'
    using S ne lf_inv_in_table [OF haz_inv [OF h inv] d b(2)] h
      create_pointer_next_defined [OF S(2)]
    by (auto simp: lf_help_end_def Let_def hazD [OF h] intro!: lf_total_create)
  then show ?thesis
    unfolding lf_help_relocate_def lf_clear_hazard_def fuel
    using S heap lf_inv_in_table [OF inv b(1,2)] lf_inv_in_table [OF inv d b(2)] len b(3)
    by (simp add: Let_def lf_help_move_def)
qed

text \<open>A slot that a search for \<open>fp\<close> passes by: it is not marked and does not hold \<open>fp\<close>.\<close>

definition passed :: "lf_filter \<Rightarrow> bytes \<Rightarrow> u32 \<Rightarrow> nat \<Rightarrow> bool" where
  "passed s fp b i \<longleftrightarrow> \<not> get_marked (lf_at s b i) \<and> lf_str s b i \<noteq> fp"

text \<open>
  The search of a key, which reads slot \<open>j\<close> of the first and then of the second bucket for
  \<open>j = 0, 1, ...\<close>, comes to a stuck mark before any other mark and before the key.
\<close>

definition stuck_at :: "u32 \<Rightarrow> lf_filter \<Rightarrow> bytes \<Rightarrow> u32 \<Rightarrow> u32 \<Rightarrow> nat \<Rightarrow> bool" where
  "stuck_at ts s fp b1 b2 j \<longleftrightarrow> stuck_mark ts s b1 j \<or> passed s fp b1 j \<and> stuck_mark ts s b2 j"

definition meets_stuck_mark :: "evp_digest \<Rightarrow> u32 \<Rightarrow> lf_filter \<Rightarrow> bytes \<Rightarrow> bool" where
  "meets_stuck_mark evp ts s key \<longleftrightarrow>
     (let fp = md5_fingerprint evp key; b1 = jenkins_hash key mod ts; b2 = get_next_hash_index ts b1 fp
      in \<exists>j < NUM_ITEMS_PER_ENTRY. stuck_at ts s fp b1 b2 j \<and>
           (\<forall>i < j. passed s fp b1 i \<and> passed s fp b2 i))"

lemma haz_passed: "haz n s s' \<Longrightarrow> passed s' = passed s"
  by (intro ext) (simp add: passed_def hazD)

lemma haz_stuck_at: "haz n s s' \<Longrightarrow> stuck_at ts s' fp b1 b2 j = stuck_at ts s fp b1 b2 j"
  by (simp add: stuck_at_def haz_stuck haz_passed)

lemma haz_meets: "haz n s s' \<Longrightarrow> meets_stuck_mark evp ts s' key = meets_stuck_mark evp ts s key"
  by (simp add: meets_stuck_mark_def haz_stuck_at haz_passed)

lemma lf_inv_lengths: "lf_inv ts n s \<Longrightarrow> length (lf_hazard_ptrs s) = n"
  by (auto simp: lf_inv_def rect_def)

lemma lf_inv_entry:
  assumes "lf_inv ts n s" "b < ts" "i < NUM_ITEMS_PER_ENTRY" "get_real_pointer (lf_at s b i) \<noteq> 0"
  shows "lf_heap s (get_real_pointer (lf_at s b i)) = Some (lf_str s b i)"
proof -
  have "get_real_pointer (lf_at s b i) \<in> dom (lf_heap s)"
    using lf_inv_good [OF assms(1-3)] assms(4) by (simp add: good_def)
  with assms(4) show ?thesis by (auto simp: lf_str_def entry_str_def)
qed

lemma passed_find_slot:
  assumes inv: "lf_inv ts n s" and b: "b1 < ts" "b2 < ts" "i < NUM_ITEMS_PER_ENTRY" "tid < n"
    and p: "passed s fp b1 i" "passed s fp b2 i"
  shows "lf_total env (lf_find_slot (Suc m) fuel ts b1 b2 fp tid i) s (\<lambda>r s'. haz n s s' \<and> r = None) False"
  using p lf_inv_in_table [OF inv b(1,3)] lf_inv_in_table [OF inv b(2,3)] b lf_inv_lengths [OF inv]
    lf_inv_entry [OF inv b(1,3)] lf_inv_entry [OF inv b(2,3)]
  by (auto simp: passed_def Let_def)

lemma stuck_help_then:
  assumes inv: "lf_inv ts n s" and b: "b < ts" "i < NUM_ITEMS_PER_ENTRY" "tid < n"
    and stuck: "stuck_mark ts s b i"
    and k: "\<And>s'. haz n s s' \<Longrightarrow> fst (lf_run env (k ()) s') = LfLooping"
  shows "fst (lf_run env (lf_bind (lf_help_relocate fuel ts b i False tid) k) s) = LfLooping"
proof (cases fuel)
  case 0
  have "length (lf_hazard_ptrs s) = n" using inv by (auto simp: lf_inv_def rect_def)
  with 0 show ?thesis using b(3) by (simp add: lf_help_relocate_def lf_clear_hazard_def)
next
  case (Suc f)
  have "lf_total env (lf_help_relocate fuel ts b i False tid) s (\<lambda>_. haz n s) False"
    by (rule stuck_mark_help [OF inv b stuck Suc])
  then obtain u s' where "lf_run env (lf_help_relocate fuel ts b i False tid) s = (LfReturned u, s')"
    and "haz n s s'"
    by (auto simp: lf_total_def split: prod.splits lf_result.splits)
  with k [of s'] show ?thesis by (simp add: lf_run_bind)
qed

lemma stuck_mark_find_slot:
  assumes inv: "lf_inv ts n s" and b: "b1 < ts" "b2 < ts" "i < NUM_ITEMS_PER_ENTRY" "tid < n"
    and stuck: "stuck_at ts s fp b1 b2 i"
  shows "fst (lf_run env (lf_find_slot m fuel ts b1 b2 fp tid i) s) = LfLooping"
  using inv stuck
proof (induction m arbitrary: s)
  case (Suc m)
  note inv = Suc.prems(1) and stuck = Suc.prems(2)
  have len: "length (lf_hazard_ptrs s) = n" using inv by (auto simp: lf_inv_def rect_def)
  have again: "fst (lf_run env (lf_bind (lf_help_relocate fuel ts b i False tid)
      (\<lambda>_. lf_find_slot m fuel ts b1 b2 fp tid i)) s1) = LfLooping"
    if h: "haz n s s1" and st: "stuck_mark ts s b i" "b < ts" for b s1
  proof (rule stuck_help_then [OF haz_inv [OF h inv] st(2) b(3,4)])
    show "stuck_mark ts s1 b i" using st(1) haz_stuck [OF h] by simp
    show "fst (lf_run env (lf_find_slot m fuel ts b1 b2 fp tid i) s') = LfLooping" if "haz n s1 s'" for s'
      by (rule Suc.IH)
        (use haz_inv haz_stuck_at haz_trans [OF h that] inv stuck in simp_all)
  qed
  have live: "get_real_pointer (lf_at s b i) \<noteq> 0" "get_marked (lf_at s b i)"
    if "stuck_mark ts s b i" "b < ts" for b
    using that lf_inv_good [OF inv _ b(3)] by (auto simp: stuck_mark_def good_def)
  note tab = lf_inv_in_table [OF inv b(1,3)] lf_inv_in_table [OF inv b(2,3)]
  show ?case
  proof (cases "stuck_mark ts s b1 i")
    case True
    with again [OF _ True b(1), of "mark_hazard (get_real_pointer (lf_at s b1 i)) 0 tid s"]
    show ?thesis using live [OF True b(1)] tab len b(4) by (simp add: Let_def)
  next
    case False
    then have st: "stuck_mark ts s b2 i" and p: "passed s fp b1 i" using stuck by (simp_all add: stuck_at_def)
    let ?s = "mark_hazard (get_real_pointer (lf_at s b1 i)) 0 tid s"
    have "fst (lf_run env (lf_bind (lf_help_relocate fuel ts b2 i False tid)
        (\<lambda>_. lf_find_slot m fuel ts b1 b2 fp tid i))
        (mark_hazard (get_real_pointer (lf_at s b2 i)) (Suc 0) tid ?s)) = LfLooping"
      by (rule again [OF _ st b(2)]) simp
    then show ?thesis
      using p live [OF st b(2)] tab len b(4) lf_inv_entry [OF inv b(1,3)]
      by (cases "get_real_pointer (lf_at s b1 i) = 0") (auto simp: passed_def Let_def)
  qed
qed simp

lemma lf_run_bind_looping: "fst (lf_run env p s) = LfLooping \<Longrightarrow> fst (lf_run env (lf_bind p f) s) = LfLooping"
  by (auto simp: lf_run_bind split: prod.splits)

lemma stuck_mark_find_slots:
  assumes b: "b1 < ts" "b2 < ts" "j < NUM_ITEMS_PER_ENTRY" "tid < n"
  shows "lf_inv ts n s \<Longrightarrow> stuck_at ts s fp b1 b2 j \<Longrightarrow>
    (\<And>i. i \<in> set is \<Longrightarrow> i < NUM_ITEMS_PER_ENTRY \<and> passed s fp b1 i \<and> passed s fp b2 i) \<Longrightarrow>
    fst (lf_run env (lf_find_slots (is @ j # js) fuel ts b1 b2 fp p tid) s) = LfLooping"
proof (induction "is" arbitrary: s)
  case Nil
  then show ?case using stuck_mark_find_slot [OF Nil(1) b] by (simp add: lf_run_bind_looping)
next
  case (Cons i "is")
  show ?case
  proof (cases fuel)
    case (Suc f)
    have i: "i < NUM_ITEMS_PER_ENTRY" "passed s fp b1 i" "passed s fp b2 i" using Cons.prems(3) [of i] by simp_all
    from passed_find_slot [OF Cons.prems(1) b(1,2) i(1) b(4) i(2,3), of env f fuel] Suc
    obtain s' where run: "lf_run env (lf_find_slot fuel fuel ts b1 b2 fp tid i) s = (LfReturned None, s')"
      and h: "haz n s s'"
      by (auto simp: lf_total_def split: prod.splits lf_result.splits)
    have "fst (lf_run env (lf_find_slots (is @ j # js) fuel ts b1 b2 fp p tid) s') = LfLooping"
      by (rule Cons.IH) (use Cons.prems haz_inv [OF h] in \<open>simp_all add: haz_stuck_at [OF h] haz_passed [OF h]\<close>)
    with run show ?thesis by (simp add: lf_run_bind)
  qed simp
qed

lemma stuck_mark_find_at:
  assumes inv: "lf_inv ts n s" and tid: "tid < n" and stuck: "meets_stuck_mark evp ts s key"
  shows "fst (lf_run env (lf_find_at evp ts fuel key p tid) s) = LfLooping"
proof -
  let ?h = "jenkins_hash key mod ts" and ?fp = "md5_fingerprint evp key"
  let ?s = "mark_hazard 0 (Suc 0) tid (mark_hazard 0 0 tid s)"
  let ?b2 = "get_next_hash_index ts ?h ?fp"
  have ts: "ts \<noteq> 0" using inv by (auto simp: lf_inv_def)
  have len: "length (lf_hazard_ptrs s) = n" using inv by (auto simp: lf_inv_def rect_def)
  have h: "haz n s ?s" by simp
  obtain j where j: "j < NUM_ITEMS_PER_ENTRY" "stuck_at ts ?s ?fp ?h ?b2 j"
    "\<And>i. i < j \<Longrightarrow> passed ?s ?fp ?h i \<and> passed ?s ?fp ?b2 i"
    using stuck by (auto simp: meets_stuck_mark_def Let_def haz_stuck_at [OF h] haz_passed [OF h])
  have slots: "[0..<NUM_ITEMS_PER_ENTRY] = [0..<j] @ j # [Suc j..<NUM_ITEMS_PER_ENTRY]"
    using upt_add_eq_append [of 0 j "NUM_ITEMS_PER_ENTRY - j"] upt_conv_Cons [of j NUM_ITEMS_PER_ENTRY] j(1)
    by simp
  have "fst (lf_run env (lf_find_slots [0..<NUM_ITEMS_PER_ENTRY] fuel ts ?h ?b2 ?fp p tid) ?s) = LfLooping"
    unfolding slots
    by (rule stuck_mark_find_slots [OF hash_mod_less [OF ts] get_next_hash_index_less [OF ts] j(1) tid
          haz_inv [OF h inv] j(2)]) (use j in auto)
  then show ?thesis
    using ts len tid by (simp add: lf_find_at_def lf_clear_hazard_def Let_def)
qed

lemma stuck_mark_find:
  assumes "lf_inv ts n s" "tid < n" "meets_stuck_mark evp ts s key"
  shows "fst (lf_run env (lf_find evp ts fuel key tid) s) = LfLooping"
  unfolding lf_find_def by (rule lf_run_bind_looping [OF stuck_mark_find_at [OF assms]])

lemma stuck_mark_remove:
  assumes inv: "lf_inv ts n s" and tid: "tid < n" and stuck: "meets_stuck_mark evp ts s key"
  shows "fst (lf_run env (lf_remove evp ts fuel key tid) s) = LfLooping"
proof -
  let ?s = "mark_hazard 0 (Suc 0) tid (mark_hazard 0 0 tid s)"
  have ts: "ts \<noteq> 0" using inv by (auto simp: lf_inv_def)
  have len: "length (lf_hazard_ptrs s) = n" using inv by (auto simp: lf_inv_def rect_def)
  have h: "haz n s ?s" by simp
  have "fst (lf_run env (lf_remove_loop m evp ts fuel key h1 h2 p tid) ?s) = LfLooping" for m h1 h2 p
  proof (cases m)
    case (Suc k)
    have "fst (lf_run env (lf_find_at evp ts fuel key p tid) ?s) = LfLooping"
      by (rule stuck_mark_find_at [OF haz_inv [OF h inv] tid]) (use stuck haz_meets [OF h] in simp)
    then show ?thesis by (simp add: Suc lf_run_bind_looping)
  qed simp
  then show ?thesis
    using ts len tid by (simp add: lf_remove_def lf_clear_hazard_def Let_def)
qed

text \<open>In particular, a stuck mark in the first slot of the first bucket is always met.\<close>

lemma first_slot_met: "stuck_mark ts s (jenkins_hash key mod ts) 0 \<Longrightarrow> meets_stuck_mark evp ts s key"
  unfolding meets_stuck_mark_def Let_def stuck_at_def
  by (intro exI [of _ 0]) (simp add: NUM_ITEMS_PER_ENTRY_def)

section \<open>Three concrete interleavings\<close>

text \<open>
  They start from the empty filter with two buckets. In two of them thread 0 inserts the keys 8, 4, 9 and 13,
  which fill the first bucket in this order: the second bucket of 4, 9 and 13 is the first one
  again, that of key 8 is the other one. Then it inserts key 3, whose two buckets are the full
  one, so that \<open>relocate\<close> moves key 8 away.
\<close>

definition lf_full :: lf_filter where
  "lf_full = lf_demo\<lparr>lf_hash_table := [[16, 32, 48, 64], [0, 0, 0, 0]],
     lf_heap := [16 \<mapsto> md5_fingerprint pad_evp [8], 32 \<mapsto> md5_fingerprint pad_evp [4],
       48 \<mapsto> md5_fingerprint pad_evp [9], 64 \<mapsto> md5_fingerprint pad_evp [13]]\<rparr>"

text \<open>
  For the third one, thread 0 first inserts key 1, which takes the first slot of the second
  bucket, then key 5, which therefore goes to the first bucket, then removes key 1 and fills the
  first bucket with 4, 9 and 13.
\<close>

definition lf_kicked :: lf_filter where
  "lf_kicked = lf_demo\<lparr>lf_hash_table := [[32, 48, 64, 80], [0, 0, 0, 0]],
     lf_retired_ptrs := [[16], []],
     lf_heap := [16 \<mapsto> md5_fingerprint pad_evp [1], 32 \<mapsto> md5_fingerprint pad_evp [5],
       48 \<mapsto> md5_fingerprint pad_evp [4], 64 \<mapsto> md5_fingerprint pad_evp [9],
       80 \<mapsto> md5_fingerprint pad_evp [13]]\<rparr>"

text \<open>The rest of a client after \<open>k\<close> of its calls have returned true.\<close>

definition answered :: "(bool + nat) list lf_prog \<Rightarrow> (bool + nat) list lf_prog" where
  "answered p = lf_bind p (\<lambda>rs. LRet (Inl True # rs))"

definition four_true :: "(bool + nat) list lf_prog \<Rightarrow> (bool + nat) list lf_prog" where
  "four_true p = answered (answered (answered (answered p)))"

text \<open>
  For evaluating schedules: congruence rules that keep the simplifier out of the continuation
  of an action until the action is performed.
\<close>

lemma lf_lazy:
  "b = b' \<Longrightarrow> i = i' \<Longrightarrow> LLoad b i kl = LLoad b' i' kl"
  "b = b' \<Longrightarrow> i = i' \<Longrightarrow> v = v' \<Longrightarrow> w = w' \<Longrightarrow> LCas b i v w kc = LCas b' i' v' w' kc"
  "v = v' \<Longrightarrow> LDeref v kd = LDeref v' kd"
  "fp = fp' \<Longrightarrow> LNew fp kl = LNew fp' kl"
  "i = i' \<Longrightarrow> j = j' \<Longrightarrow> v = v' \<Longrightarrow> LHazard i j v p = LHazard i' j' v' p"
  "i = i' \<Longrightarrow> v = v' \<Longrightarrow> LRetire i v p = LRetire i' v' p"
  "q = q' \<Longrightarrow> lf_bind q f = lf_bind q' f"
  "v = v' \<Longrightarrow> w = w' \<Longrightarrow> m = m' \<Longrightarrow> lf_create v w m kl = lf_create v' w' m' kl"
  "b = b' \<Longrightarrow> i = i' \<Longrightarrow> v = v' \<Longrightarrow> lf_try_slot b i v kt q = lf_try_slot b' i' v' kt q"
  "js = js' \<Longrightarrow> lf_scan js b c v m kt = lf_scan js' b c v m kt"
  "tid = tid' \<Longrightarrow> lf_clear_hazard tid p = lf_clear_hazard tid' p"
  by simp_all

lemma demo_facts:
  "jenkins_hash [3] mod 2 = 0" "jenkins_hash [1] mod 2 = 1" "jenkins_hash [0] mod 2 = 0"
  "jenkins_hash [8] mod 2 = 0" "jenkins_hash [4] mod 2 = 0" "jenkins_hash [9] mod 2 = 0"
  "jenkins_hash [13] mod 2 = 0"
  "get_next_hash_index 2 0 (md5_fingerprint pad_evp [0]) = 0"
  "get_next_hash_index 2 0 (md5_fingerprint pad_evp [3]) = 0"
  "get_next_hash_index 2 0 (md5_fingerprint pad_evp [4]) = 0"
  "get_next_hash_index 2 0 (md5_fingerprint pad_evp [9]) = 0"
  "get_next_hash_index 2 0 (md5_fingerprint pad_evp [13]) = 0"
  "get_next_hash_index 2 1 (md5_fingerprint pad_evp [1]) = 1"
  "get_next_hash_index 2 0 (md5_fingerprint pad_evp [8]) = 1"
  "jenkins_hash [5] mod 2 = 1" "get_next_hash_index 2 0 (md5_fingerprint pad_evp [5]) = 1"
  "get_next_hash_index 2 1 (md5_fingerprint pad_evp [5]) = 0"
  "md5_fingerprint pad_evp [0] \<noteq> md5_fingerprint pad_evp [4]"
  "md5_fingerprint pad_evp [0] \<noteq> md5_fingerprint pad_evp [9]"
  "md5_fingerprint pad_evp [0] \<noteq> md5_fingerprint pad_evp [13]"
  "md5_fingerprint pad_evp [4] \<noteq> md5_fingerprint pad_evp [8]"
  "md5_fingerprint pad_evp [9] \<noteq> md5_fingerprint pad_evp [8]"
  by code_simp+

lemma demo_pointers:
  "get_real_pointer 0 = 0" "get_real_pointer 16 = 16" "get_real_pointer 17 = 16"
  "get_real_pointer 32 = 32" "get_real_pointer 48 = 48" "get_real_pointer 64 = 64"
  "get_real_pointer 80 = 80" "get_real_pointer 96 = 96" "get_real_pointer 97 = 96"
  "get_real_pointer 0x1000000000000 = 0"
  "\<not> get_marked 0" "\<not> get_marked 16" "get_marked 17" "\<not> get_marked 32" "\<not> get_marked 48"
  "\<not> get_marked 64" "\<not> get_marked 96" "get_marked 97"
  "get_counter 0 = 0" "get_counter 16 = 0" "get_counter 17 = 0" "get_counter 97 = 0"
  "get_counter 32 = 0" "get_counter 48 = 0" "get_counter 64 = 0" "get_counter 0x1000000000000 = 1"
  "get_new_mark 16 True = 17" "get_new_mark 96 True = 97"
  "create_pointer 0 0 False = Some 0"
  "create_pointer 0 16 False = Some 16" "create_pointer 0 32 False = Some 32"
  "create_pointer 0 48 False = Some 48" "create_pointer 0 64 False = Some 64"
  "get_real_pointer 33 = 32" "get_marked 33" "\<not> get_marked 80" "\<not> get_marked 0x1000000000020"
  "get_real_pointer 0x1000000000020 = 32" "get_real_pointer 0x2000000000020 = 32"
  "\<not> get_marked 0x2000000000020" "get_new_mark 32 True = 33" "get_counter 33 = 0"
  "get_counter 0x1000000000020 = 1" "get_counter 0x2000000000020 = 2"
  "create_pointer 1 32 False = Some 0x1000000000020" "create_pointer 2 32 False = Some 0x2000000000020"
  "create_pointer 0 80 False = Some 80" "create_pointer 2 0 False = Some 0x2000000000000"
  "create_pointer 0 96 False = Some 96" "create_pointer 1 16 False = Some 0x1000000000010"
  "create_pointer 1 0 False = Some 0x1000000000000" "create_pointer 1 16 True = Some 0x1000000000011"
  by code_simp+

lemma lf_demo_lists:
  "[0..<4] = [0, 1, 2, 3 :: nat]"
  "replicate 5 t = [t, t, t, t, t]"
  "replicate 11 t = [t, t, t, t, t, t, t, t, t, t, t]"
  "replicate 14 t = [t, t, t, t, t, t, t, t, t, t, t, t, t, t]"
  "replicate 17 t = [t, t, t, t, t, t, t, t, t, t, t, t, t, t, t, t, t]"
  "replicate 21 t = [t, t, t, t, t, t, t, t, t, t, t, t, t, t, t, t, t, t, t, t, t]"
  "replicate 31 t = [t, t, t, t, t, t, t, t, t, t, t, t, t, t, t, t, t, t, t, t, t, t, t, t, t, t,
    t, t, t, t, t]"
  "replicate 33 t = [t, t, t, t, t, t, t, t, t, t, t, t, t, t, t, t, t, t, t, t, t, t, t, t, t, t,
    t, t, t, t, t, t, t]"
  "replicate 47 t = [t, t, t, t, t, t, t, t, t, t, t, t, t, t, t, t, t, t, t, t, t, t, t, t, t, t,
    t, t, t, t, t, t, t, t, t, t, t, t, t, t, t, t, t, t, t, t, t]"
  "replicate 32 t = [t, t, t, t, t, t, t, t, t, t, t, t, t, t, t, t, t, t, t, t, t, t, t, t, t, t,
    t, t, t, t, t, t]"
  by (simp_all add: numeral_eq_Suc upt_rec)

lemma nine_ten: "10 = Suc 9" "9 = Suc 8"
  by simp_all

lemmas lf_discover_two_levels =
  lf_discover.simps(2) [of 9, folded nine_ten(1)] lf_discover.simps(2) [of 8, folded nine_ten(2)]

lemmas lf_eval =
  lf_act_def in_table_def lf_at_def lf_put_def cell_def put_cell_def mark_hazard_def
  push_retired_def lf_insert_def lf_clear_hazard_def lf_create_def lf_try_slot_def
  lf_relocate_def lf_help_relocate_def lf_help_move_def lf_help_end_def lf_remove_def lf_find_def
  lf_find_at_def lf_retire_key_def
  NUM_ITEMS_PER_ENTRY_def NUM_MAX_KICKS_def MAX_HAZARD_POINTER_COUNT_def Let_def
  lf_start_def lf_full_def lf_demo_def demo_env_def four_true_def answered_def lf_kicked_def
  demo_facts demo_pointers lf_demo_lists lf_discover_two_levels

lemma lf_fill:
  "thread_exec (lf_act demo_env) (replicate 32 0)
     (lf_start pad_evp (Suc (Suc (Suc F))) lf_demo [map InsertKey [[8], [4], [9], [13]] @ cs, ds]) =
   Some (lf_full, [four_true (lf_client pad_evp 2 (Suc (Suc (Suc F))) 0 cs),
     lf_client pad_evp 2 (Suc (Suc (Suc F))) 1 ds])"
  supply lf_lazy [cong]
  by (simp add: lf_eval)

lemma lf_kick_fill:
  "thread_exec (lf_act demo_env) (replicate 47 0)
     (lf_start pad_evp (Suc (Suc (Suc F))) lf_demo [[InsertKey [1], InsertKey [5], RemoveKey [1],
       InsertKey [4], InsertKey [9], InsertKey [13]] @ cs, ds]) =
   Some (lf_kicked, [four_true (answered (answered (lf_client pad_evp 2 (Suc (Suc (Suc F))) 0 cs))),
     lf_client pad_evp 2 (Suc (Suc (Suc F))) 1 ds])"
  supply lf_lazy [cong]
  by (simp add: lf_eval)

text \<open>
  Thread 0 marks key 8 and has seen the destination slot empty; thread 1 inserts key 1 there;
  thread 0 fails to move key 8 and leaves it marked.
\<close>

lemma lf_full_stuck:
  "\<exists>s ps. thread_exec (lf_act demo_env) (replicate 31 0 @ replicate 5 1 @ [0, 0, 0])
     (lf_full, [four_true (lf_client pad_evp 2 (Suc (Suc (Suc F))) 0 [InsertKey [3]]),
        lf_client pad_evp 2 (Suc (Suc (Suc F))) 1 [InsertKey [1]]]) = Some (s, ps) \<and>
     lf_hash_table s = [[17, 32, 48, 64], [96, 0, 0, 0]] \<and>
     lf_heap s 16 = Some (md5_fingerprint pad_evp [8]) \<and> ps ! 1 = LRet [Inl True]"
  supply lf_lazy [cong]
  by (simp add: lf_eval)

text \<open>
  Thread 0 has chosen to move key 8 when thread 1 removes it and inserts key 0 in its slot;
  thread 0 then erases key 0.
\<close>

lemma lf_full_lost:
  "\<exists>s ps. thread_exec (lf_act demo_env)
     (replicate 21 0 @ replicate 14 1 @ replicate 11 0 @ replicate 32 1)
     (lf_full, [four_true (lf_client pad_evp 2 (Suc (Suc (Suc F))) 0 [InsertKey [3]]),
        lf_client pad_evp 2 (Suc (Suc (Suc F))) 1 [RemoveKey [8], InsertKey [0], FindKey [0]]]) =
       Some (s, ps) \<and> ps ! 1 = LRet [Inl True, Inl True, Inr 8]"
  supply lf_lazy [cong]
  by (simp add: lf_eval)

text \<open>
  Thread 0 has copied key 5 to its destination and not yet cleared the source slot; thread 1
  removes the copy, then helps to move the source again, and removes key 5 a second time.
\<close>

lemma lf_kicked_twice:
  "\<exists>s ps. thread_exec (lf_act demo_env) (replicate 33 0 @ replicate 32 1)
     (lf_kicked, [four_true (answered (answered
          (lf_client pad_evp 2 (Suc (Suc (Suc F))) 0 [InsertKey [3]]))),
        lf_client pad_evp 2 (Suc (Suc (Suc F))) 1 [RemoveKey [5], RemoveKey [5]]]) =
       Some (s, ps) \<and> ps ! 1 = LRet [Inl True, Inl True] \<and> lf_retired_ptrs s = [[16], [32, 32]]"
  supply lf_lazy [cong]
  by (simp add: lf_eval)

lemma lf_reach_filled:
  assumes "thread_exec (lf_act demo_env) sched
     (lf_full, [four_true (lf_client pad_evp 2 (Suc (Suc (Suc F))) 0 cs),
        lf_client pad_evp 2 (Suc (Suc (Suc F))) 1 ds]) = Some d"
  shows "thread_reach (lf_act demo_env)
    (lf_start pad_evp (Suc (Suc (Suc F))) lf_demo [map InsertKey [[8], [4], [9], [13]] @ cs, ds]) d"
  by (rule thread_exec_reach [of _ "replicate 32 0 @ sched"])
    (simp only: thread_exec_append lf_fill assms option.case)

lemma lf_stuck_reached:
  "\<exists>s ps. thread_reach (lf_act demo_env) (lf_start pad_evp (Suc (Suc (Suc F))) lf_demo
     [map InsertKey [[8], [4], [9], [13]] @ [InsertKey [3]], [InsertKey [1]]]) (s, ps) \<and>
     ps ! 1 = LRet [Inl True] \<and> lf_inv 2 2 s \<and> stuck_mark 2 s 0 0"
proof -
  obtain s ps where run: "thread_exec (lf_act demo_env) (replicate 31 0 @ replicate 5 1 @ [0, 0, 0])
     (lf_full, [four_true (lf_client pad_evp 2 (Suc (Suc (Suc F))) 0 [InsertKey [3]]),
        lf_client pad_evp 2 (Suc (Suc (Suc F))) 1 [InsertKey [1]]]) = Some (s, ps)"
    and s: "lf_hash_table s = [[17, 32, 48, 64], [96, 0, 0, 0]]"
      "lf_heap s 16 = Some (md5_fingerprint pad_evp [8])" "ps ! 1 = LRet [Inl True]"
    using lf_full_stuck by blast
  note reach = lf_reach_filled [OF run]
  have "lf_inv 2 2 s"
    using lf_threads.reach_inv [OF reach lf_start_ok [OF demo_env_ok lf_demo_inv]] by simp
  moreover have "stuck_mark 2 s 0 0"
    by (simp add: stuck_mark_def lf_at_def cell_def lf_str_def entry_str_def s demo_pointers
        demo_facts Let_def)
  ultimately show ?thesis using reach s(3) by blast
qed

section \<open>Properties\<close>

text \<open>
  C29. A mark that cannot be taken back blocks searches: if the entry of a marked slot has its
  destination occupied by another entry, and the counter of the slot is not used up, then
  \<open>find\<close> and \<open>remove\<close> of every key whose search comes to this slot (in any position of the
  key's first or second bucket, the slots read before it being unmarked and not holding the
  key) never return, for any fuel, although no other thread interferes.
\<close>

theorem lf_stuck_mark_blocks:
  assumes "lf_inv ts n s" "tid < n" "meets_stuck_mark evp ts s key"
  shows "fst (lf_run env (lf_find evp ts fuel key tid) s) = LfLooping \<and>
    fst (lf_run env (lf_remove evp ts fuel key tid) s) = LfLooping"
  using stuck_mark_find [OF assms] stuck_mark_remove [OF assms] by blast

lemma lf_stuck_mark_blocks_witness:
  "\<exists>s. lf_inv 2 2 s \<and> fst (lf_run demo_env (lf_remove pad_evp 2 10 [9] 0) s) = LfLooping"
proof -
  obtain s where s: "lf_inv 2 2 s" "stuck_mark 2 s 0 0" using lf_stuck_reached [of 0] by blast
  then have "meets_stuck_mark pad_evp 2 s [9]" using demo_facts by (intro first_slot_met) simp
  with s have "fst (lf_run demo_env (lf_remove pad_evp 2 10 [9] 0) s) = LfLooping"
    using lf_stuck_mark_blocks [of 2 2 s 0 pad_evp "[9]" demo_env 10] by simp
  with s show ?thesis by blast
qed

text \<open>
  C23. The operations are not lock-free: two threads that only insert, on a fresh filter, can
  reach a state from which \<open>find\<close> of a key that was inserted and never removed does not return,
  even if every other thread stops. (\<open>help_relocate\<close> aims the compare-and-swap that should take
  the mark back at the destination slot instead of the source slot.)
\<close>

theorem lf_insertions_block_find:
  "\<exists>s ps. thread_reach (lf_act demo_env) (lf_start pad_evp (Suc (Suc (Suc F))) lf_demo
     [[InsertKey [8], InsertKey [4], InsertKey [9], InsertKey [13], InsertKey [3]], [InsertKey [1]]])
     (s, ps) \<and> ps ! 1 = LRet [Inl True] \<and>
     (\<forall>fuel. fst (lf_run demo_env (lf_find pad_evp 2 fuel [4] 1) s) = LfLooping)"
proof -
  obtain s ps where s: "thread_reach (lf_act demo_env) (lf_start pad_evp (Suc (Suc (Suc F))) lf_demo
       [map InsertKey [[8], [4], [9], [13]] @ [InsertKey [3]], [InsertKey [1]]]) (s, ps)"
     "ps ! 1 = LRet [Inl True]" "lf_inv 2 2 s" "stuck_mark 2 s 0 0"
    using lf_stuck_reached by blast
  have "fst (lf_run demo_env (lf_find pad_evp 2 fuel [4] 1) s) = LfLooping" for fuel
    by (rule stuck_mark_find [OF s(3) _ first_slot_met]) (use s(4) demo_facts in simp_all)
  with s show ?thesis by force
qed

text \<open>
  C24. An insertion can be lost: thread 1 removes key 8, inserts key 0 and does not find it, while
  thread 0 only inserts. \<open>help_relocate\<close> on an entry whose two buckets coincide takes the entry
  itself for the copy that another thread has already moved, and clears the slot.
\<close>

theorem lf_insertion_lost:
  "\<exists>s ps. thread_reach (lf_act demo_env) (lf_start pad_evp (Suc (Suc (Suc F))) lf_demo
     [[InsertKey [8], InsertKey [4], InsertKey [9], InsertKey [13], InsertKey [3]],
      [RemoveKey [8], InsertKey [0], FindKey [0]]]) (s, ps) \<and>
     ps ! 1 = LRet [Inl True, Inl True, Inr 8]"
proof -
  obtain s ps where run: "thread_exec (lf_act demo_env)
     (replicate 21 0 @ replicate 14 1 @ replicate 11 0 @ replicate 32 1)
     (lf_full, [four_true (lf_client pad_evp 2 (Suc (Suc (Suc F))) 0 [InsertKey [3]]),
        lf_client pad_evp 2 (Suc (Suc (Suc F))) 1 [RemoveKey [8], InsertKey [0], FindKey [0]]]) =
       Some (s, ps)" and ps: "ps ! 1 = LRet [Inl True, Inl True, Inr 8]"
    using lf_full_lost by blast
  show ?thesis using lf_reach_filled [OF run] ps by force
qed

text \<open>
  C25. A key inserted once can be removed twice, and its entry is then retired twice: thread 1
  removes key 5 at its destination while thread 0 has not yet cleared the source slot, its next
  call helps to move the source again, and the key is back. Freeing the retired entries would
  be a double free.
\<close>

theorem lf_removed_twice:
  "\<exists>s ps. thread_reach (lf_act demo_env) (lf_start pad_evp (Suc (Suc (Suc F))) lf_demo
     [[InsertKey [1], InsertKey [5], RemoveKey [1], InsertKey [4], InsertKey [9], InsertKey [13],
        InsertKey [3]],
      [RemoveKey [5], RemoveKey [5]]]) (s, ps) \<and>
     ps ! 1 = LRet [Inl True, Inl True] \<and> lf_retired_ptrs s = [[16], [32, 32]]"
proof -
  obtain s ps where run: "thread_exec (lf_act demo_env) (replicate 33 0 @ replicate 32 1)
     (lf_kicked, [four_true (answered (answered
          (lf_client pad_evp 2 (Suc (Suc (Suc F))) 0 [InsertKey [3]]))),
        lf_client pad_evp 2 (Suc (Suc (Suc F))) 1 [RemoveKey [5], RemoveKey [5]]]) = Some (s, ps)"
    and ps: "ps ! 1 = LRet [Inl True, Inl True]" "lf_retired_ptrs s = [[16], [32, 32]]"
    using lf_kicked_twice by blast
  have "thread_exec (lf_act demo_env) (replicate 47 0 @ replicate 33 0 @ replicate 32 1)
     (lf_start pad_evp (Suc (Suc (Suc F))) lf_demo [[InsertKey [1], InsertKey [5], RemoveKey [1],
       InsertKey [4], InsertKey [9], InsertKey [13]] @ [InsertKey [3]],
       [RemoveKey [5], RemoveKey [5]]]) = Some (s, ps)"
    by (simp only: thread_exec_append [of _ "replicate 47 0"] lf_kick_fill run option.case)
  from thread_exec_reach [OF this] ps show ?thesis by force
qed

text \<open>
  C35. The counter of a slot is never reset: when the larger one of the counters of an entry's
  slot and of its free destination is 65535, moving the entry aborts the process, in
  \<open>create_pointer\<close>, and the entry is left marked.
\<close>

theorem lf_counter_overflow_aborts:
  assumes q: "lf_quiet ts n s" and b: "src < ts" "i < NUM_ITEMS_PER_ENTRY" "tid < n"
    and dst: "dst = get_next_hash_index ts src (lf_str s src i)"
    and full: "get_real_pointer (lf_at s src i) \<noteq> 0" and empty: "get_real_pointer (lf_at s dst i) = 0"
    and max: "max (unat (get_counter (lf_at s src i))) (unat (get_counter (lf_at s dst i))) = 65535"
  shows "fst (lf_run env (lf_help_relocate (Suc (Suc f)) ts src i True tid) s) = LfAborted \<and>
    get_marked (lf_at (snd (lf_run env (lf_help_relocate (Suc (Suc f)) ts src i True tid) s)) src i)"
proof -
  note D = lf_quietD [OF q]
  note src = lf_quiet_slot [OF q b(1,2)]
  have ts: "ts \<noteq> 0" using D(3) by auto
  have d: "dst < ts" unfolding dst by (rule get_next_hash_index_less [OF ts])
  have ne: "src \<noteq> dst" using full empty by auto
  let ?m = "get_new_mark (lf_at s src i) True"
  let ?c = "get_counter (lf_at s src i)" and ?d = "get_counter (lf_at s dst i)"
  have at: "lf_at (lf_put src i ?m s) dst i = lf_at s dst i" "lf_at (lf_put src i ?m s) src i = ?m"
    using ne by (simp_all add: lf_at_put [OF D(1) b(1,2)])
  have "?d < ?c \<Longrightarrow> ?c = 65535" "\<not> ?d < ?c \<Longrightarrow> ?d = 65535"
    using max by (auto simp: word_unat_eq_iff word_less_nat_alt)
  then have over: "?d < ?c \<Longrightarrow> UINT16_MAX < ucast ?c + 1" "\<not> ?d < ?c \<Longrightarrow> UINT16_MAX < ucast ?d + 1"
    by (simp_all add: UINT16_MAX_def)
  show ?thesis
    unfolding lf_help_relocate_def lf_clear_hazard_def lf_help_move_def Let_def
    using D(4) b(3) src(1,2) full empty at lf_quiet_slot(1) [OF q d b(2)] over src(4) dst
    by (cases "?d < ?c")
      (simp_all add: lf_help_move_def Let_def lf_create_def lf_run_bind
        create_pointer_None [THEN iffD2])
qed

text \<open>Key 8 alone in the filter, in a slot whose counter has reached its maximum.\<close>

definition lf_worn :: lf_filter where
  "lf_worn = lf_put 0 0 0xFFFF000000000010 (lf_demo\<lparr>lf_heap := [16 \<mapsto> md5_fingerprint pad_evp [8]]\<rparr>)"

lemma lf_counter_overflow_aborts_witness:
  "fst (lf_run demo_env (lf_help_relocate (Suc (Suc 0)) 2 0 0 True 0) lf_worn) = LfAborted"
proof -
  let ?s = "lf_demo\<lparr>lf_heap := [16 \<mapsto> md5_fingerprint pad_evp [8]]\<rparr>"
  have word: "get_real_pointer 0xFFFF000000000010 = 16" "get_counter 0xFFFF000000000010 = 65535"
    "\<not> get_marked 0xFFFF000000000010"
    by code_simp+
  have zero: "lf_at ?s b i = 0" if "b < 2" "i < NUM_ITEMS_PER_ENTRY" for b i
    using lf_new_inv [OF lf_demo_new] that by (auto simp: lf_at_def)
  have "lf_inv 2 2 lf_demo" by (rule lf_demo_inv)
  then have inv: "lf_inv 2 2 ?s" using zero by (simp add: lf_inv_def good_def)
  have "lf_quiet 2 2 ?s" using inv zero by (simp add: lf_quiet_def)
  then have "lf_quiet 2 2 lf_worn"
    unfolding lf_worn_def
    by (rule lf_quiet_put) (simp_all add: word md5_fingerprint_nonempty [OF pad_evp_ok])
  moreover have "lf_at lf_worn 0 0 = 0xFFFF000000000010" "lf_at lf_worn 1 0 = 0"
    unfolding lf_worn_def using zero by (simp_all add: lf_at_put [OF inv])
  moreover have "lf_str lf_worn 0 0 = md5_fingerprint pad_evp [8]"
    using calculation(2) word(1) by (simp add: lf_str_def entry_str_def) (simp add: lf_worn_def lf_put_def)
  ultimately show ?thesis
    using lf_counter_overflow_aborts [of 2 2 lf_worn 0 0 0 1 demo_env 0] word demo_facts
    by simp
qed

end
