(* ===== verification/Lock_Free_Answers.thy ===== *)
theory Lock_Free_Answers
  imports Lock_Free_Races
begin

text \<open>
  What an answer of the lock-free filter means when any threads do anything: a hit of \<open>find\<close> or
  a successful \<open>remove\<close> is backed by an item that was in the table at the start or is inserted by
  some thread. Entries that are live but no longer in the table do not count. The proof tracks
  where pointers come from: what a thread loads from a bucket, it may store only in a bucket
  that belongs to the same item.
\<close>

section \<open>Where items come from\<close>

text \<open>
  \<open>\<sigma>\<close> gives the string of every entry that a run allocates (entries never change and are not
  freed, so the heap at the end of the run does). A pointer may be in a slot of bucket \<open>b\<close> if
  its string, together with the pair of buckets of that string at \<open>b\<close>, is an item of \<open>D\<close>.
\<close>

definition slot_from ::
  "(u64 \<rightharpoonup> bytes) \<Rightarrow> u32 \<Rightarrow> (bytes \<times> u32 set) set \<Rightarrow> u32 \<Rightarrow> table_pointer \<Rightarrow> bool" where
  "slot_from \<sigma> ts D b p \<longleftrightarrow> (get_real_pointer p \<noteq> 0 \<longrightarrow>
     (\<exists>str. \<sigma> (get_real_pointer p) = Some str \<and> (str \<noteq> [] \<longrightarrow> (str, home ts b str) \<in> D)))"

text \<open>
  \<open>lf_from \<sigma> ts D Q p\<close>: whatever the memory answers, as long as every pointer read from a
  bucket may be there, the program \<open>p\<close> stores only pointers that may be where it puts them, and
  its result satisfies \<open>Q\<close>.
\<close>

primrec lf_from ::
  "(u64 \<rightharpoonup> bytes) \<Rightarrow> u32 \<Rightarrow> (bytes \<times> u32 set) set \<Rightarrow> ('a \<Rightarrow> bool) \<Rightarrow> 'a lf_prog \<Rightarrow> bool" where
  "lf_from \<sigma> ts D Q (LRet a) = Q a"
| "lf_from \<sigma> ts D Q LAbort = True"
| "lf_from \<sigma> ts D Q LFault = True"
| "lf_from \<sigma> ts D Q LOut = True"
| "lf_from \<sigma> ts D Q (LLoad b i k) = (\<forall>v. b < ts \<longrightarrow> slot_from \<sigma> ts D b v \<longrightarrow> lf_from \<sigma> ts D Q (k v))"
| "lf_from \<sigma> ts D Q (LCas b i old new k) =
     ((b < ts \<longrightarrow> slot_from \<sigma> ts D b new) \<and> (\<forall>v. lf_from \<sigma> ts D Q (k v)))"
| "lf_from \<sigma> ts D Q (LDeref a k) = (\<forall>str. \<sigma> a = Some str \<longrightarrow> lf_from \<sigma> ts D Q (k str))"
| "lf_from \<sigma> ts D Q (LNew str k) = (\<forall>a. fits a \<longrightarrow> \<sigma> a = Some str \<longrightarrow> lf_from \<sigma> ts D Q (k a))"
| "lf_from \<sigma> ts D Q (LHazard t j a p) = lf_from \<sigma> ts D Q p"
| "lf_from \<sigma> ts D Q (LRetire t a p) = lf_from \<sigma> ts D Q p"
| "lf_from \<sigma> ts D Q (LShuffle k) = (\<forall>order. lf_from \<sigma> ts D Q (k order))"

lemma lf_from_bind:
  "lf_from \<sigma> ts D R p \<Longrightarrow> (\<And>a. R a \<Longrightarrow> lf_from \<sigma> ts D Q (f a)) \<Longrightarrow> lf_from \<sigma> ts D Q (lf_bind p f)"
  by (induction p) auto

lemma lf_from_mono: "lf_from \<sigma> ts D R p \<Longrightarrow> (\<And>a. R a \<Longrightarrow> Q a) \<Longrightarrow> lf_from \<sigma> ts D Q p"
  by (induction p) auto

lemma lf_from_create:
  "(\<And>p. fits a \<Longrightarrow> get_real_pointer p = a \<Longrightarrow> lf_from \<sigma> ts D Q (k p)) \<Longrightarrow> fits a \<Longrightarrow>
    lf_from \<sigma> ts D Q (lf_create c a m k)"
  by (auto simp: lf_create_def create_pointer_real_pointer split: option.split)

text \<open>What is allowed in a bucket depends on the address only, and moves to the partner bucket.\<close>

lemma slot_from_same: "slot_from \<sigma> ts D b p \<Longrightarrow> get_real_pointer q = get_real_pointer p \<Longrightarrow> slot_from \<sigma> ts D b q"
  by (simp add: slot_from_def)

lemma slot_from_null [simp]: "get_real_pointer p = 0 \<Longrightarrow> slot_from \<sigma> ts D b p"
  by (simp add: slot_from_def)

lemma slot_from_partner:
  assumes "is_pow2 ts" "b < ts" "slot_from \<sigma> ts D b p" "\<sigma> (get_real_pointer p) = Some str"
    and "get_real_pointer q = get_real_pointer p"
  shows "slot_from \<sigma> ts D (get_next_hash_index ts b str) q"
  using assms home_next [of ts b str] by (simp add: slot_from_def pow2_index_def)

text \<open>The operations that read and relocate put entries only where they belong.\<close>

lemma slot_from_new_mark [simp]: "slot_from \<sigma> ts D b (get_new_mark p m) = slot_from \<sigma> ts D b p"
  by (simp add: slot_from_def)

lemma lf_from_mark:
  "slot_from \<sigma> ts D b p \<Longrightarrow>
    lf_from \<sigma> ts D (\<lambda>r. \<forall>q. r = Some q \<longrightarrow> slot_from \<sigma> ts D b q) (lf_mark n b i ini tid p)"
  by (induction n arbitrary: p) auto

lemma lf_from_help_end:
  assumes "slot_from \<sigma> ts D d p"
  shows "lf_from \<sigma> ts D (\<lambda>_. True) (lf_help_end d i p q)"
  by (auto simp: lf_help_end_def Let_def intro!: lf_from_create slot_from_same [OF assms])

lemma lf_from_help_move:
  assumes "slot_from \<sigma> ts D d p" "lf_from \<sigma> ts D (\<lambda>_. True) r"
  shows "lf_from \<sigma> ts D (\<lambda>_. True) (lf_help_move b d i p q r)"
  using assms(2) lf_from_help_end [OF assms(1)]
  by (auto simp: lf_help_move_def Let_def intro!: lf_from_create slot_from_same [OF assms(1)])

lemma lf_from_help_loop:
  assumes "is_pow2 ts"
  shows "lf_from \<sigma> ts D (\<lambda>_. True) (lf_help_loop n fuel ts b i ini tid)"
proof (induction n)
  case (Suc n)
  have move: "lf_from \<sigma> ts D (\<lambda>_. True) (lf_help_move b (get_next_hash_index ts b str) i p q
      (lf_help_loop n fuel ts b i ini tid))"
    if "b < ts" "slot_from \<sigma> ts D b p" "\<sigma> (get_real_pointer p) = Some str" for p q str
    by (rule lf_from_help_move [OF slot_from_partner [OF assms that] Suc.IH]) simp
  have "lf_from \<sigma> ts D (\<lambda>_. True) (lf_bind (lf_mark fuel b i ini tid p) (\<lambda>res.
      case res of None \<Rightarrow> LRet () | Some ptr1 \<Rightarrow> if \<not> get_marked ptr1 then LRet () else
        LDeref (get_real_pointer ptr1) (\<lambda>str.
        let new_hash = get_next_hash_index ts b str
        in LLoad new_hash i (\<lambda>ptr2. LHazard tid 1 (get_real_pointer ptr2)
             (lf_help_move b new_hash i ptr1 ptr2 (lf_help_loop n fuel ts b i ini tid))))))"
    if "b < ts" "slot_from \<sigma> ts D b p" for p
    by (rule lf_from_bind [OF lf_from_mark [OF that(2)]]) (use move that(1) in \<open>auto simp: Let_def split: option.split\<close>)
  then show ?case by simp
qed simp

lemma lf_from_help: "is_pow2 ts \<Longrightarrow> lf_from \<sigma> ts D (\<lambda>_. True) (lf_help_relocate fuel ts b i ini tid)"
  by (simp add: lf_help_relocate_def lf_clear_hazard_def lf_from_help_loop)

lemma lf_from_unmark: "is_pow2 ts \<Longrightarrow> lf_from \<sigma> ts D (\<lambda>_. True) (lf_unmark n fuel ts b i tid p)"
  by (induction n arbitrary: p) (auto intro!: lf_from_bind [OF lf_from_help])

lemma lf_from_discover: "is_pow2 ts \<Longrightarrow> lf_from \<sigma> ts D (\<lambda>_. True) (lf_discover n fuel ts i tid d b route)"
  by (induction n arbitrary: d b route) (auto simp: Let_def intro!: lf_from_bind [OF lf_from_unmark])

lemma lf_from_traverse: "is_pow2 ts \<Longrightarrow> lf_from \<sigma> ts D (\<lambda>_. True) (lf_traverse fuel ts i tid route lvl is)"
  by (induction "is") (auto simp: Let_def lf_from_help intro!: lf_from_bind [OF lf_from_help]
      lf_from_bind [where R = "\<lambda>_. True"])

lemma lf_from_relocate:
  assumes "is_pow2 ts"
  shows "lf_from \<sigma> ts D (\<lambda>_. True) (lf_relocate fuel ts b i tid)"
proof -
  have "lf_from \<sigma> ts D (\<lambda>_. True) (lf_relocate_from n fuel ts b i tid l)" for n b l
    by (induction n arbitrary: b l)
      (auto split: option.split intro!: lf_from_bind [OF lf_from_discover] lf_from_bind [OF lf_from_traverse] assms)
  then show ?thesis by (simp add: lf_relocate_def)
qed

text \<open>\<open>insert\<close> stores the entry it has allocated for its key, in one of the key's two buckets.\<close>

lemma lf_from_scan:
  assumes "fits a" "\<And>p b. b \<in> {h1, h2} \<Longrightarrow> get_real_pointer p = a \<Longrightarrow> slot_from \<sigma> ts D b p"
    and "\<And>e. lf_from \<sigma> ts D (\<lambda>_. True) (k e)"
  shows "lf_from \<sigma> ts D (\<lambda>_. True) (lf_scan is h1 h2 a e k)"
  using assms by (induction "is" arbitrary: e) (auto simp: lf_try_slot_def intro!: lf_from_create)

lemma lf_from_kick_any: "is_pow2 ts \<Longrightarrow> lf_from \<sigma> ts D (\<lambda>_. True) (lf_kick_any fuel ts h tid order)"
  by (induction order) (auto intro!: lf_from_bind [OF lf_from_relocate])

lemma lf_from_insert_loop:
  assumes "is_pow2 ts" "fits a" "\<And>p b. b \<in> {h1, h2} \<Longrightarrow> get_real_pointer p = a \<Longrightarrow> slot_from \<sigma> ts D b p"
  shows "lf_from \<sigma> ts D (\<lambda>_. True) (lf_insert_loop n fuel ts h1 h2 a tid)"
proof (induction n)
  case (Suc n)
  show ?case
    unfolding lf_insert_loop.simps
    by (rule lf_from_scan [OF assms(2,3)])
      (auto intro!: lf_from_bind [OF lf_from_kick_any [OF assms(1)]] Suc.IH)
qed simp

lemma lf_from_insert:
  assumes ts: "is_pow2 ts" and "key_item evp ts key \<in> D"
  shows "lf_from \<sigma> ts D (\<lambda>_. True) (lf_insert evp ts fuel key tid)"
proof -
  let ?fp = "md5_fingerprint evp key" and ?h = "jenkins_hash key mod ts"
  have h: "pow2_index ts ?h" using ts hash_mod_less [OF is_pow2_neq_0 [OF ts]] by (simp add: pow2_index_def)
  have "slot_from \<sigma> ts D b p"
    if "b \<in> {?h, get_next_hash_index ts ?h ?fp}" "\<sigma> (get_real_pointer p) = Some ?fp" for b p
    using that assms(2) home_next [OF h] by (auto simp: slot_from_def key_item_def)
  then show ?thesis
    by (auto simp: lf_insert_def lf_clear_hazard_def Let_def intro!: lf_from_insert_loop [OF ts])
qed

text \<open>\<open>find\<close> compares with a string that it has read from a bucket of the key.\<close>

lemma lf_from_find_slot:
  assumes "is_pow2 ts" "fp \<noteq> []"
  shows "lf_from \<sigma> ts D (\<lambda>r. r \<noteq> None \<longrightarrow> (\<exists>b \<in> {h1, h2}. b < ts \<and> (fp, home ts b fp) \<in> D))
     (lf_find_slot n fuel ts h1 h2 fp tid i)"
  by (induction n)
    (use assms in \<open>auto simp: Let_def slot_from_def intro!: lf_from_bind [OF lf_from_help]\<close>)

lemma lf_from_find_slots:
  assumes "is_pow2 ts" "fp \<noteq> []"
  shows "lf_from \<sigma> ts D (\<lambda>r. fst r \<noteq> NUM_ITEMS_PER_ENTRY * 2 \<longrightarrow> (\<exists>b \<in> {h1, h2}. b < ts \<and> (fp, home ts b fp) \<in> D))
     (lf_find_slots is fuel ts h1 h2 fp ptr tid)"
proof (induction "is")
  case (Cons i "is")
  show ?case
    unfolding lf_find_slots.simps
    by (rule lf_from_bind [OF lf_from_find_slot [OF assms]]) (use Cons.IH in \<open>auto split: option.split\<close>)
qed simp

lemma lf_from_find_at:
  assumes ts: "is_pow2 ts" and evp: "evp_md5_ok evp"
  shows "lf_from \<sigma> ts D (\<lambda>r. fst r \<noteq> NUM_ITEMS_PER_ENTRY * 2 \<longrightarrow> key_item evp ts key \<in> D)
     (lf_find_at evp ts fuel key ptr tid)"
proof -
  let ?fp = "md5_fingerprint evp key" and ?h = "jenkins_hash key mod ts"
  have "pow2_index ts ?h" using ts hash_mod_less [OF is_pow2_neq_0 [OF ts]] by (simp add: pow2_index_def)
  from home_next [OF this]
  have item: "key_item evp ts key \<in> D"
    if "\<exists>b \<in> {?h, get_next_hash_index ts ?h ?fp}. b < ts \<and> (?fp, home ts b ?fp) \<in> D"
    using that by (auto simp: key_item_def)
  have "lf_from \<sigma> ts D (\<lambda>r. fst r \<noteq> NUM_ITEMS_PER_ENTRY * 2 \<longrightarrow> key_item evp ts key \<in> D)
      (lf_find_slots [0..<NUM_ITEMS_PER_ENTRY] fuel ts ?h (get_next_hash_index ts ?h ?fp) ?fp ptr tid)"
    by (rule lf_from_mono [OF lf_from_find_slots [OF ts md5_fingerprint_nonempty [OF evp]]]) (use item in auto)
  then show ?thesis by (simp add: lf_find_at_def lf_clear_hazard_def Let_def)
qed

lemma lf_from_find:
  assumes "is_pow2 ts" "evp_md5_ok evp"
  shows "lf_from \<sigma> ts D (\<lambda>l. l \<noteq> NUM_ITEMS_PER_ENTRY * 2 \<longrightarrow> key_item evp ts key \<in> D) (lf_find evp ts fuel key tid)"
  unfolding lf_find_def by (rule lf_from_bind [OF lf_from_find_at [OF assms]]) auto

lemma lf_from_remove:
  assumes "is_pow2 ts" "evp_md5_ok evp"
  shows "lf_from \<sigma> ts D (\<lambda>r. r \<longrightarrow> key_item evp ts key \<in> D) (lf_remove evp ts fuel key tid)"
proof -
  have "lf_from \<sigma> ts D (\<lambda>r. r \<longrightarrow> key_item evp ts key \<in> D)
      (lf_remove_loop n evp ts fuel key h1 h2 p tid)" for n h1 h2 p
    by (induction n arbitrary: p)
      (auto simp: Let_def lf_retire_key_def fits_0 intro!: lf_from_bind [OF lf_from_find_at [OF assms]] lf_from_create)
  then show ?thesis by (simp add: lf_remove_def lf_clear_hazard_def Let_def)
qed

section \<open>Clients\<close>

text \<open>The answer \<open>r\<close> of the call \<open>c\<close> is justified by the items in \<open>D\<close>.\<close>

primrec justified :: "evp_digest \<Rightarrow> u32 \<Rightarrow> (bytes \<times> u32 set) set \<Rightarrow> filter_call \<Rightarrow> bool + nat \<Rightarrow> bool" where
  "justified evp ts D (InsertKey k) r = True"
| "justified evp ts D (FindKey k) r = (r = Inr 8 \<or> key_item evp ts k \<in> D)"
| "justified evp ts D (RemoveKey k) r = (r = Inl False \<or> key_item evp ts k \<in> D)"

lemma lf_from_client:
  assumes evp: "is_pow2 ts" "evp_md5_ok evp" and "\<And>k. InsertKey k \<in> set cs \<Longrightarrow> key_item evp ts k \<in> D"
  shows "lf_from \<sigma> ts D (list_all2 (justified evp ts D) cs) (lf_client evp ts fuel tid cs)"
  using assms(3)
proof (induction cs)
  case (Cons c cs)
  have "lf_from \<sigma> ts D (justified evp ts D c) (lf_op evp ts fuel tid c)"
    using Cons.prems
    by (cases c) (auto simp: NUM_ITEMS_PER_ENTRY_def intro!: lf_from_bind [OF lf_from_insert [OF evp(1)]]
        lf_from_bind [OF lf_from_find [OF evp]] lf_from_bind [OF lf_from_remove [OF evp]])
  then show ?case
    unfolding lf_client.simps
  proof (rule lf_from_bind)
    fix r assume r: "justified evp ts D c r"
    show "lf_from \<sigma> ts D (list_all2 (justified evp ts D) (c # cs))
        (lf_bind (lf_client evp ts fuel tid cs) (\<lambda>rs. LRet (r # rs)))"
      by (rule lf_from_bind [OF Cons.IH]) (use Cons.prems r in auto)
  qed
qed simp

section \<open>All interleavings\<close>

text \<open>As long as the heap has only strings of \<open>\<sigma>\<close>, every slot holds what belongs there.\<close>

definition slots_from :: "(u64 \<rightharpoonup> bytes) \<Rightarrow> u32 \<Rightarrow> (bytes \<times> u32 set) set \<Rightarrow> lf_filter \<Rightarrow> bool" where
  "slots_from \<sigma> ts D s \<longleftrightarrow> rect (unat ts) NUM_ITEMS_PER_ENTRY (lf_hash_table s) \<and>
     (lf_heap s \<subseteq>\<^sub>m \<sigma> \<longrightarrow> (\<forall>b < ts. \<forall>i < NUM_ITEMS_PER_ENTRY. slot_from \<sigma> ts D b (lf_at s b i)))"

lemma slots_from_table:
  "lf_hash_table s' = lf_hash_table s \<Longrightarrow> lf_heap s \<subseteq>\<^sub>m lf_heap s' \<Longrightarrow> slots_from \<sigma> ts D s \<Longrightarrow> slots_from \<sigma> ts D s'"
  by (auto simp: slots_from_def lf_at_def intro: map_le_trans)

lemma slots_from_put:
  assumes "slots_from \<sigma> ts D s" "b < ts" "i < NUM_ITEMS_PER_ENTRY" "lf_heap s \<subseteq>\<^sub>m \<sigma> \<longrightarrow> slot_from \<sigma> ts D b v"
  shows "slots_from \<sigma> ts D (lf_put b i v s)"
proof -
  have "lf_at (lf_put b i v s) b' i' = (if b' = b \<and> i' = i then v else lf_at s b' i')" for b' i'
    using cell_put_cell [of "unat ts" NUM_ITEMS_PER_ENTRY "lf_hash_table s" "unat b" i v "unat b'" i'] assms(1-3)
    by (simp add: slots_from_def lf_at_def lf_put_def word_less_nat_alt word_unat_eq_iff)
  with assms show ?thesis by (simp add: slots_from_def) (simp add: lf_put_def)
qed

lemma lf_from_act:
  assumes env: "env_ok env" and slots: "slots_from \<sigma> ts D s"
    and p: "lf_heap s \<subseteq>\<^sub>m \<sigma> \<longrightarrow> lf_from \<sigma> ts D Q p" and act: "lf_act env t p s = Some (p', s')"
  shows "slots_from \<sigma> ts D s' \<and> (lf_heap s' \<subseteq>\<^sub>m \<sigma> \<longrightarrow> lf_from \<sigma> ts D Q p') \<and> lf_heap s \<subseteq>\<^sub>m lf_heap s'"
proof -
  have do: "defined_action p s" "lf_do env p s = (p', s')"
    using act by (auto simp: lf_act_def split: if_splits)
  have less: "b < ts" "i < NUM_ITEMS_PER_ENTRY" if "in_table s b i" for b i
    using that slots by (auto simp: in_table_def slots_from_def rect_def word_less_nat_alt)
  show ?thesis
  proof (cases p)
    case (LLoad b i k)
    then show ?thesis using do p slots less [of b i] by (auto simp: slots_from_def)
  next
    case (LCas b i old new k)
    then show ?thesis
      using do p slots less [of b i] slots_from_put [OF slots, of b i new]
      by (auto simp: lf_put_def split: if_splits)
  next
    case (LDeref a k)
    then obtain str where "lf_heap s a = Some str" using do(1) by auto
    moreover from this have "lf_heap s \<subseteq>\<^sub>m \<sigma> \<Longrightarrow> \<sigma> a = Some str" by (auto simp: map_le_def dest!: bspec)
    ultimately show ?thesis using LDeref do(2) p slots by auto
  next
    case (LNew str k)
    show ?thesis
    proof (cases "env_alloc env (lf_heap s)")
      case None
      with LNew do slots show ?thesis by auto
    next
      case (Some a)
      with env_ok_alloc [OF env] have a: "fits a" "lf_heap s a = None" by auto
      have s': "s' = s\<lparr>lf_heap := (lf_heap s)(a \<mapsto> str)\<rparr>" "p' = k a" using do(2) LNew Some by auto
      have le: "lf_heap s \<subseteq>\<^sub>m lf_heap s'" using a(2) by (auto simp: s' map_le_def)
      have "\<sigma> a = Some str" if "lf_heap s' \<subseteq>\<^sub>m \<sigma>" using that by (auto simp: s' map_le_def dest!: bspec)
      then show ?thesis
        using slots_from_table [OF _ le slots] le p LNew a(1) map_le_trans [OF le] by (auto simp: s')
    qed
  qed (use do p slots_from_table [OF _ _ slots, of s'] in \<open>auto simp: mark_hazard_def push_retired_def\<close>)
qed

interpretation lf_answers: thread_logic "lf_act env" "\<lambda>s. env_ok env \<and> slots_from \<sigma> ts D s"
    "\<lambda>t s p. lf_heap s \<subseteq>\<^sub>m \<sigma> \<longrightarrow> lf_from \<sigma> ts D (Q t) p" "\<lambda>s s'. lf_heap s \<subseteq>\<^sub>m lf_heap s'"
    for env \<sigma> ts D Q
proof (unfold_locales, goal_cases)
  case (1 s)
  show ?case by simp
next
  case (2 s s' s'')
  then show ?case by (rule map_le_trans)
next
  case (3 s t p p' s')
  from lf_from_act [OF _ _ 3(2,3)] 3(1) show ?case by simp
next
  case (4 u s p s')
  with map_le_trans [OF 4(2)] show ?case by blast
qed

lemma lf_inv_slots_from:
  assumes "lf_inv ts n s" "set_mset (lf_items s) \<subseteq> D"
  shows "slots_from \<sigma> ts D s"
proof -
  have ts: "lf_table_size s = ts" using assms(1) by (simp add: lf_inv_def)
  have "slot_from \<sigma> ts D b (lf_at s b i)"
    if "b < ts" "i < NUM_ITEMS_PER_ENTRY" "lf_heap s \<subseteq>\<^sub>m \<sigma>" for b i
    unfolding slot_from_def
  proof
    let ?str = "lf_str s b i"
    assume "get_real_pointer (lf_at s b i) \<noteq> 0"
    note heap = lf_inv_entry [OF assms(1) that(1,2) this]
    have "(?str, home ts b ?str) \<in># lf_items s" if "?str \<noteq> []"
      unfolding lf_items_def items_def in_contents_iff ts
      by (intro exI [of _ b] exI [of _ i] conjI)
        (use that \<open>b < ts\<close> \<open>i < NUM_ITEMS_PER_ENTRY\<close> cell_lf_view [OF assms(1)] in simp_all)
    with assms(2) heap that(3)
    show "\<exists>str. \<sigma> (get_real_pointer (lf_at s b i)) = Some str \<and> (str \<noteq> [] \<longrightarrow> (str, home ts b str) \<in> D)"
      by (intro exI [of _ ?str]) (auto simp: map_le_def dest!: bspec)
  qed
  with assms(1) show ?thesis by (simp add: slots_from_def lf_inv_def)
qed

section \<open>Properties\<close>

text \<open>
  C28. Answers have a cause, under every interleaving of any calls on a table of power-of-two size
  (evictions, marked slots and all races included): when \<open>find\<close> gives a location or \<open>remove\<close>
  gives true, the item of the key (its fingerprint with its two buckets) was in the table at the
  start or is that of a key which some thread inserts. A live entry that is no longer in the
  table justifies nothing, and a false positive is a collision of fingerprint and buckets.
\<close>

theorem lf_answers_justified:
  assumes "env_ok env" "evp_md5_ok evp" "is_pow2 ts" "lf_inv ts n s"
    and "thread_reach (lf_act env) (lf_start evp fuel s css) (s', ps)"
    and "t < length css" "ps ! t = LRet rs"
  shows "list_all2 (justified evp ts (set_mset (lf_items s) \<union>
    {key_item evp ts k | k. \<exists>cs \<in> set css. InsertKey k \<in> set cs})) (css ! t) rs"
proof -
  let ?D = "set_mset (lf_items s) \<union> {key_item evp ts k | k. \<exists>cs \<in> set css. InsertKey k \<in> set cs}"
  let ?Q = "\<lambda>t. list_all2 (justified evp ts ?D) (css ! t)"
  have "slots_from (lf_heap s') ts ?D s" by (rule lf_inv_slots_from [OF assms(4)]) simp
  moreover have "lf_from (lf_heap s') ts ?D (?Q t) (lf_client evp ts fuel t (css ! t))" if "t < length css" for t
    by (rule lf_from_client [OF assms(3,2)]) (use nth_mem [OF that] in auto)
  moreover have "lf_table_size s = ts" using assms(4) by (simp add: lf_inv_def)
  ultimately have "lf_answers.conf_ok env (lf_heap s') ts ?D ?Q (lf_start evp fuel s css)"
    using assms(1) unfolding lf_answers.conf_ok_def lf_start_def by simp
  from lf_answers.reach_ok [OF assms(5) this, of t] thread_reach_length [OF assms(5)] assms(6,7)
  show ?thesis by (simp add: lf_start_def)
qed

lemma lf_answers_justified_witness:
  "\<exists>s ps rs. thread_reach (lf_act demo_env) (lf_start pad_evp 3 lf_demo
      [map InsertKey [[8], [4], [9], [13]] @ [InsertKey [3]],
       [RemoveKey [8], InsertKey [0], FindKey [0]]]) (s, ps) \<and> ps ! 1 = LRet rs \<and>
    list_all2 (justified pad_evp 2 (key_item pad_evp 2 ` {[8], [4], [9], [13], [3], [0]}))
       [RemoveKey [8], InsertKey [0], FindKey [0]] rs"
proof -
  obtain s ps where run: "thread_exec (lf_act demo_env)
     (replicate 21 0 @ replicate 14 1 @ replicate 11 0 @ replicate 32 1)
     (lf_full, [four_true (lf_client pad_evp 2 (Suc (Suc (Suc 0))) 0 [InsertKey [3]]),
        lf_client pad_evp 2 (Suc (Suc (Suc 0))) 1 [RemoveKey [8], InsertKey [0], FindKey [0]]]) =
       Some (s, ps)" and ps: "ps ! 1 = LRet [Inl True, Inl True, Inr 8]"
    using lf_full_lost by blast
  note reach = lf_reach_filled [OF run]
  have "set_mset (lf_items lf_demo) \<union> {key_item pad_evp 2 k | k.
      \<exists>cs \<in> set [map InsertKey [[8], [4], [9], [13]] @ [InsertKey [3]],
        [RemoveKey [8], InsertKey [0], FindKey [0]]]. InsertKey k \<in> set cs} =
      key_item pad_evp 2 ` {[8], [4], [9], [13], [3], [0]}"
    using lf_demo_ready(2) by auto
  with lf_answers_justified [OF demo_env_ok pad_evp_ok is_pow2_2 lf_demo_inv reach _ ps]
  have "list_all2 (justified pad_evp 2 (key_item pad_evp 2 ` {[8], [4], [9], [13], [3], [0]}))
      [RemoveKey [8], InsertKey [0], FindKey [0]] [Inl True, Inl True, Inr 8]"
    by simp
  with reach ps show ?thesis unfolding numeral_3_eq_3 by blast
qed

end
