(* ===== verification/Lock_Free_Phases.thy ===== *)
theory Lock_Free_Phases
  imports Lock_Free_Races
begin

text \<open>
  The phases in which \<open>test/test_lock_free.cpp\<close> uses the lock-free filter after its insertions:
  any number of threads call \<open>find\<close> and \<open>remove\<close>, none calls \<open>insert\<close>. Then no slot is ever
  marked, slots only change from an entry to empty, and everything the filter promises holds
  under every interleaving: the calls are wait-free, \<open>find\<close> is exact for keys nobody removes,
  every entry is retired at most once and only after it left the table.
\<close>

section \<open>How the state changes in such a phase\<close>

text \<open>
  \<open>X\<close> holds the items that may be removed. Hazard and retired pointers may change freely, a slot
  may be emptied with its counter kept.
\<close>

definition gone :: "(bytes \<times> u32 set) set \<Rightarrow> u32 \<Rightarrow> lf_filter \<Rightarrow> lf_filter \<Rightarrow> u32 \<Rightarrow> nat \<Rightarrow> bool" where
  "gone X ts s s' b i \<longleftrightarrow> get_real_pointer (lf_at s b i) \<noteq> 0 \<and>
     (lf_str s b i, home ts b (lf_str s b i)) \<in> X \<and>
     get_real_pointer (lf_at s' b i) = 0 \<and> get_counter (lf_at s' b i) = get_counter (lf_at s b i)"

definition fades :: "(bytes \<times> u32 set) set \<Rightarrow> u32 \<Rightarrow> nat \<Rightarrow> lf_filter \<Rightarrow> lf_filter \<Rightarrow> bool" where
  "fades X ts n s s' \<longleftrightarrow> (lf_quiet ts n s \<longrightarrow> lf_quiet ts n s') \<and> lf_heap s' = lf_heap s \<and>
     (\<forall>b < ts. \<forall>i < NUM_ITEMS_PER_ENTRY. lf_at s' b i = lf_at s b i \<or> gone X ts s s' b i)"

lemma fades_refl [simp]: "fades X ts n s s"
  by (simp add: fades_def)

lemma fades_str: "lf_heap s' = lf_heap s \<Longrightarrow> lf_at s' b i = lf_at s b i \<Longrightarrow> lf_str s' b i = lf_str s b i"
  by (simp add: lf_str_def)

lemma fades_trans: "fades X ts n s s' \<Longrightarrow> fades X ts n s' s'' \<Longrightarrow> fades X ts n s s''"
  unfolding fades_def gone_def by (metis fades_str)

lemma fades_quiet: "fades X ts n s s' \<Longrightarrow> lf_quiet ts n s \<Longrightarrow> lf_quiet ts n s'"
  by (simp add: fades_def)

lemma fades_haz: "haz n s s' \<Longrightarrow> fades X ts n s s'"
  by (simp add: fades_def hazD haz_quiet)

lemma fades_retired: "t < n \<Longrightarrow> fades X ts n s (push_retired t a s)"
  by (simp add: fades_def lf_quiet_retired)

lemma fades_slot:
  "fades X ts n s s' \<Longrightarrow> b < ts \<Longrightarrow> i < NUM_ITEMS_PER_ENTRY \<Longrightarrow>
     lf_at s' b i = lf_at s b i \<or> gone X ts s s' b i"
  by (simp add: fades_def)

lemma fades_counter:
  "fades X ts n s s' \<Longrightarrow> b < ts \<Longrightarrow> i < NUM_ITEMS_PER_ENTRY \<Longrightarrow>
     get_counter (lf_at s' b i) = get_counter (lf_at s b i)"
  using fades_slot [of X ts n s s' b i] by (auto simp: gone_def)

text \<open>An entry read later was there before; a fingerprint missing once stays away.\<close>

lemma fades_entry:
  assumes "fades X ts n s s'" "b < ts" "i < NUM_ITEMS_PER_ENTRY" "get_real_pointer (lf_at s' b i) \<noteq> 0"
  shows "lf_at s' b i = lf_at s b i" "lf_str s' b i = lf_str s b i"
proof -
  show "lf_at s' b i = lf_at s b i" using fades_slot [OF assms(1-3)] assms(4) by (auto simp: gone_def)
  then show "lf_str s' b i = lf_str s b i" by (rule fades_str [rotated]) (use assms(1) in \<open>simp add: fades_def\<close>)
qed

lemma fades_absent:
  assumes "fades X ts n s s'" "b < ts" "i < NUM_ITEMS_PER_ENTRY" "fp \<noteq> []" "lf_str s b i \<noteq> fp"
  shows "lf_str s' b i \<noteq> fp"
proof (cases "get_real_pointer (lf_at s' b i) = 0")
  case True
  then show ?thesis using assms(4) by (simp add: lf_str_def entry_str_def)
next
  case False
  then show ?thesis using fades_entry(2) [OF assms(1-3)] assms(5) by simp
qed

lemma fades_stays:
  assumes "fades X ts n s s'" "b < ts" "i < NUM_ITEMS_PER_ENTRY"
    and "(lf_str s b i, home ts b (lf_str s b i)) \<notin> X"
  shows "lf_at s' b i = lf_at s b i"
  using fades_slot [OF assms(1-3)] assms(4) by (auto simp: gone_def)

section \<open>Programs in such a phase\<close>

text \<open>The stock of entries: those in the table and those retired. Between its compare-and-swap
  and the retirement, a thread holds the entry it has taken.\<close>

definition entries :: "lf_filter \<Rightarrow> u64 multiset" where
  "entries s = filter_mset (\<lambda>a. a \<noteq> 0) (mset (slot_pointers s)) + mset (concat (lf_retired_ptrs s))"

fun in_hand :: "'a lf_prog \<Rightarrow> u64 multiset" where
  "in_hand (LRetire t a p) = {#a#}"
| "in_hand p = {#}"

text \<open>
  \<open>lf_rg X ts N Q p n s\<close>: started in \<open>s\<close>, with \<open>N\<close> threads and others that only let items of \<open>X\<close> fade,
  \<open>p\<close> makes at most \<open>n\<close> actions, all of them defined and letting only items of \<open>X\<close> fade, retires
  exactly the entries it takes out, and returns with a result satisfying \<open>Q\<close>.
\<close>

primrec lf_rg ::
  "(bytes \<times> u32 set) set \<Rightarrow> u32 \<Rightarrow> nat \<Rightarrow> ('a \<Rightarrow> lf_filter \<Rightarrow> bool) \<Rightarrow> 'a lf_prog \<Rightarrow> nat \<Rightarrow> lf_filter \<Rightarrow> bool" where
  "lf_rg X ts N Q (LRet a) n s = (\<forall>s'. fades X ts N s s' \<longrightarrow> Q a s')"
| "lf_rg X ts N Q LAbort n s = False"
| "lf_rg X ts N Q LFault n s = False"
| "lf_rg X ts N Q LOut n s = False"
| "lf_rg X ts N Q (LLoad b i k) n s = (0 < n \<and> (\<forall>s'. fades X ts N s s' \<longrightarrow> in_table s' b i \<and>
     in_hand (k (lf_at s' b i)) = {#} \<and> lf_rg X ts N Q (k (lf_at s' b i)) (n - 1) s'))"
| "lf_rg X ts N Q (LCas b i old new k) n s = (0 < n \<and> (\<forall>s'. fades X ts N s s' \<longrightarrow> in_table s' b i \<and>
     (if lf_at s' b i = old
      then fades X ts N s' (lf_put b i new s') \<and>
        get_real_pointer old \<noteq> 0 \<and> get_real_pointer new = 0 \<and>
        in_hand (k True) = {#get_real_pointer old#} \<and> lf_rg X ts N Q (k True) (n - 1) (lf_put b i new s')
      else in_hand (k False) = {#} \<and> lf_rg X ts N Q (k False) (n - 1) s')))"
| "lf_rg X ts N Q (LDeref a k) n s = (0 < n \<and> (\<forall>s'. fades X ts N s s' \<longrightarrow> (\<exists>str. lf_heap s' a = Some str \<and>
     in_hand (k str) = {#} \<and> lf_rg X ts N Q (k str) (n - 1) s')))"
| "lf_rg X ts N Q (LNew str k) n s = False"
| "lf_rg X ts N Q (LHazard t j a p) n s = (0 < n \<and> t < N \<and> j < MAX_HAZARD_POINTER_COUNT \<and>
     in_hand p = {#} \<and> (\<forall>s'. fades X ts N s s' \<longrightarrow> lf_rg X ts N Q p (n - 1) (mark_hazard a j t s')))"
| "lf_rg X ts N Q (LRetire t a p) n s = (0 < n \<and> t < N \<and>
     in_hand p = {#} \<and> (\<forall>s'. fades X ts N s s' \<longrightarrow> lf_rg X ts N Q p (n - 1) (push_retired t a s')))"
| "lf_rg X ts N Q (LShuffle k) n s = False"

lemma lf_rg_stable: "lf_rg X ts N Q p n s \<Longrightarrow> fades X ts N s s' \<Longrightarrow> lf_rg X ts N Q p n s'"
  by (cases p) (auto intro: fades_trans)

lemma lf_rg_mono: "lf_rg X ts N Q p n s \<Longrightarrow> n \<le> m \<Longrightarrow> lf_rg X ts N Q p m s"
proof (induction p arbitrary: n m s)
  case (LCas b i old new k)
  have "lf_rg X ts N Q (k v) (m - 1) t" if "lf_rg X ts N Q (k v) (n - 1) t" for v t
    by (rule LCas.IH [OF _ that]) (use LCas.prems(2) in auto)
  with LCas.prems show ?case by auto
next
  case (LDeref a k)
  have "lf_rg X ts N Q (k v) (m - 1) t" if "lf_rg X ts N Q (k v) (n - 1) t" for v t
    by (rule LDeref.IH [OF _ that]) (use LDeref.prems(2) in auto)
  with LDeref.prems show ?case by (auto dest!: spec)
qed (auto dest: diff_le_mono)

lemma lf_rg_bind:
  assumes "lf_rg X ts N R p n s"
    and "\<And>a s'. fades X ts N s s' \<Longrightarrow> R a s' \<Longrightarrow> in_hand (f a) = {#} \<and> lf_rg X ts N Q (f a) m s'"
  shows "in_hand (lf_bind p f) = in_hand p \<and> lf_rg X ts N Q (lf_bind p f) (n + m) s"
  using assms
proof (induction p arbitrary: n s)
  case (LRet a)
  have "R a s" using LRet.prems(1) by simp
  then have "in_hand (f a) = {#} \<and> lf_rg X ts N Q (f a) m s" by (rule LRet.prems(2) [OF fades_refl])
  then show ?case using lf_rg_mono [of X ts N Q "f a" m s "n + m"] by simp
next
  case (LLoad b i k)
  have "in_hand (lf_bind (k v) f) = in_hand (k v) \<and> lf_rg X ts N Q (lf_bind (k v) f) (n - 1 + m) s'"
    if "fades X ts N s s'" "lf_rg X ts N R (k v) (n - 1) s'" for v s'
    by (rule LLoad.IH [OF _ that(2) LLoad.prems(2)]) (use fades_trans [OF that(1)] in auto)
  with LLoad.prems(1) show ?case by simp
next
  case (LCas b i old new k)
  have IH: "in_hand (lf_bind (k v) f) = in_hand (k v) \<and> lf_rg X ts N Q (lf_bind (k v) f) (n - 1 + m) s'"
    if "fades X ts N s s'" "lf_rg X ts N R (k v) (n - 1) s'" for v s'
    by (rule LCas.IH [OF _ that(2) LCas.prems(2)]) (use fades_trans [OF that(1)] in auto)
  have step: "in_table s' b i \<and> (if lf_at s' b i = old
      then fades X ts N s' (lf_put b i new s') \<and> get_real_pointer old \<noteq> 0 \<and> get_real_pointer new = 0 \<and>
        in_hand (lf_bind (k True) f) = {#get_real_pointer old#} \<and>
        lf_rg X ts N Q (lf_bind (k True) f) (n - 1 + m) (lf_put b i new s')
      else in_hand (lf_bind (k False) f) = {#} \<and> lf_rg X ts N Q (lf_bind (k False) f) (n - 1 + m) s')"
    if s': "fades X ts N s s'" for s'
  proof -
    have act: "in_table s' b i \<and> (if lf_at s' b i = old
      then fades X ts N s' (lf_put b i new s') \<and> get_real_pointer old \<noteq> 0 \<and> get_real_pointer new = 0 \<and>
        in_hand (k True) = {#get_real_pointer old#} \<and> lf_rg X ts N R (k True) (n - 1) (lf_put b i new s')
      else in_hand (k False) = {#} \<and> lf_rg X ts N R (k False) (n - 1) s')"
      by (rule LCas.prems(1) [unfolded lf_rg.simps, THEN conjunct2, THEN spec, THEN mp, OF s'])
    then show ?thesis
      using IH [OF s', of False] IH [OF fades_trans [OF s'], of "lf_put b i new s'" True]
      by (cases "lf_at s' b i = old") simp_all
  qed
  have "0 < n" using LCas.prems(1) by simp
  then have pos: "0 < n + m" and eq: "n - 1 + m = n + m - 1" by simp_all
  show ?case
    unfolding lf_rg.simps lf_bind.simps in_hand.simps
    using pos step [unfolded eq] by (intro conjI [OF refl] conjI [OF pos] allI impI)
next
  case (LDeref a k)
  have "in_hand (lf_bind (k v) f) = in_hand (k v) \<and> lf_rg X ts N Q (lf_bind (k v) f) (n - 1 + m) s'"
    if "fades X ts N s s'" "lf_rg X ts N R (k v) (n - 1) s'" for v s'
    by (rule LDeref.IH [OF _ that(2) LDeref.prems(2)]) (use fades_trans [OF that(1)] in auto)
  with LDeref.prems(1) show ?case by (auto dest!: spec)
next
  case (LHazard t j a p)
  have "in_hand (lf_bind p f) = in_hand p \<and> lf_rg X ts N Q (lf_bind p f) (n - 1 + m) s'"
    if "fades X ts N s s'" "lf_rg X ts N R p (n - 1) s'" for s'
    by (rule LHazard.IH [OF that(2) LHazard.prems(2)]) (use fades_trans [OF that(1)] in auto)
  moreover have "fades X ts N s (mark_hazard a j t s')" if "fades X ts N s s'" for s'
    using that fades_haz [OF haz_mark [OF haz_refl]] by (rule fades_trans)
  moreover have "\<exists>s'. fades X ts N s s'" by (rule exI [of _ s]) simp
  ultimately show ?case using LHazard.prems(1) by simp blast
next
  case (LRetire t a p)
  have "in_hand (lf_bind p f) = in_hand p \<and> lf_rg X ts N Q (lf_bind p f) (n - 1 + m) s'"
    if "fades X ts N s s'" "lf_rg X ts N R p (n - 1) s'" for s'
    by (rule LRetire.IH [OF that(2) LRetire.prems(2)]) (use fades_trans [OF that(1)] in auto)
  moreover have "fades X ts N s (push_retired t a s')" if "fades X ts N s s'" "t < N" for s'
    using that(1) fades_retired [OF that(2)] by (rule fades_trans)
  moreover have "\<exists>s'. fades X ts N s s'" by (rule exI [of _ s]) simp
  ultimately show ?case using LRetire.prems(1) by simp blast
qed auto

lemma lf_bind_LRet [simp]: "lf_bind p LRet = p"
  by (induction p) auto

lemma lf_rg_weaken:
  assumes "lf_rg X ts N Q p n s" "n \<le> m" "\<And>a s'. fades X ts N s s' \<Longrightarrow> Q a s' \<Longrightarrow> Q' a s'"
    and "\<And>a s' s''. fades X ts N s s' \<Longrightarrow> Q' a s' \<Longrightarrow> fades X ts N s' s'' \<Longrightarrow> Q' a s''"
  shows "lf_rg X ts N Q' p m s"
proof -
  have "lf_rg X ts N Q' (lf_bind p LRet) (n + 0) s"
  proof (rule lf_rg_bind [OF assms(1), THEN conjunct2])
    fix a s' assume f: "fades X ts N s s'" and "Q a s'"
    then have "Q' a s'" by (rule assms(3))
    then have "Q' a s''" if "fades X ts N s' s''" for s'' by (rule assms(4) [OF f _ that])
    then show "in_hand (LRet a) = {#} \<and> lf_rg X ts N Q' (LRet a) 0 s'" by simp
  qed
  with assms(2) show ?thesis by (auto intro: lf_rg_mono)
qed

text \<open>One rule per action; the next state is again without marks.\<close>

lemma lf_rg_load:
  assumes "lf_quiet ts N s" "b < ts" "i < NUM_ITEMS_PER_ENTRY"
    and "\<And>s'. fades X ts N s s' \<Longrightarrow> lf_quiet ts N s' \<Longrightarrow>
      in_hand (k (lf_at s' b i)) = {#} \<and> lf_rg X ts N Q (k (lf_at s' b i)) n s'"
  shows "lf_rg X ts N Q (LLoad b i k) (Suc n) s"
  using assms(4) fades_quiet [OF _ assms(1)] lf_quiet_slot(1) [OF _ assms(2,3)] by simp blast

lemma lf_rg_hazard:
  assumes "lf_quiet ts N s" "tid < N" "j < MAX_HAZARD_POINTER_COUNT" "in_hand p = {#}"
    and "\<And>s'. fades X ts N s s' \<Longrightarrow> lf_quiet ts N s' \<Longrightarrow> lf_rg X ts N Q p n s'"
  shows "lf_rg X ts N Q (LHazard tid j a p) (Suc n) s"
proof -
  have "lf_rg X ts N Q p n (mark_hazard a j tid s')" if "fades X ts N s s'" for s'
    using fades_trans [OF that fades_haz [OF haz_mark [OF haz_refl]]]
    by (rule assms(5)) (rule fades_quiet [OF fades_trans [OF that fades_haz [OF haz_mark [OF haz_refl]]] assms(1)])
  with assms(2-4) show ?thesis by simp
qed

lemma lf_rg_clear:
  assumes "lf_quiet ts N s" "tid < N" "in_hand p = {#}"
    and "\<And>s'. fades X ts N s s' \<Longrightarrow> lf_quiet ts N s' \<Longrightarrow> lf_rg X ts N Q p n s'"
  shows "lf_rg X ts N Q (lf_clear_hazard tid p) (Suc (Suc n)) s"
  unfolding lf_clear_hazard_def
  by (intro lf_rg_hazard assms(1-3)) (auto simp: assms(3) MAX_HAZARD_POINTER_COUNT_def
      intro!: assms(4) elim: fades_trans)

lemma lf_rg_deref:
  assumes "lf_quiet ts N s" "lf_heap s a = Some str" "in_hand (k str) = {#}"
    and "\<And>s'. fades X ts N s s' \<Longrightarrow> lf_quiet ts N s' \<Longrightarrow> lf_rg X ts N Q (k str) n s'"
  shows "lf_rg X ts N Q (LDeref a k) (Suc n) s"
  using assms(2-4) fades_quiet [OF _ assms(1)] by (auto simp: fades_def)

declare lf_rg.simps(2-11) [simp del]

section \<open>\<open>find\<close>\<close>

text \<open>
  The answer of one round on slot \<open>i\<close> started in \<open>s\<close>: a hit is an entry of \<open>s\<close>; a miss means that
  the fingerprint is in neither slot any more.
\<close>

definition slot_answer ::
  "lf_filter \<Rightarrow> u32 \<Rightarrow> u32 \<Rightarrow> bytes \<Rightarrow> nat \<Rightarrow> (nat \<times> table_pointer) option \<Rightarrow> lf_filter \<Rightarrow> bool" where
  "slot_answer s b1 b2 fp i r s' =
     (case r of None \<Rightarrow> lf_str s' b1 i \<noteq> fp \<and> lf_str s' b2 i \<noteq> fp
      | Some (l, p) \<Rightarrow> (l = i \<and> p = lf_at s b1 i \<and> lf_str s b1 i = fp) \<or>
          (l = i + NUM_ITEMS_PER_ENTRY \<and> p = lf_at s b2 i \<and> lf_str s b2 i = fp))"

lemma lf_rg_recheck:
  assumes q: "lf_quiet ts N s" and b: "b1 < ts" "b2 < ts" "i < NUM_ITEMS_PER_ENTRY" and "fp \<noteq> []"
    and "lf_str s b1 i \<noteq> fp" "lf_str s b2 i \<noteq> fp"
    and "c1 = get_counter (lf_at s b1 i)" "c2 = get_counter (lf_at s b2 i)"
  shows "lf_rg X ts N (slot_answer s0 b1 b2 fp i)
    (LLoad b1 i (\<lambda>p1. LLoad b2 i (\<lambda>p2.
      let ts1x = ucast (get_counter p1); ts2x = ucast (get_counter p2)
      in if check_counter (ucast c1) (ucast c2) ts1x ts2x then again else LRet None))) 2 s"
  unfolding numeral_2_eq_2
proof (intro lf_rg_load [OF q b(1,3)] conjI)
  fix s1 assume s1: "fades X ts N s s1" "lf_quiet ts N s1"
  show "lf_rg X ts N (slot_answer s0 b1 b2 fp i) (LLoad b2 i (\<lambda>p2.
      let ts1x = ucast (get_counter (lf_at s1 b1 i)); ts2x = ucast (get_counter p2)
      in if check_counter (ucast c1) (ucast c2) ts1x ts2x then again else LRet None)) (Suc 0) s1"
  proof (intro lf_rg_load [OF s1(2) b(2,3)])
    fix s2 assume s2: "fades X ts N s1 s2"
    have c: "get_counter (lf_at s1 b1 i) = c1" "get_counter (lf_at s2 b2 i) = c2"
      using fades_counter [OF s1(1) b(1,3)] fades_counter [OF fades_trans [OF s1(1) s2] b(2,3)] assms(8,9)
      by simp_all
    have "slot_answer s0 b1 b2 fp i None s3" if "fades X ts N s2 s3" for s3
      using fades_absent [OF fades_trans [OF fades_trans [OF s1(1) s2] that] _ b(3) assms(5)] b assms(6,7)
      by (simp add: slot_answer_def)
    then show "in_hand (let ts1x = ucast (get_counter (lf_at s1 b1 i)); ts2x = ucast (get_counter (lf_at s2 b2 i))
        in if check_counter (ucast c1) (ucast c2) ts1x ts2x then again else LRet None) = {#} \<and>
      lf_rg X ts N (slot_answer s0 b1 b2 fp i)
       (let ts1x = ucast (get_counter (lf_at s1 b1 i)); ts2x = ucast (get_counter (lf_at s2 b2 i))
        in if check_counter (ucast c1) (ucast c2) ts1x ts2x then again else LRet None) 0 s2"
      by (simp add: c Let_def)
  qed
qed simp

text \<open>
  What both halves of a round do with the slot they have loaded: announce the entry, follow the
  pointer, and go on in \<open>next_step\<close> when the string is another one.
\<close>

lemma lf_rg_look:
  assumes q: "lf_quiet ts N s" and b: "b < ts" "i < NUM_ITEMS_PER_ENTRY"
    and t: "tid < N" "j < MAX_HAZARD_POINTER_COUNT" and fp: "fp \<noteq> []" and p: "p = lf_at s b i"
    and hit: "\<And>s'. fades X ts N s s' \<Longrightarrow> lf_str s b i = fp \<Longrightarrow> Q r s'"
    and miss: "in_hand next_step = {#}"
      "\<And>s'. fades X ts N s s' \<Longrightarrow> lf_str s b i \<noteq> fp \<Longrightarrow> lf_rg X ts N Q next_step n s'"
  shows "lf_rg X ts N Q (LHazard tid j (get_real_pointer p)
    (if get_real_pointer p \<noteq> 0 then
       if get_marked p then helped
       else LDeref (get_real_pointer p) (\<lambda>str. if fp = str then LRet r else next_step)
     else next_step)) (Suc (Suc n)) s"
proof (rule lf_rg_hazard [OF q t], goal_cases)
  case 1
  then show ?case using miss(1) lf_quiet_slot(2) [OF q b] p by simp
next
  case (2 s1)
  note slot = lf_quiet_slot [OF q b, folded p]
  show ?case
  proof (cases "get_real_pointer p = 0")
    case True
    then show ?thesis
      using lf_rg_mono [OF miss(2) [OF 2(1)], of "Suc n"] slot(3) fp by simp
  next
    case False
    have heap: "lf_heap s1 (get_real_pointer p) = Some (lf_str s b i)"
      using slot(4) [OF False] 2(1) by (simp add: fades_def)
    show ?thesis
      unfolding if_P [OF False] if_not_P [OF slot(2)]
      by (rule lf_rg_deref [OF 2(2) heap])
        (use miss hit [OF fades_trans [OF 2(1) fades_trans]] fades_trans [OF 2(1)] in auto)
  qed
qed

text \<open>The part of a round that looks at the second bucket.\<close>

lemma lf_rg_second:
  assumes q: "lf_quiet ts N s" and b: "b1 < ts" "b2 < ts" "i < NUM_ITEMS_PER_ENTRY"
    and "tid < N" "fp \<noteq> []" "lf_str s b1 i \<noteq> fp" "c1 = get_counter (lf_at s b1 i)" "fades X ts N s0 s"
  shows "lf_rg X ts N (slot_answer s0 b1 b2 fp i)
    (LLoad b2 i (\<lambda>ptr2.
       LHazard tid 1 (get_real_pointer ptr2)
         (if get_real_pointer ptr2 \<noteq> 0 then
            if get_marked ptr2 then helped
            else LDeref (get_real_pointer ptr2) (\<lambda>str.
              if fp = str then LRet (Some (i + NUM_ITEMS_PER_ENTRY, ptr2))
              else LLoad b1 i (\<lambda>p1. LLoad b2 i (\<lambda>p2.
                if check_counter (ucast c1) (ucast (get_counter ptr2)) (ucast (get_counter p1))
                  (ucast (get_counter p2)) then again else LRet None)))
          else LLoad b1 i (\<lambda>p1. LLoad b2 i (\<lambda>p2.
                if check_counter (ucast c1) (ucast (get_counter ptr2)) (ucast (get_counter p1))
                  (ucast (get_counter p2)) then again else LRet None))))) 5 s"
  unfolding numeral_eq_Suc pred_numeral_simps BitM.simps
proof (intro lf_rg_load [OF q b(2,3)] conjI, goal_cases)
  case (2 s1)
  have c1: "c1 = get_counter (lf_at s1 b1 i)" using fades_counter [OF 2(1) b(1,3)] assms(8) by simp
  have absent: "lf_str s1 b1 i \<noteq> fp" by (rule fades_absent [OF 2(1) b(1,3) assms(6,7)])
  show ?case
  proof (rule lf_rg_look [OF 2(2) b(2,3) assms(5) _ assms(6) refl], goal_cases)
    case (2 s2)
    then show ?case
      using fades_entry [OF fades_trans [OF assms(9) \<open>fades X ts N s s1\<close>] b(2,3)]
        lf_quiet_slot(3) [OF \<open>lf_quiet ts N s1\<close> b(2,3)] assms(6)
      by (auto simp: slot_answer_def)
  next
    case (4 s2)
    then show ?case
      using fades_quiet [OF 4(1) \<open>lf_quiet ts N s1\<close>] fades_absent [OF 4(1) _ b(3) assms(6)]
        fades_counter [OF 4(1) _ b(3)] absent c1 b
      unfolding numeral_2_eq_2 [symmetric]
      by (intro lf_rg_recheck [unfolded Let_def] assms(6)) simp_all
  qed (simp_all add: MAX_HAZARD_POINTER_COUNT_def)
qed simp

lemma lf_rg_find_slot:
  assumes q: "lf_quiet ts N s" and b: "b1 < ts" "b2 < ts" "i < NUM_ITEMS_PER_ENTRY"
    and "tid < N" "fp \<noteq> []"
  shows "lf_rg X ts N (slot_answer s b1 b2 fp i) (lf_find_slot (Suc m) fuel ts b1 b2 fp tid i) 8 s"
  unfolding lf_find_slot.simps(2) Let_def numeral_eq_Suc pred_numeral_simps BitM.simps
proof (intro lf_rg_load [OF q b(1,3)] conjI, goal_cases)
  case (2 s1)
  show ?case
  proof (rule lf_rg_look [OF 2(2) b(1,3) assms(5) _ assms(6) refl], goal_cases)
    case (2 s2)
    then show ?case
      using fades_entry [OF \<open>fades X ts N s s1\<close> b(1,3)]
        lf_quiet_slot(3) [OF \<open>lf_quiet ts N s1\<close> b(1,3)] assms(6)
      by (auto simp: slot_answer_def)
  next
    case (4 s2)
    show ?case
      using lf_rg_second [OF fades_quiet [OF 4(1) \<open>lf_quiet ts N s1\<close>] b assms(5,6)
          fades_absent [OF 4(1) b(1,3) assms(6) 4(2)] _ fades_trans [OF \<open>fades X ts N s s1\<close> 4(1)],
          of "get_counter (lf_at s1 b1 i)"] fades_counter [OF 4(1) b(1,3)]
      by (simp add: numeral_eq_Suc)
  qed (simp_all add: MAX_HAZARD_POINTER_COUNT_def)
qed simp

lemma in_hand_find_slot [simp]: "in_hand (lf_find_slot m fuel ts b1 b2 fp tid i) = {#}"
  by (cases m) simp_all

lemma in_hand_find_slots [simp]: "in_hand (lf_find_slots is fuel ts b1 b2 fp ptr tid) = {#}"
proof (cases "is")
  case (Cons i js)
  then show ?thesis by (cases fuel) simp_all
qed simp

text \<open>The answer of the scan: a location with the entry of \<open>s\<close> found there, or 8 and no entry left.\<close>

definition scan_answer ::
  "lf_filter \<Rightarrow> u32 \<Rightarrow> u32 \<Rightarrow> bytes \<Rightarrow> nat list \<Rightarrow> nat \<times> table_pointer \<Rightarrow> lf_filter \<Rightarrow> bool" where
  "scan_answer s b1 b2 fp is r s' =
     (if fst r = NUM_ITEMS_PER_ENTRY * 2 then \<forall>i \<in> set is. lf_str s' b1 i \<noteq> fp \<and> lf_str s' b2 i \<noteq> fp
      else \<exists>i \<in> set is. slot_answer s b1 b2 fp i (Some r) s')"

lemma scan_answer_stable:
  assumes "scan_answer s b1 b2 fp is r s'" "fades X ts N s' s''" "b1 < ts" "b2 < ts" "fp \<noteq> []"
    and "set is \<subseteq> {..<NUM_ITEMS_PER_ENTRY}"
  shows "scan_answer s b1 b2 fp is r s''"
proof (cases "fst r = NUM_ITEMS_PER_ENTRY * 2")
  case True
  have "lf_str s'' b1 i \<noteq> fp \<and> lf_str s'' b2 i \<noteq> fp" if "i \<in> set is" for i
    using that True assms(1,6) fades_absent [OF assms(2,3) _ assms(5), of i]
      fades_absent [OF assms(2,4) _ assms(5), of i]
    by (auto simp: scan_answer_def)
  with True show ?thesis by (simp add: scan_answer_def)
next
  case False
  with assms(1) show ?thesis by (simp add: scan_answer_def slot_answer_def)
qed

text \<open>A hit on an entry of a later state is a hit on the same entry of the state before.\<close>

lemma slot_answer_back:
  assumes "slot_answer s' b1 b2 fp i (Some r) t" "fades X ts N s s'" "lf_quiet ts N s'"
    and "b1 < ts" "b2 < ts" "i < NUM_ITEMS_PER_ENTRY" "fp \<noteq> []"
  shows "slot_answer s b1 b2 fp i (Some r) t"
  using assms(1,7) fades_entry [OF assms(2,4,6)] fades_entry [OF assms(2,5,6)]
    lf_quiet_slot(3) [OF assms(3,4,6)] lf_quiet_slot(3) [OF assms(3,5,6)]
  by (auto simp: slot_answer_def split: prod.splits)

lemma scan_answer_back:
  assumes "scan_answer s' b1 b2 fp is r t" "fades X ts N s s'" "lf_quiet ts N s'"
    and "b1 < ts" "b2 < ts" "set is \<subseteq> {..<NUM_ITEMS_PER_ENTRY}" "fp \<noteq> []"
  shows "scan_answer s b1 b2 fp is r t"
proof (cases "fst r = NUM_ITEMS_PER_ENTRY * 2")
  case False
  with assms(1) obtain i where "i \<in> set is" "slot_answer s' b1 b2 fp i (Some r) t"
    by (auto simp: scan_answer_def)
  with False slot_answer_back [OF this(2) assms(2-5) _ assms(7)] assms(6) show ?thesis
    by (auto simp: scan_answer_def)
qed (use assms(1) in \<open>simp add: scan_answer_def\<close>)

lemma lf_rg_find_slots:
  assumes b: "b1 < ts" "b2 < ts" and "tid < N" "fp \<noteq> []" "0 < fuel"
  shows "lf_quiet ts N s \<Longrightarrow> set is \<subseteq> {..<NUM_ITEMS_PER_ENTRY} \<Longrightarrow>
    lf_rg X ts N (scan_answer s b1 b2 fp is) (lf_find_slots is fuel ts b1 b2 fp ptr tid)
      (8 * length is) s"
proof (induction "is" arbitrary: s)
  case Nil
  then show ?case by (simp add: scan_answer_def)
next
  case (Cons i "is")
  obtain m where fuel: "fuel = Suc m" using assms(5) gr0_implies_Suc by blast
  have i: "i < NUM_ITEMS_PER_ENTRY" and js: "set is \<subseteq> {..<NUM_ITEMS_PER_ENTRY}"
    using Cons.prems(2) by simp_all
  have "lf_rg X ts N (scan_answer s b1 b2 fp (i # is))
      (lf_find_slots (i # is) fuel ts b1 b2 fp ptr tid) (8 + 8 * length is) s"
    unfolding lf_find_slots.simps fuel
  proof (rule lf_rg_bind [OF lf_rg_find_slot [OF Cons.prems(1) b i assms(3,4)], THEN conjunct2])
    fix r s'
    assume s': "fades X ts N s s'" and r: "slot_answer s b1 b2 fp i r s'"
    note q' = fades_quiet [OF s' Cons.prems(1)]
    show "in_hand (case r of None \<Rightarrow> lf_find_slots is (Suc m) ts b1 b2 fp ptr tid | Some x \<Rightarrow> LRet x) = {#} \<and>
      lf_rg X ts N (scan_answer s b1 b2 fp (i # is))
        (case r of None \<Rightarrow> lf_find_slots is (Suc m) ts b1 b2 fp ptr tid | Some x \<Rightarrow> LRet x)
        (8 * length is) s'"
    proof (cases r)
      case None
      have "lf_rg X ts N (scan_answer s b1 b2 fp (i # is))
          (lf_find_slots is fuel ts b1 b2 fp ptr tid) (8 * length is) s'"
      proof (rule lf_rg_weaken [OF Cons.IH [OF q' js] order_refl])
        fix a s'' assume s'': "fades X ts N s' s''" and a: "scan_answer s' b1 b2 fp is a s''"
        show "scan_answer s b1 b2 fp (i # is) a s''"
          using scan_answer_back [OF a s' q' b js assms(4)] r None fades_absent [OF s'' b(1) i assms(4)] fades_absent [OF s'' b(2) i assms(4)]
          by (auto simp: scan_answer_def slot_answer_def [of _ _ _ _ _ None] split: if_splits)
      next
        fix a s1 s2 assume "scan_answer s b1 b2 fp (i # is) a s1" "fades X ts N s1 s2"
        then show "scan_answer s b1 b2 fp (i # is) a s2"
          by (rule scan_answer_stable [OF _ _ b assms(4) Cons.prems(2)])
      qed
      with None fuel show ?thesis by simp
    next
      case (Some x)
      have "fst x \<noteq> NUM_ITEMS_PER_ENTRY * 2" using r Some i by (auto simp: slot_answer_def)
      with r Some show ?thesis by (auto simp: scan_answer_def slot_answer_def)
    qed
  qed
  then show ?case by simp
qed

lemma lf_rg_find_at:
  assumes q: "lf_quiet ts N s" and "tid < N" "md5_fingerprint evp key \<noteq> []" "0 < fuel"
  defines "fp \<equiv> md5_fingerprint evp key" and "h \<equiv> jenkins_hash key mod ts"
  shows "lf_rg X ts N (scan_answer s h (get_next_hash_index ts h fp) fp [0..<NUM_ITEMS_PER_ENTRY])
    (lf_find_at evp ts fuel key ptr tid) 34 s"
proof -
  have ts: "ts \<noteq> 0" using lf_quietD(3) [OF q] by auto
  let ?h2 = "get_next_hash_index ts h fp" and ?is = "[0..<NUM_ITEMS_PER_ENTRY]"
  have b: "h < ts" "?h2 < ts"
    unfolding h_def by (rule hash_mod_less [OF ts], rule get_next_hash_index_less [OF ts])
  have is_ok: "set ?is \<subseteq> {..<NUM_ITEMS_PER_ENTRY}" by auto
  have fp: "fp \<noteq> []" using assms(3) by (simp add: fp_def)
  have scan: "lf_rg X ts N (scan_answer s h ?h2 fp ?is) (lf_find_slots ?is fuel ts h ?h2 fp ptr tid) 32 s'"
    if s': "fades X ts N s s'" "lf_quiet ts N s'" for s'
  proof (rule lf_rg_weaken [OF lf_rg_find_slots [OF b assms(2) fp assms(4) s'(2) is_ok]])
    show "scan_answer s h ?h2 fp ?is a t" if "scan_answer s' h ?h2 fp ?is a t" for a t
      by (rule scan_answer_back [OF that s' b is_ok fp])
    show "scan_answer s h ?h2 fp ?is a t'" if "scan_answer s h ?h2 fp ?is a t" "fades X ts N t t'" for a t t'
      by (rule scan_answer_stable [OF that b fp is_ok])
  qed (simp add: NUM_ITEMS_PER_ENTRY_def)
  have "lf_rg X ts N (scan_answer s h ?h2 fp ?is) (lf_find_at evp ts fuel key ptr tid) (Suc (Suc 32)) s"
    unfolding lf_find_at_def Let_def if_not_P [OF ts] fp_def [symmetric] h_def [symmetric]
    by (rule lf_rg_clear [OF q assms(2)]) (use scan in simp_all)
  then show ?thesis by simp
qed

text \<open>The answer of the scan in terms of the item of the key.\<close>

lemma scan_answer_item:
  assumes "lf_ready evp ts N s" "lf_ready evp ts N s'"
    and "fp = md5_fingerprint evp key" "h = jenkins_hash key mod ts"
    and "scan_answer s h (get_next_hash_index ts h fp) fp [0..<NUM_ITEMS_PER_ENTRY] r s'"
  shows "fst r = 8 \<and> key_item evp ts key \<notin># lf_items s' \<or> fst r < 8 \<and> key_item evp ts key \<in># lf_items s"
proof (cases "fst r = 8")
  case True
  with assms(5) have "key_hit evp ts key s' = None"
    by (simp add: scan_answer_def NUM_ITEMS_PER_ENTRY_def key_hit_def Let_def first_hit_None
        assms(3,4))
  with True key_hit_item [OF assms(2), of key] show ?thesis by simp
next
  case False
  with assms(5) obtain i where i: "i < NUM_ITEMS_PER_ENTRY"
    and hit: "slot_answer s h (get_next_hash_index ts h fp) fp i (Some r) s'"
    by (auto simp: scan_answer_def NUM_ITEMS_PER_ENTRY_def)
  then have "fst r < 8" by (auto simp: slot_answer_def NUM_ITEMS_PER_ENTRY_def)
  moreover have "key_hit evp ts key s \<noteq> None"
    using hit i by (auto simp: slot_answer_def key_hit_def Let_def first_hit_None assms(3,4))
  ultimately show ?thesis using key_hit_item [OF assms(1), of key] by simp
qed

lemma fades_ready: "fades X ts N s s' \<Longrightarrow> lf_ready evp ts N s \<Longrightarrow> lf_ready evp ts N s'"
  by (simp add: lf_ready_def fades_quiet)

lemma fades_item_absent:
  assumes "fades X ts N s s'" "lf_ready evp ts N s" "key_item evp ts key \<notin># lf_items s"
  shows "key_item evp ts key \<notin># lf_items s'"
proof -
  have r: "is_pow2 ts" "md5_fingerprint evp key \<noteq> []"
    using assms(2) by (simp_all add: lf_ready_def md5_fingerprint_nonempty)
  have ts: "ts \<noteq> 0" using r(1) by (rule is_pow2_neq_0)
  have "key_hit evp ts key s = None" using assms(2,3) key_hit_item by blast
  then have "key_hit evp ts key s' = None"
    using fades_absent [OF assms(1) hash_mod_less [OF ts] _ r(2)]
      fades_absent [OF assms(1) get_next_hash_index_less [OF ts] _ r(2)]
    by (auto simp: key_hit_def Let_def first_hit_None)
  then show ?thesis using key_hit_item [OF fades_ready [OF assms(1,2)], of key] by simp
qed

text \<open>What \<open>find\<close> answers in terms of items, with the entry that \<open>remove\<close> goes on with.\<close>

definition find_answer ::
  "evp_digest \<Rightarrow> u32 \<Rightarrow> lf_filter \<Rightarrow> bytes \<Rightarrow> nat \<times> table_pointer \<Rightarrow> lf_filter \<Rightarrow> bool" where
  "find_answer evp ts s key r s' =
     (let fp = md5_fingerprint evp key; h = jenkins_hash key mod ts; l = fst r;
          b = (if l < NUM_ITEMS_PER_ENTRY then h else get_next_hash_index ts h fp)
      in l = 8 \<and> key_item evp ts key \<notin># lf_items s' \<or>
         l < 8 \<and> key_item evp ts key \<in># lf_items s \<and>
         lf_str s b (l mod NUM_ITEMS_PER_ENTRY) = fp \<and> snd r = lf_at s b (l mod NUM_ITEMS_PER_ENTRY))"

lemma lf_rg_find_item:
  assumes r: "lf_ready evp ts N s" and "tid < N" "0 < fuel"
  shows "lf_rg X ts N (find_answer evp ts s key) (lf_find_at evp ts fuel key ptr tid) 34 s"
proof -
  let ?fp = "md5_fingerprint evp key" and ?h = "jenkins_hash key mod ts"
  let ?h2 = "get_next_hash_index ts ?h ?fp"
  have q: "lf_quiet ts N s" and fp: "?fp \<noteq> []"
    using r by (simp_all add: lf_ready_def md5_fingerprint_nonempty)
  show ?thesis
  proof (rule lf_rg_weaken [OF lf_rg_find_at [OF q assms(2) fp assms(3)] order_refl])
    fix a t assume t: "fades X ts N s t"
      and a: "scan_answer s ?h ?h2 ?fp [0..<NUM_ITEMS_PER_ENTRY] a t"
    note item = scan_answer_item [OF r fades_ready [OF t r] refl refl a]
    have "lf_str s (if fst a < 4 then ?h else ?h2) (fst a mod 4) = ?fp \<and>
        snd a = lf_at s (if fst a < 4 then ?h else ?h2) (fst a mod 4)" if "fst a < 8"
      using a that by (auto simp: scan_answer_def slot_answer_def NUM_ITEMS_PER_ENTRY_def)
    with item show "find_answer evp ts s key a t"
      by (auto simp: find_answer_def NUM_ITEMS_PER_ENTRY_def Let_def)
  next
    fix a t t' assume "fades X ts N s t" "find_answer evp ts s key a t" "fades X ts N t t'"
    then show "find_answer evp ts s key a t'"
      using fades_item_absent [OF _ fades_ready [OF _ r]] by (auto simp: find_answer_def Let_def)
  qed
qed

section \<open>\<open>remove\<close>\<close>

text \<open>
  How many of the eight slots of the key's buckets hold its fingerprint: a compare-and-swap that
  fails does so because another thread has emptied one of them.
\<close>

definition copies :: "lf_filter \<Rightarrow> u32 \<Rightarrow> u32 \<Rightarrow> bytes \<Rightarrow> (u32 \<times> nat) set" where
  "copies s b1 b2 fp = {(b, i). b \<in> {b1, b2} \<and> i < NUM_ITEMS_PER_ENTRY \<and> lf_str s b i = fp}"

lemma copies_subset: "copies s b1 b2 fp \<subseteq> {b1, b2} \<times> {..<NUM_ITEMS_PER_ENTRY}"
  by (auto simp: copies_def)

lemma card_copies: "card (copies s b1 b2 fp) \<le> 8" and finite_copies: "finite (copies s b1 b2 fp)"
proof -
  have fin: "finite ({b1, b2} \<times> {..<NUM_ITEMS_PER_ENTRY})" by simp
  show "finite (copies s b1 b2 fp)" by (rule finite_subset [OF copies_subset fin])
  have "card ({b1, b2} \<times> {..<NUM_ITEMS_PER_ENTRY}) \<le> 2 * 4"
    unfolding card_cartesian_product NUM_ITEMS_PER_ENTRY_def
    by (intro mult_le_mono) (simp_all add: card_insert_if)
  then show "card (copies s b1 b2 fp) \<le> 8"
    using card_mono [OF fin copies_subset, of s fp] by simp
qed

lemma copies_fade:
  assumes "fades X ts N s s'" "b1 < ts" "b2 < ts" "fp \<noteq> []"
  shows "copies s' b1 b2 fp \<subseteq> copies s b1 b2 fp"
  using fades_absent [OF assms(1,2) _ assms(4)] fades_absent [OF assms(1,3) _ assms(4)]
  by (auto simp: copies_def)

text \<open>The compare-and-swap of \<open>remove\<close> on an entry of its key is an allowed change.\<close>

lemma fades_remove:
  assumes q: "lf_quiet ts N s" and b: "b < ts" "i < NUM_ITEMS_PER_ENTRY"
    and "lf_str s b i = fp" "fp \<noteq> []" "(fp, home ts b fp) \<in> X"
    and null: "create_pointer (ucast (get_counter (lf_at s b i))) 0 False = Some null"
  shows "fades X ts N s (lf_put b i null s)"
proof -
  note inv = lf_quietD(1) [OF q]
  have n: "get_real_pointer null = 0" "\<not> get_marked null" "get_counter null = get_counter (lf_at s b i)"
    using create_pointer_fields [OF null] by simp_all
  have "lf_quiet ts N (lf_put b i null s)"
    by (rule lf_quiet_put [OF q b n(2)]) (simp add: n(1))
  moreover have "gone X ts s (lf_put b i null s) b i"
    using lf_quiet_slot(3) [OF q b] assms(4-6) n(1,3) by (simp add: gone_def lf_at_put [OF inv b])
  ultimately show ?thesis
    by (auto simp: fades_def lf_at_put [OF inv b])
qed

definition remove_answer ::
  "evp_digest \<Rightarrow> u32 \<Rightarrow> lf_filter \<Rightarrow> bytes \<Rightarrow> bool \<Rightarrow> lf_filter \<Rightarrow> bool" where
  "remove_answer evp ts s key r s' \<longleftrightarrow>
     (if r then key_item evp ts key \<in># lf_items s else key_item evp ts key \<notin># lf_items s')"

lemma remove_answer_back:
  "remove_answer evp ts t key r u \<Longrightarrow> fades X ts N s t \<Longrightarrow> lf_ready evp ts N s \<Longrightarrow>
     remove_answer evp ts s key r u"
  using fades_item_absent [of X ts N s t evp key] by (auto simp: remove_answer_def split: if_splits)

lemma remove_answer_stable:
  "lf_ready evp ts N u \<Longrightarrow> remove_answer evp ts s key r u \<Longrightarrow> fades X ts N u u' \<Longrightarrow>
     remove_answer evp ts s key r u'"
  using fades_item_absent [of X ts N u u' evp key] by (auto simp: remove_answer_def split: if_splits)

text \<open>A failed compare-and-swap: another thread has emptied the slot.\<close>

lemma copies_less:
  assumes "fades X ts N s s'" "b1 < ts" "b2 < ts" "fp \<noteq> []" "b \<in> {b1, b2}" "i < NUM_ITEMS_PER_ENTRY"
    and "lf_str s b i = fp" "lf_at s' b i \<noteq> lf_at s b i"
  shows "card (copies s' b1 b2 fp) < card (copies s b1 b2 fp)"
proof (rule psubset_card_mono [OF finite_copies])
  have "b < ts" using assms(2,3,5) by auto
  then have "get_real_pointer (lf_at s' b i) = 0"
    using fades_slot [OF assms(1) _ assms(6)] assms(8) by (auto simp: gone_def)
  then have "(b, i) \<notin> copies s' b1 b2 fp" "(b, i) \<in> copies s b1 b2 fp"
    using assms(4-7) by (auto simp: copies_def lf_str_def entry_str_def)
  then show "copies s' b1 b2 fp \<subset> copies s b1 b2 fp"
    using copies_fade [OF assms(1-4)] by blast
qed

lemma in_hand_ops [simp]:
  "in_hand (lf_find_at evp ts fuel k p tid) = {#}" "in_hand (lf_find evp ts fuel k tid) = {#}"
  "in_hand (lf_remove evp ts fuel k tid) = {#}" "in_hand (lf_insert evp ts fuel k tid) = {#}"
  by (simp_all add: lf_find_def lf_find_at_def lf_remove_def lf_insert_def lf_clear_hazard_def)

text \<open>The compare-and-swap on the slot where \<open>find_at\<close> saw the key in state \<open>s\<close>.\<close>

lemma lf_rg_take:
  assumes r: "lf_ready evp ts N s" and s': "fades X ts N s s'" and "tid < N" "0 < n"
    and X: "key_item evp ts key \<in> X" "(md5_fingerprint evp key, home ts b (md5_fingerprint evp key)) = key_item evp ts key"
    and bi: "b < ts" "i < NUM_ITEMS_PER_ENTRY" and str: "lf_str s b i = md5_fingerprint evp key"
    and item: "key_item evp ts key \<in># lf_items s"
    and null: "create_pointer (ucast (get_counter (lf_at s b i))) 0 False = Some null"
    and retry: "\<And>t. fades X ts N s t \<Longrightarrow> lf_at t b i \<noteq> lf_at s b i \<Longrightarrow>
      in_hand retry = {#} \<and> lf_rg X ts N (remove_answer evp ts s key) retry n t"
  shows "lf_rg X ts N (remove_answer evp ts s key)
    (LCas b i (lf_at s b i) null (\<lambda>swapped.
       if swapped then lf_retire_key (lf_at s b i) tid (LRet True) else retry)) (Suc n) s'"
  unfolding lf_rg.simps
proof (intro conjI allI impI, goal_cases)
  case (2 t)
  then have q: "lf_quiet ts N t" using fades_ready [OF fades_trans [OF s'] r] by (simp add: lf_ready_def)
  show ?case by (rule lf_quiet_slot(1) [OF q bi])
next
  case (3 t)
  note ft = fades_trans [OF s' 3]
  have q: "lf_quiet ts N t" using fades_ready [OF ft r] by (simp add: lf_ready_def)
  have fp: "md5_fingerprint evp key \<noteq> []"
    using r by (simp add: lf_ready_def md5_fingerprint_nonempty)
  have fpX: "(md5_fingerprint evp key, home ts b (md5_fingerprint evp key)) \<in> X"
    using X by simp
  show ?case
  proof (cases "lf_at t b i = lf_at s b i")
    case True
    then have strt: "lf_str t b i = md5_fingerprint evp key"
      using str ft by (simp add: lf_str_def fades_def)
    have "fades X ts N t (lf_put b i null t)"
      by (rule fades_remove [OF q bi strt fp fpX]) (use True null in simp)
    moreover have "get_real_pointer (lf_at s b i) \<noteq> 0"
      using lf_quiet_slot(3) [OF q bi] strt fp True by simp
    ultimately show ?thesis
      using True item assms(3,4) create_pointer_fields [OF null]
      by (simp add: lf_retire_key_def lf_rg.simps remove_answer_def)
  next
    case False
    then show ?thesis using retry [OF ft] by simp
  qed
qed simp

text \<open>An answer of a later round, started in \<open>t\<close>, is one of the call.\<close>

lemma lf_rg_remove_later:
  assumes r: "lf_ready evp ts N s" and t: "fades X ts N s t"
    and p: "lf_rg X ts N (remove_answer evp ts t key) p n t" and "n \<le> m"
  shows "lf_rg X ts N (remove_answer evp ts s key) p m t"
proof (rule lf_rg_weaken [OF p assms(4)])
  fix a u assume "remove_answer evp ts t key a u"
  then show "remove_answer evp ts s key a u" by (rule remove_answer_back [OF _ t r])
next
  fix a u u' assume "fades X ts N t u" "remove_answer evp ts s key a u" "fades X ts N u u'"
  then show "remove_answer evp ts s key a u'"
    by (rule remove_answer_stable [OF fades_ready [OF _ fades_ready [OF t r]]])
qed

lemma lf_rg_remove_loop:
  assumes "tid < N" "0 < fuel" "key_item evp ts key \<in> X"
  defines "fp \<equiv> md5_fingerprint evp key" and "h \<equiv> jenkins_hash key mod ts"
  defines "h2 \<equiv> get_next_hash_index ts h fp"
  shows "lf_ready evp ts N s \<Longrightarrow> card (copies s h h2 fp) < m \<Longrightarrow>
    in_hand (lf_remove_loop m evp ts fuel key h h2 ptr tid) = {#} \<and>
    lf_rg X ts N (remove_answer evp ts s key) (lf_remove_loop m evp ts fuel key h h2 ptr tid)
      (35 * card (copies s h h2 fp) + 36) s"
proof (induction m arbitrary: s ptr)
  case (Suc m)
  note r = Suc.prems(1)
  have fp: "fp \<noteq> []" and ts: "ts \<noteq> 0" and pow: "is_pow2 ts"
    using r is_pow2_neq_0 by (auto simp: lf_ready_def md5_fingerprint_nonempty fp_def)
  have b: "h < ts" "h2 < ts"
    unfolding h_def h2_def by (rule hash_mod_less [OF ts], rule get_next_hash_index_less [OF ts])
  let ?c = "\<lambda>s. card (copies s h h2 fp)"
  let ?cont = "\<lambda>(location, ptr1).
      if location = NUM_ITEMS_PER_ENTRY * 2 then LRet False
      else let hash_val = if location < NUM_ITEMS_PER_ENTRY then h else h2
        in lf_create (ucast (get_counter ptr1)) 0 False (\<lambda>null.
             LCas hash_val (location mod NUM_ITEMS_PER_ENTRY) ptr1 null (\<lambda>swapped.
               if swapped then lf_retire_key ptr1 tid (LRet True)
               else lf_remove_loop m evp ts fuel key h h2 ptr1 tid))"
  have cont: "in_hand (?cont a) = {#} \<and>
      lf_rg X ts N (remove_answer evp ts s key) (?cont a) (35 * ?c s + 2) s'"
    if s': "fades X ts N s s'" and a: "find_answer evp ts s key a s'" for a s'
  proof (cases "fst a = 8")
    case True
    have "key_item evp ts key \<notin># lf_items s'" using a True by (auto simp: find_answer_def Let_def)
    then have "remove_answer evp ts s key False t" if "fades X ts N s' t" for t
      using fades_item_absent [OF that fades_ready [OF s' r]] by (simp add: remove_answer_def)
    with True show ?thesis by (cases a) (simp add: NUM_ITEMS_PER_ENTRY_def)
  next
    case False
    obtain l p where lp: "a = (l, p)" by force
    let ?b = "if l < NUM_ITEMS_PER_ENTRY then h else h2" and ?i = "l mod NUM_ITEMS_PER_ENTRY"
    have hit: "key_item evp ts key \<in># lf_items s" "lf_str s ?b ?i = fp" "p = lf_at s ?b ?i"
      using a False lp by (auto simp: find_answer_def Let_def fp_def h_def h2_def)
    have bi: "?b < ts" "?i < NUM_ITEMS_PER_ENTRY" using b by simp_all
    have home: "(fp, home ts ?b fp) = key_item evp ts key"
      using slot_weight_home [OF pow, of ?b key evp] by (simp add: fp_def h_def h2_def)
    obtain null where null: "create_pointer (ucast (get_counter p)) 0 False = Some null"
      using counter_not_too_large [of "get_counter p"] by (auto simp: create_pointer_def)
    have "lf_rg X ts N (remove_answer evp ts s key)
        (LCas ?b ?i p null (\<lambda>swapped. if swapped then lf_retire_key p tid (LRet True)
           else lf_remove_loop m evp ts fuel key h h2 p tid)) (Suc (35 * ?c s + 1)) s'"
      unfolding hit(3)
    proof (rule lf_rg_take [OF r s' assms(1) _ assms(3) home [unfolded fp_def] bi
          hit(2) [unfolded fp_def] hit(1) null [unfolded hit(3)]])
      fix t assume t: "fades X ts N s t" "lf_at t ?b ?i \<noteq> lf_at s ?b ?i"
      then have "?c t < ?c s" using copies_less [OF t(1) b fp _ bi(2) hit(2)] by auto
      then have less: "?c t < m" "35 * ?c t + 36 \<le> 35 * ?c s + 1" using Suc.prems(2) by simp_all
      note IH = Suc.IH [OF fades_ready [OF t(1) r] less(1), of "lf_at s ?b ?i"]
      show "in_hand (lf_remove_loop m evp ts fuel key h h2 (lf_at s ?b ?i) tid) = {#} \<and>
          lf_rg X ts N (remove_answer evp ts s key)
            (lf_remove_loop m evp ts fuel key h h2 (lf_at s ?b ?i) tid) (35 * ?c s + 1) t"
        using IH lf_rg_remove_later [OF r t(1) IH [THEN conjunct2] less(2)] by simp
    qed simp
    with null False lp show ?thesis
      by (simp add: lf_create_def Let_def NUM_ITEMS_PER_ENTRY_def)
  qed
  have "in_hand (lf_bind (lf_find_at evp ts fuel key ptr tid) ?cont) =
        in_hand (lf_find_at evp ts fuel key ptr tid) \<and>
      lf_rg X ts N (remove_answer evp ts s key) (lf_bind (lf_find_at evp ts fuel key ptr tid) ?cont)
        (34 + (35 * ?c s + 2)) s"
    by (rule lf_rg_bind [OF lf_rg_find_item [OF r assms(1,2)] cont])
  then show ?case by (simp add: add.commute)
qed simp

lemma lf_rg_remove:
  assumes r: "lf_ready evp ts N s" and "tid < N" "9 \<le> fuel" "key_item evp ts key \<in> X"
  shows "lf_rg X ts N (remove_answer evp ts s key) (lf_remove evp ts fuel key tid) 318 s"
proof -
  let ?fp = "md5_fingerprint evp key" and ?h = "jenkins_hash key mod ts"
  let ?h2 = "get_next_hash_index ts ?h ?fp"
  have q: "lf_quiet ts N s" and ts: "ts \<noteq> 0"
    using r is_pow2_neq_0 by (auto simp: lf_ready_def)
  have loop: "in_hand (lf_remove_loop fuel evp ts fuel key ?h ?h2 0 tid) = {#} \<and>
      lf_rg X ts N (remove_answer evp ts s key) (lf_remove_loop fuel evp ts fuel key ?h ?h2 0 tid) 316 t"
    if t: "fades X ts N s t" for t
  proof -
    have c: "card (copies t ?h ?h2 ?fp) \<le> 8" by (rule card_copies)
    note rt = fades_ready [OF t r]
    have "card (copies t ?h ?h2 ?fp) < fuel" using c assms(3) by simp
    from lf_rg_remove_loop [OF assms(2) _ assms(4) rt this] assms(3)
    have loop: "in_hand (lf_remove_loop fuel evp ts fuel key ?h ?h2 0 tid) = {#}"
      "lf_rg X ts N (remove_answer evp ts t key) (lf_remove_loop fuel evp ts fuel key ?h ?h2 0 tid)
         (35 * card (copies t ?h ?h2 ?fp) + 36) t"
      by simp_all
    have "lf_rg X ts N (remove_answer evp ts s key) (lf_remove_loop fuel evp ts fuel key ?h ?h2 0 tid) 316 t"
    proof (rule lf_rg_weaken [OF loop(2)])
      fix a u assume "remove_answer evp ts t key a u"
      then show "remove_answer evp ts s key a u" by (rule remove_answer_back [OF _ t r])
    next
      fix a u u' assume "fades X ts N t u" "remove_answer evp ts s key a u" "fades X ts N u u'"
      then show "remove_answer evp ts s key a u'"
        by (rule remove_answer_stable [OF fades_ready [OF _ rt]])
    qed (use c in simp)
    with loop(1) show ?thesis by blast
  qed
  have "lf_rg X ts N (remove_answer evp ts s key) (lf_remove evp ts fuel key tid) (Suc (Suc 316)) s"
    unfolding lf_remove_def Let_def if_not_P [OF ts]
    by (rule lf_rg_clear [OF q assms(2)]) (use loop [OF fades_refl] loop in simp_all)
  then show ?thesis by simp
qed

section \<open>Clients that call \<open>find\<close> and \<open>remove\<close>\<close>

text \<open>The answer of a call made between the states \<open>s\<close> and \<open>s'\<close>.\<close>

primrec phase_answer :: "evp_digest \<Rightarrow> u32 \<Rightarrow> lf_filter \<Rightarrow> lf_filter \<Rightarrow> filter_call \<Rightarrow> bool + nat \<Rightarrow> bool" where
  "phase_answer evp ts s s' (InsertKey k) r = False"
| "phase_answer evp ts s s' (FindKey k) r =
     (r = Inr 8 \<and> key_item evp ts k \<notin># lf_items s' \<or>
      (\<exists>l < 8. r = Inr l) \<and> key_item evp ts k \<in># lf_items s)"
| "phase_answer evp ts s s' (RemoveKey k) r =
     (r = Inl False \<and> key_item evp ts k \<notin># lf_items s' \<or>
      r = Inl True \<and> key_item evp ts k \<in># lf_items s)"

text \<open>The calls of a phase, with the items they may remove.\<close>

primrec phase_call :: "evp_digest \<Rightarrow> u32 \<Rightarrow> (bytes \<times> u32 set) set \<Rightarrow> filter_call \<Rightarrow> bool" where
  "phase_call evp ts X (InsertKey k) = False"
| "phase_call evp ts X (FindKey k) = True"
| "phase_call evp ts X (RemoveKey k) = (key_item evp ts k \<in> X)"

lemma phase_answer_back:
  "phase_answer evp ts t u c r \<Longrightarrow> fades X ts N s t \<Longrightarrow> lf_ready evp ts N s \<Longrightarrow> phase_answer evp ts s u c r"
  using fades_item_absent [of X ts N s t evp] by (cases c) auto

lemma phase_answer_stable:
  "phase_answer evp ts s u c r \<Longrightarrow> fades X ts N u u' \<Longrightarrow> lf_ready evp ts N u \<Longrightarrow> phase_answer evp ts s u' c r"
  using fades_item_absent [of X ts N u u' evp] by (cases c) auto

lemma in_hand_op [simp]: "in_hand (lf_op evp ts fuel tid c) = {#}"
  by (cases c) (simp_all add: lf_find_def lf_find_at_def lf_remove_def lf_insert_def lf_clear_hazard_def)

lemma in_hand_client [simp]: "in_hand (lf_client evp ts fuel tid cs) = {#}"
proof (cases cs)
  case (Cons c cs')
  then show ?thesis
    by (cases c) (simp_all add: lf_find_def lf_find_at_def lf_remove_def lf_insert_def lf_clear_hazard_def)
qed simp

lemma lf_rg_op:
  assumes r: "lf_ready evp ts N s" and "tid < N" "9 \<le> fuel" "phase_call evp ts X c"
  shows "lf_rg X ts N (\<lambda>r s'. phase_answer evp ts s s' c r) (lf_op evp ts fuel tid c) 318 s"
proof (cases c)
  case (FindKey k)
  have "lf_rg X ts N (\<lambda>l t. phase_answer evp ts s t c (Inr l)) (lf_find evp ts fuel k tid) (34 + 0) s"
    unfolding lf_find_def
  proof (rule lf_rg_bind [THEN conjunct2, OF lf_rg_find_item [OF r assms(2)]])
    fix a t assume t: "fades X ts N s t" and a: "find_answer evp ts s k a t"
    obtain l p where lp: "a = (l, p)" by force
    have "phase_answer evp ts s t c (Inr l)"
      using a by (auto simp: lp FindKey find_answer_def Let_def)
    then have "phase_answer evp ts s t' c (Inr l)" if "fades X ts N t t'" for t'
      by (rule phase_answer_stable [OF _ that fades_ready [OF t r]])
    then show "in_hand (case a of (location, place_holder) \<Rightarrow> LRet location) = {#} \<and>
      lf_rg X ts N (\<lambda>l t. phase_answer evp ts s t c (Inr l))
        (case a of (location, place_holder) \<Rightarrow> LRet location) 0 t"
      by (simp add: lp)
  qed (use assms(3) in simp)
  then have "lf_rg X ts N (\<lambda>r t. phase_answer evp ts s t c r) (lf_op evp ts fuel tid c) (34 + 0 + 0) s"
    unfolding FindKey lf_op.simps
  proof (rule lf_rg_bind [THEN conjunct2])
    fix l t assume t: "fades X ts N s t" and "phase_answer evp ts s t (FindKey k) (Inr l)"
    then have "phase_answer evp ts s t' (FindKey k) (Inr l)" if "fades X ts N t t'" for t'
      using phase_answer_stable [OF _ that fades_ready [OF t r]] by blast
    then show "in_hand (LRet (Inr l)) = {#} \<and>
      lf_rg X ts N (\<lambda>r t. phase_answer evp ts s t (FindKey k) r) (LRet (Inr l)) 0 t"
      by simp
  qed
  then show ?thesis by (rule lf_rg_mono) simp
next
  case (RemoveKey k)
  have X: "key_item evp ts k \<in> X" using assms(4) RemoveKey by simp
  have "lf_rg X ts N (\<lambda>r t. phase_answer evp ts s t c r) (lf_op evp ts fuel tid c) (318 + 0) s"
    unfolding RemoveKey lf_op.simps
  proof (rule lf_rg_bind [THEN conjunct2, OF lf_rg_remove [OF r assms(2,3) X]])
    fix a t assume t: "fades X ts N s t" and "remove_answer evp ts s k a t"
    then have "phase_answer evp ts s t (RemoveKey k) (Inl a)"
      by (cases a) (auto simp: remove_answer_def)
    then have "phase_answer evp ts s t' (RemoveKey k) (Inl a)" if "fades X ts N t t'" for t'
      by (rule phase_answer_stable [OF _ that fades_ready [OF t r]])
    then show "in_hand (LRet (Inl a)) = {#} \<and>
      lf_rg X ts N (\<lambda>r t. phase_answer evp ts s t (RemoveKey k) r) (LRet (Inl a)) 0 t"
      by simp
  qed
  then show ?thesis by simp
qed (use assms(4) in simp)

lemma lf_rg_client:
  assumes "tid < N" "9 \<le> fuel"
  shows "lf_ready evp ts N s \<Longrightarrow> (\<And>c. c \<in> set cs \<Longrightarrow> phase_call evp ts X c) \<Longrightarrow>
    lf_rg X ts N (\<lambda>rs s'. list_all2 (phase_answer evp ts s s') cs rs) (lf_client evp ts fuel tid cs)
      (318 * length cs) s"
proof (induction cs arbitrary: s)
  case (Cons c cs)
  note r = Cons.prems(1)
  let ?Q = "\<lambda>s rs s'. list_all2 (phase_answer evp ts s s') (c # cs) rs"
  have c: "phase_call evp ts X c" and cs: "\<And>d. d \<in> set cs \<Longrightarrow> phase_call evp ts X d"
    using Cons.prems(2) by simp_all
  have "lf_rg X ts N (?Q s) (lf_client evp ts fuel tid (c # cs)) (318 + (318 * length cs + 0)) s"
    unfolding lf_client.simps
  proof (rule lf_rg_bind [THEN conjunct2, OF lf_rg_op [OF r assms c]])
    fix a t assume t: "fades X ts N s t" and a: "phase_answer evp ts s t c a"
    note rt = fades_ready [OF t r]
    have "in_hand (lf_bind (lf_client evp ts fuel tid cs) (\<lambda>rs. LRet (a # rs))) =
        in_hand (lf_client evp ts fuel tid cs) \<and>
      lf_rg X ts N (?Q s) (lf_bind (lf_client evp ts fuel tid cs) (\<lambda>rs. LRet (a # rs)))
        (318 * length cs + 0) t"
    proof (rule lf_rg_bind [OF Cons.IH [OF rt cs]])
      fix rs u assume u: "fades X ts N t u" and rs: "list_all2 (phase_answer evp ts t u) cs rs"
      have "?Q s (a # rs) u'" if "fades X ts N u u'" for u'
      proof -
        have "phase_answer evp ts s u' c a"
          by (rule phase_answer_stable [OF a fades_trans [OF u that] rt])
        moreover have "list_all2 (phase_answer evp ts s u') cs rs"
          by (rule list.rel_mono_strong [OF rs])
            (blast intro: phase_answer_back [OF _ t r] phase_answer_stable [OF _ that fades_ready [OF u rt]])
        ultimately show ?thesis by simp
      qed
      then show "in_hand (LRet (a # rs)) = {#} \<and> lf_rg X ts N (?Q s) (LRet (a # rs)) 0 u" by simp
    qed
    then show "in_hand (lf_bind (lf_client evp ts fuel tid cs) (\<lambda>rs. LRet (a # rs))) = {#} \<and>
      lf_rg X ts N (?Q s) (lf_bind (lf_client evp ts fuel tid cs) (\<lambda>rs. LRet (a # rs)))
        (318 * length cs + 0) t"
      by simp
  qed
  then show ?case by simp
qed simp

section \<open>The stock of entries\<close>

lemma filter_mset_map:
  "distinct xs \<Longrightarrow> filter_mset P (mset (map f xs)) = (\<Sum>x \<in> set xs. if P (f x) then {#f x#} else {#})"
  by (induction xs) auto

lemma table_entries:
  "filter_mset (\<lambda>a. a \<noteq> 0) (mset (slot_pointers s)) =
     cell_sum (unat (lf_table_size s)) NUM_ITEMS_PER_ENTRY
       (\<lambda>b i p. if get_real_pointer p \<noteq> 0 then {#get_real_pointer p#} else {#}) (lf_hash_table s)"
proof -
  have set_eq: "set (List.product [0..<unat (lf_table_size s)] [0..<NUM_ITEMS_PER_ENTRY]) =
      {..<unat (lf_table_size s)} \<times> {..<NUM_ITEMS_PER_ENTRY}"
    by auto
  show ?thesis
    unfolding slot_pointers_def cell_sum_def
    by (subst filter_mset_map) (auto simp: distinct_product set_eq intro!: sum.cong split: prod.split)
qed

lemma entries_put:
  assumes inv: "lf_inv ts n s" and b: "b < ts" "i < NUM_ITEMS_PER_ENTRY"
    and "get_real_pointer v = 0" "get_real_pointer (lf_at s b i) \<noteq> 0"
  shows "entries (lf_put b i v s) + {#get_real_pointer (lf_at s b i)#} = entries s"
proof -
  have t: "rect (unat ts) NUM_ITEMS_PER_ENTRY (lf_hash_table s)" "lf_table_size s = ts" "unat b < unat ts"
    using inv b(1) by (auto simp: lf_inv_def word_less_nat_alt)
  have table: "lf_hash_table (lf_put b i v s) = put_cell (lf_hash_table s) (unat b) i v"
    by (simp add: lf_put_def)
  show ?thesis
    unfolding entries_def table_entries table lf_put_same t(2)
    using cell_sum_put [OF t(1,3) b(2), of "\<lambda>b i p. if get_real_pointer p \<noteq> 0
        then {#get_real_pointer p#} else {#}" v] assms(4,5)
    by (simp add: lf_at_def)
qed

lemma mset_concat_update:
  "t < length xss \<Longrightarrow> mset (concat (xss[t := xss ! t @ [a]])) = mset (concat xss) + {#a#}"
proof (induction xss arbitrary: t)
  case (Cons xs xss)
  then show ?case by (cases t) simp_all
qed simp

lemma entries_retire:
  "t < length (lf_retired_ptrs s) \<Longrightarrow> entries (push_retired t a s) = entries s + {#a#}"
  by (simp add: entries_def table_entries push_retired_def mset_concat_update)

lemma entries_mark [simp]: "entries (mark_hazard a j t s) = entries s"
  by (simp add: entries_def table_entries mark_hazard_def)

lemma lf_rg_act:
  assumes q: "lf_quiet ts N s" and rg: "lf_rg X ts N Q p n s" and act: "lf_act env t p s = Some (p', s')"
  shows "0 < n \<and> lf_rg X ts N Q p' (n - 1) s' \<and> fades X ts N s s' \<and>
    entries s' + in_hand p' = entries s + in_hand p"
proof -
  have do: "lf_do env p s = (p', s')" "\<not> lf_ended p"
    using act by (auto simp: lf_act_def split: if_splits)
  note here = fades_refl [of X ts N s]
  note inv = lf_quietD(1) [OF q]
  show ?thesis
  proof (cases p)
    case (LLoad b i k)
    with rg do here show ?thesis by (auto simp: lf_rg.simps)
  next
    case (LCas b i old new k)
    with rg here have *: "in_table s b i" "0 < n" "if lf_at s b i = old
      then fades X ts N s (lf_put b i new s) \<and> get_real_pointer old \<noteq> 0 \<and> get_real_pointer new = 0 \<and>
        in_hand (k True) = {#get_real_pointer old#} \<and> lf_rg X ts N Q (k True) (n - 1) (lf_put b i new s)
      else in_hand (k False) = {#} \<and> lf_rg X ts N Q (k False) (n - 1) s"
      unfolding LCas lf_rg.simps by blast+
    have b: "b < ts" "i < NUM_ITEMS_PER_ENTRY"
      using *(1) inv by (auto simp: in_table_def lf_inv_def rect_def word_less_nat_alt)
    show ?thesis
    proof (cases "lf_at s b i = old")
      case True
      with do *(2,3) LCas show ?thesis using entries_put [OF inv b, of new] by auto
    next
      case False
      with do *(2,3) LCas show ?thesis by auto
    qed
  next
    case (LDeref a k)
    with rg here obtain str where "lf_heap s a = Some str" "in_hand (k str) = {#}" "0 < n"
      "lf_rg X ts N Q (k str) (n - 1) s"
      unfolding LDeref lf_rg.simps by blast
    with do LDeref show ?thesis by auto
  next
    case (LHazard u j a r)
    with rg do here show ?thesis by (auto simp: lf_rg.simps intro!: fades_haz)
  next
    case (LRetire u a r)
    with rg do here show ?thesis
      using lf_quietD(5) [OF q] by (auto simp: lf_rg.simps entries_retire intro!: fades_retired)
  qed (use rg do in \<open>auto simp: lf_rg.simps\<close>)
qed

lemma lf_rg_acts:
  assumes q: "lf_quiet ts N s" and rg: "lf_rg X ts N Q p n s"
  shows "(\<exists>a. p = LRet a \<and> Q a s) \<or> (\<exists>d. lf_act env t p s = Some d)"
proof -
  note here = fades_refl [of X ts N s]
  show ?thesis
  proof (cases p)
    case (LRet a)
    with rg here show ?thesis by simp
  next
    case (LCas b i old new k)
    with rg here have "in_table s b i" unfolding LCas lf_rg.simps by blast
    with LCas show ?thesis by (auto simp: lf_act_def)
  next
    case (LDeref a k)
    with rg here have "lf_heap s a \<noteq> None" unfolding LDeref lf_rg.simps by blast
    with LDeref show ?thesis by (auto simp: lf_act_def)
  qed (use rg here lf_quietD(4,5) [OF q] in \<open>auto simp: lf_rg.simps lf_act_def\<close>)
qed

interpretation lf_phase: thread_budget "lf_act env"
    "\<lambda>t n s p. lf_quiet ts N s \<and> lf_rg X ts N (Q t) p n s" "fades X ts N" entries in_hand
    for env ts N X Q
proof (unfold_locales, goal_cases)
  case (2 s s' s'')
  then show ?case by (rule fades_trans)
next
  case (3 t n s p p' s')
  then show ?case using lf_rg_act [of ts N s X "Q t" p n env t p' s'] fades_quiet by blast
next
  case (4 t n s p s')
  then show ?case using lf_rg_stable fades_quiet by blast
qed simp

section \<open>Runs of a phase\<close>

lemma lf_phase_start:
  assumes r: "lf_ready evp ts N s" and "length css \<le> N" "9 \<le> fuel"
    and calls: "\<forall>cs \<in> set css. \<forall>c \<in> set cs. phase_call evp ts X c"
    and exec: "thread_exec (lf_act env) sched (lf_start evp fuel s css) = Some (s', ps)"
  shows "length ps = length css" "lf_ready evp ts N s'" "fades X ts N s s'"
    "\<And>t. t < length css \<Longrightarrow> count_list sched t \<le> 318 * length (css ! t) \<and>
      lf_rg X ts N (\<lambda>rs s'. list_all2 (phase_answer evp ts s s') (css ! t) rs) (ps ! t)
        (318 * length (css ! t) - count_list sched t) s'"
    "entries s' + lf_phase.total_held ps = entries s"
proof -
  let ?ps = "map (\<lambda>t. lf_client evp ts fuel t (css ! t)) [0..<length css]"
  let ?Q = "\<lambda>t rs s'. list_all2 (phase_answer evp ts s s') (css ! t) rs"
  have q: "lf_quiet ts N s" using r by (simp add: lf_ready_def)
  have run: "thread_exec (lf_act env) sched (s, ?ps) = Some (s', ps)"
    using exec lf_quietD(2) [OF q] by (simp add: lf_start_def)
  have "lf_rg X ts N (?Q t) (?ps ! t) (318 * length (css ! t)) s" if t: "t < length css" for t
  proof -
    have "lf_rg X ts N (?Q t) (lf_client evp ts fuel t (css ! t)) (318 * length (css ! t)) s"
      by (rule lf_rg_client [OF _ assms(3) r]) (use t assms(2) calls nth_mem [OF t] in auto)
    with t show ?thesis by simp
  qed
  then have "\<forall>t < length ?ps. lf_quiet ts N s \<and>
      lf_rg X ts N (?Q t) (?ps ! t) (318 * length (css ! t)) s"
    using q by simp
  from lf_phase.exec_spends [OF run this]
  have res: "length ps = length css \<and> fades X ts N s s' \<and>
    (\<forall>t < length css. count_list sched t \<le> 318 * length (css ! t) \<and> lf_quiet ts N s' \<and>
      lf_rg X ts N (?Q t) (ps ! t) (318 * length (css ! t) - count_list sched t) s') \<and>
    entries s' + lf_phase.total_held ps = entries s + lf_phase.total_held ?ps"
    by simp
  moreover have "lf_phase.total_held ?ps = {#}"
    by (rule lf_phase.total_held_empty) auto
  ultimately show "length ps = length css" "fades X ts N s s'"
    "entries s' + lf_phase.total_held ps = entries s"
    "\<And>t. t < length css \<Longrightarrow> count_list sched t \<le> 318 * length (css ! t) \<and>
      lf_rg X ts N (?Q t) (ps ! t) (318 * length (css ! t) - count_list sched t) s'"
    by simp_all
  from this(2) show "lf_ready evp ts N s'" by (rule fades_ready [OF _ r])
qed

text \<open>A key whose item nobody removes.\<close>

lemma fades_item_kept:
  assumes f: "fades X ts N s s'" and r: "lf_ready evp ts N s" and X: "key_item evp ts key \<notin> X"
    and "key_item evp ts key \<in># lf_items s"
  shows "key_item evp ts key \<in># lf_items s'"
proof -
  let ?fp = "md5_fingerprint evp key" and ?h = "jenkins_hash key mod ts"
  let ?h2 = "get_next_hash_index ts ?h ?fp"
  have pow: "is_pow2 ts" using r by (simp add: lf_ready_def)
  then have ts: "ts \<noteq> 0" by (rule is_pow2_neq_0)
  have "key_hit evp ts key s \<noteq> None" using assms(4) key_hit_item [OF r] by blast
  then obtain i where i: "i < NUM_ITEMS_PER_ENTRY" "lf_str s ?h i = ?fp \<or> lf_str s ?h2 i = ?fp"
    unfolding key_hit_def Let_def first_hit_None by auto
  then obtain b where b: "b \<in> {?h, ?h2}" "i < NUM_ITEMS_PER_ENTRY" "lf_str s b i = ?fp"
    by blast
  have less: "b < ts" using b(1) hash_mod_less [OF ts] get_next_hash_index_less [OF ts] by auto
  have "(lf_str s b i, home ts b (lf_str s b i)) \<notin> X"
    using slot_weight_home [OF pow b(1)] X b(3) by simp
  then have "lf_at s' b i = lf_at s b i" by (rule fades_stays [OF f less b(2)])
  then have "lf_str s' b i = ?fp" using f b(3) by (simp add: lf_str_def fades_def)
  then have "key_hit evp ts key s' \<noteq> None"
    using b(1,2) by (auto simp: key_hit_def Let_def first_hit_None)
  then show ?thesis using key_hit_item [OF fades_ready [OF f r]] by blast
qed

text \<open>The entries in the table and those retired, each listed once per place it is in.\<close>

definition entry_list :: "lf_filter \<Rightarrow> u64 list" where
  "entry_list s = filter (\<lambda>a. a \<noteq> 0) (slot_pointers s) @ concat (lf_retired_ptrs s)"

lemma entries_list: "entries s = mset (entry_list s)"
  by (simp add: entries_def entry_list_def)

text \<open>A concrete phase: thread 0 removes key 4 while thread 1 is in the middle of a \<open>find\<close>.\<close>

lemma lf_full_ready: "lf_ready pad_evp 2 2 lf_full"
proof -
  have "thread_reach (lf_act demo_env)
      (lf_start pad_evp (Suc (Suc (Suc 0))) lf_demo [map InsertKey [[8], [4], [9], [13]] @ [], []])
      (lf_full, [four_true (lf_client pad_evp 2 (Suc (Suc (Suc 0))) 0 []),
         lf_client pad_evp 2 (Suc (Suc (Suc 0))) 1 []])"
    by (rule lf_reach_filled [of "[]"]) simp
  from lf_threads.reach_inv [OF this lf_start_ok [OF demo_env_ok lf_demo_inv]]
  have "lf_inv 2 2 lf_full" by simp
  moreover have "\<not> get_marked (lf_at lf_full b i) \<and>
      (get_real_pointer (lf_at lf_full b i) \<noteq> 0 \<longrightarrow> lf_str lf_full b i \<noteq> [])"
    if "b < 2" "i < NUM_ITEMS_PER_ENTRY" for b i
  proof -
    have "b = 0 \<or> b = 1" using that(1) by (auto simp: word_less_nat_alt word_unat_eq_iff)
    moreover have "i = 0 \<or> i = 1 \<or> i = 2 \<or> i = 3" using that(2) by (auto simp: NUM_ITEMS_PER_ENTRY_def)
    moreover have "md5_fingerprint pad_evp k \<noteq> []" for k by (rule md5_fingerprint_nonempty [OF pad_evp_ok])
    ultimately show ?thesis
      by (auto simp: lf_full_def lf_demo_def lf_at_def cell_def lf_str_def entry_str_def demo_pointers)
  qed
  ultimately show ?thesis by (simp add: lf_ready_def lf_quiet_def pad_evp_ok is_pow2_2)
qed

lemma lf_full_phase:
  "\<exists>s ps. thread_exec (lf_act demo_env) (replicate 5 1 @ replicate 17 0)
     (lf_start pad_evp (Suc (Suc F)) lf_full [[RemoveKey [4]], [FindKey [9]]]) = Some (s, ps) \<and>
     ps ! 0 = LRet [Inl True] \<and> \<not> lf_ended (ps ! 1) \<and> lf_retired_ptrs s = [[32], []]"
  supply lf_lazy [cong]
  by (simp add: lf_eval)

lemma phase_calls:
  assumes "\<forall>cs \<in> set css. \<forall>c \<in> set cs. \<forall>k. c \<noteq> InsertKey k"
  shows "\<forall>cs \<in> set css. \<forall>c \<in> set cs. phase_call evp ts (removable evp ts css) c"
proof (intro ballI)
  fix cs c assume c: "cs \<in> set css" "c \<in> set cs"
  show "phase_call evp ts (removable evp ts css) c"
  proof (cases c)
    case (RemoveKey k)
    with c show ?thesis by (auto simp: removable_def)
  qed (use assms c in auto)
qed

lemma phase_answers:
  assumes r: "lf_ready evp ts N s" and phase: "length css \<le> N" "9 \<le> fuel"
    "\<forall>cs \<in> set css. \<forall>c \<in> set cs. phase_call evp ts (removable evp ts css) c"
    "thread_exec (lf_act env) sched (lf_start evp fuel s css) = Some (s', ps)"
    and t: "t < length css" "ps ! t = LRet rs" "i < length (css ! t)"
  shows "phase_answer evp ts s s' (css ! t ! i) (rs ! i)"
    and "css ! t ! i = FindKey k \<Longrightarrow> key_item evp ts k \<notin> removable evp ts css \<Longrightarrow>
      rs ! i \<noteq> Inr 8 \<longleftrightarrow> key_item evp ts k \<in># lf_items s"
proof -
  note P = lf_phase_start [OF r phase]
  have "list_all2 (phase_answer evp ts s s') (css ! t) rs"
    using P(4) [OF t(1)] t(2) by simp
  then show a: "phase_answer evp ts s s' (css ! t ! i) (rs ! i)"
    using t(3) by (rule list_all2_nthD)
  show "rs ! i \<noteq> Inr 8 \<longleftrightarrow> key_item evp ts k \<in># lf_items s"
    if "css ! t ! i = FindKey k" "key_item evp ts k \<notin> removable evp ts css"
    using a that fades_item_kept [OF P(3) r that(2)] by auto
qed

section \<open>Properties\<close>

text \<open>
  C8. Without concurrent insertions the lock-free filter is wait-free: under every schedule of any
  number of threads that call \<open>find\<close> and \<open>remove\<close>, each call takes at most 318 actions of its
  thread, however the others are scheduled, and a thread that has not finished its calls can
  always act: it never aborts, faults or runs out of fuel. (A \<open>find\<close> takes 34 actions; a \<open>remove\<close>
  searches at most nine times, since each failed compare-and-swap means that one of the eight
  slots has been emptied.)
\<close>

theorem lf_find_remove_wait_free:
  assumes "lf_ready evp ts N s" "length css \<le> N" "9 \<le> fuel"
    and "\<forall>cs \<in> set css. \<forall>c \<in> set cs. \<forall>k. c \<noteq> InsertKey k"
    and "thread_exec (lf_act env) sched (lf_start evp fuel s css) = Some (s', ps)" "t < length css"
  shows "count_list sched t \<le> 318 * length (css ! t) \<and>
    ((\<exists>rs. ps ! t = LRet rs) \<or> (\<exists>d. lf_act env t (ps ! t) s' = Some d))"
proof -
  note P = lf_phase_start [OF assms(1-3) phase_calls [OF assms(4)] assms(5)]
  have "lf_quiet ts N s'" using P(2) by (simp add: lf_ready_def)
  from lf_rg_acts [OF this] P(4) [OF assms(6)] show ?thesis by blast
qed

lemma lf_find_remove_wait_free_witness:
  "\<exists>s ps. thread_exec (lf_act demo_env) (replicate 5 1 @ replicate 17 0)
     (lf_start pad_evp 10 lf_full [[RemoveKey [4]], [FindKey [9]]]) = Some (s, ps) \<and>
     \<not> lf_ended (ps ! 1) \<and> (\<exists>d. lf_act demo_env 1 (ps ! 1) s = Some d)"
proof -
  obtain s ps where run: "thread_exec (lf_act demo_env) (replicate 5 1 @ replicate 17 0)
      (lf_start pad_evp (Suc (Suc 8)) lf_full [[RemoveKey [4]], [FindKey [9]]]) = Some (s, ps)"
    and "\<not> lf_ended (ps ! 1)"
    using lf_full_phase [of 8] by blast
  moreover from this have "\<exists>d. lf_act demo_env 1 (ps ! 1) s = Some d"
    using lf_find_remove_wait_free [OF lf_full_ready _ _ _ run, of 1] by auto
  ultimately show ?thesis by simp
qed

text \<open>
  C9. Answers of concurrent \<open>find\<close> and \<open>remove\<close> calls. A \<open>find\<close> that answers 8, or a \<open>remove\<close> that
  gives false, was right at the end of the phase, any other answer at its beginning; so \<open>find\<close> is
  exact for every key whose item no thread removes.
\<close>

theorem lf_find_remove_answers:
  assumes "lf_ready evp ts N s" "length css \<le> N" "9 \<le> fuel"
    and "\<forall>cs \<in> set css. \<forall>c \<in> set cs. \<forall>k. c \<noteq> InsertKey k"
    and "thread_exec (lf_act env) sched (lf_start evp fuel s css) = Some (s', ps)"
    and "t < length css" "ps ! t = LRet rs" "i < length (css ! t)"
  shows "phase_answer evp ts s s' (css ! t ! i) (rs ! i) \<and>
    (css ! t ! i = FindKey k \<and> key_item evp ts k \<notin> removable evp ts css \<longrightarrow>
     (rs ! i \<noteq> Inr 8 \<longleftrightarrow> key_item evp ts k \<in># lf_items s))"
  using phase_answers [OF assms(1-3) phase_calls [OF assms(4)] assms(5-8)] by blast

lemma lf_find_remove_answers_witness:
  "\<exists>s ps. thread_exec (lf_act demo_env) (replicate 5 1 @ replicate 17 0)
     (lf_start pad_evp 10 lf_full [[RemoveKey [4]], [FindKey [9]]]) = Some (s, ps) \<and>
     ps ! 0 = LRet [Inl True] \<and> phase_answer pad_evp 2 lf_full s (RemoveKey [4]) (Inl True)"
proof -
  obtain s ps where run: "thread_exec (lf_act demo_env) (replicate 5 1 @ replicate 17 0)
      (lf_start pad_evp (Suc (Suc 8)) lf_full [[RemoveKey [4]], [FindKey [9]]]) = Some (s, ps)"
    and ps: "ps ! 0 = LRet [Inl True]"
    using lf_full_phase [of 8] by blast
  have "phase_answer pad_evp 2 lf_full s ([[RemoveKey [4]], [FindKey [9]]] ! 0 ! 0) ([Inl True] ! 0)"
    using lf_find_remove_answers [OF lf_full_ready _ _ _ run _ ps, of 0 "[]"] by auto
  with run ps show ?thesis by simp
qed

text \<open>
  C10. Without concurrent insertions entries are neither lost nor duplicated: under every schedule
  each entry is in one slot or retired once, never both, and when all calls have returned every
  entry is still accounted for. So freeing retired entries then is no double free and leaves no
  dangling slot.
\<close>

theorem lf_entries_retired_once:
  assumes "lf_ready evp ts N s" "length css \<le> N" "9 \<le> fuel"
    and "\<forall>cs \<in> set css. \<forall>c \<in> set cs. \<forall>k. c \<noteq> InsertKey k"
    and "thread_exec (lf_act env) sched (lf_start evp fuel s css) = Some (s', ps)"
    and "distinct (entry_list s)"
  shows "distinct (entry_list s') \<and> set (entry_list s') \<subseteq> set (entry_list s) \<and>
    ((\<forall>t < length css. \<exists>rs. ps ! t = LRet rs) \<longrightarrow> set (entry_list s') = set (entry_list s))"
proof -
  note P = lf_phase_start [OF assms(1-3) phase_calls [OF assms(4)] assms(5)]
  have sum: "mset (entry_list s') + lf_phase.total_held ps = mset (entry_list s)"
    using P(5) by (simp add: entries_list)
  obtain zs where "mset zs = lf_phase.total_held ps" using ex_mset by blast
  with sum have "mset (entry_list s' @ zs) = mset (entry_list s)" by simp
  from mset_eq_setD [OF this] mset_eq_imp_distinct_iff [OF this] assms(6)
  have "distinct (entry_list s')" "set (entry_list s') \<subseteq> set (entry_list s)" by auto
  moreover have "set (entry_list s') = set (entry_list s)" if "\<forall>t < length css. \<exists>rs. ps ! t = LRet rs"
  proof -
    have "in_hand p = {#}" if "p \<in> set ps" for p
      using that \<open>\<forall>t < length css. \<exists>rs. ps ! t = LRet rs\<close> P(1) in_set_conv_nth [of p ps]
      by (metis in_hand.simps(2))
    then have "lf_phase.total_held ps = {#}" by (intro lf_phase.total_held_empty) blast
    with sum have "mset (entry_list s') = mset (entry_list s)" by simp
    then show ?thesis by (rule mset_eq_setD)
  qed
  ultimately show ?thesis by blast
qed

lemma lf_entries_retired_once_witness:
  "\<exists>s ps. thread_exec (lf_act demo_env) (replicate 5 1 @ replicate 17 0)
     (lf_start pad_evp 10 lf_full [[RemoveKey [4]], [FindKey [9]]]) = Some (s, ps) \<and>
     lf_retired_ptrs s = [[32], []] \<and> 32 \<notin> set (slot_pointers s)"
proof -
  obtain s ps where run: "thread_exec (lf_act demo_env) (replicate 5 1 @ replicate 17 0)
      (lf_start pad_evp (Suc (Suc 8)) lf_full [[RemoveKey [4]], [FindKey [9]]]) = Some (s, ps)"
    and ret: "lf_retired_ptrs s = [[32], []]"
    using lf_full_phase [of 8] by blast
  have "slot_pointers lf_full = [16, 32, 48, 64, 0, 0, 0, 0]"
    by (simp add: slot_pointers_def lf_full_def lf_demo_def cell_def NUM_ITEMS_PER_ENTRY_def
        lf_demo_lists demo_pointers upt_rec)
  then have "distinct (entry_list lf_full)"
    by (simp add: entry_list_def lf_full_def lf_demo_def)
  from lf_entries_retired_once [OF lf_full_ready _ _ _ run this]
  have "distinct (entry_list s)" by simp
  with ret have "32 \<notin> set (slot_pointers s)" by (auto simp: entry_list_def)
  with run ret show ?thesis by simp
qed

end
