(* ===== verification/Lock_Free_Reclaim.thy ===== *)
theory Lock_Free_Reclaim
  imports Lock_Free_Phases
begin

text \<open>
  The memory of the lock-free filter after its threads have been joined: \<open>free_hazard_pointers\<close> and
  the destructor on the state that a phase of \<open>find\<close> and \<open>remove\<close> calls leaves.
\<close>

section \<open>Entries that are accounted for\<close>

text \<open>Every entry of the table or of a retired list is live and listed once.\<close>

definition accounted :: "nat \<Rightarrow> lf_filter \<Rightarrow> bool" where
  "accounted n s \<longleftrightarrow> distinct (entry_list s) \<and> (\<forall>a \<in> set (entry_list s). a \<noteq> 0 \<and> lf_heap s a \<noteq> None) \<and>
     length (lf_hazard_ptrs s) = n \<and> length (lf_retired_ptrs s) = n"

lemma accounted_owns:
  assumes "accounted n s"
  shows "owns_slots s"
  unfolding owns_slots_def
proof (intro conjI ballI impI)
  have "distinct (entry_list s)" using assms unfolding accounted_def by blast
  then show "distinct (filter (\<lambda>a. a \<noteq> 0) (slot_pointers s))" unfolding entry_list_def distinct_append by blast
  fix a assume "a \<in> set (slot_pointers s)" "a \<noteq> 0"
  then have "a \<in> set (entry_list s)" unfolding entry_list_def set_append set_filter by blast
  then show "lf_heap s a \<noteq> None" using assms unfolding accounted_def by blast
qed

text \<open>The threads free their retired entries one after the other.\<close>

primrec free_all :: "nat list \<Rightarrow> lf_filter \<Rightarrow> lf_error + lf_filter" where
  "free_all [] s = Inr s"
| "free_all (t # ts) s = (case free_hazard_pointers t s of Inl e \<Rightarrow> Inl e | Inr s \<Rightarrow> free_all ts s)"

lemma set_concat_filter: "set (concat (xss[t := filter P (xss ! t)])) \<subseteq> set (concat xss)"
proof (induction xss arbitrary: t)
  case (Cons xs xss)
  then show ?case by (cases t) fastforce+
qed simp

lemma concat_filter:
  assumes "distinct (concat xss)" "t < length xss"
  shows "distinct (concat (xss[t := filter P (xss ! t)])) \<and>
    (\<forall>a \<in> set (concat (xss[t := filter P (xss ! t)])). a \<in> set (xss ! t) \<longrightarrow> P a)"
  using assms
proof (induction xss arbitrary: t)
  case (Cons xs xss)
  show ?case
  proof (cases t)
    case 0
    have xs: "distinct (filter P xs)" "distinct (concat xss)" "set xs \<inter> set (concat xss) = {}"
      using Cons.prems(1) by (simp_all del: set_concat)
    show ?thesis
      unfolding 0 list_update_code(2) nth_Cons_0 concat.simps distinct_append set_append set_filter
      using xs by blast
  next
    case (Suc u)
    let ?yss = "xss[u := filter P (xss ! u)]"
    from Cons.prems Suc have u: "u < length xss" "distinct (concat xss)" "distinct xs"
      and dis: "set xs \<inter> set (concat xss) = {}" by (simp_all del: set_concat)
    have sub: "set (xss ! u) \<subseteq> set (concat xss)" using nth_mem [OF u(1)] by auto
    have "set (concat ?yss) \<subseteq> set (concat xss)" by (rule set_concat_filter)
    with dis have dis': "set xs \<inter> set (concat ?yss) = {}" by blast
    from Cons.IH [OF u(2,1)] have IH: "distinct (concat ?yss)" "\<forall>a \<in> set (concat ?yss). a \<in> set (xss ! u) \<longrightarrow> P a"
      by blast+
    have "P a" if "a \<in> set xs \<union> set (concat ?yss)" "a \<in> set (xss ! u)" for a
      using that IH(2) sub dis by blast
    then have all: "\<forall>a \<in> set xs \<union> set (concat ?yss). a \<in> set (xss ! u) \<longrightarrow> P a" by blast
    have "distinct (xs @ concat ?yss)" unfolding distinct_append by (intro conjI u(3) IH(1) dis')
    with all show ?thesis
      unfolding Suc nth_Cons_Suc list_update_code(3) concat.simps set_append by (intro conjI)
  qed
qed simp

lemma accounted_free:
  assumes acc: "accounted n s" and tc: "lf_thread_count s = Some tc" "unat tc \<le> n" and t: "t < n"
  obtains s2 where "free_hazard_pointers t s = Inr s2" "accounted n s2" "lf_thread_count s2 = lf_thread_count s"
    "lf_hash_table s2 = lf_hash_table s" "lf_table_size s2 = lf_table_size s"
    "\<forall>a \<in> set (slot_pointers s). lf_heap s2 a = lf_heap s a"
proof -
  let ?hz = "hazard_record (unat tc) s" and ?ret = "lf_retired_ptrs s"
  let ?s2 = "s\<lparr>lf_retired_ptrs := ?ret[t := filter (\<lambda>a. a \<in> ?hz) (?ret ! t)],
    lf_heap := (\<lambda>a. if a \<in> set (?ret ! t) - ?hz then None else lf_heap s a)\<rparr>"
  have len: "length (lf_hazard_ptrs s) = n" "length ?ret = n" and dist: "distinct (entry_list s)"
    and live: "\<forall>a \<in> set (entry_list s). a \<noteq> 0 \<and> lf_heap s a \<noteq> None"
    using acc by (auto simp: accounted_def)
  have sub: "set (?ret ! t) \<subseteq> set (concat ?ret)" using nth_mem [of t ?ret] t len(2) unfolding set_concat by blast
  have ret: "distinct (concat ?ret)" "set (filter (\<lambda>a. a \<noteq> 0) (slot_pointers s)) \<inter> set (concat ?ret) = {}"
    "distinct (filter (\<lambda>a. a \<noteq> 0) (slot_pointers s))"
    using dist unfolding entry_list_def distinct_append by simp_all
  have live': "a \<noteq> 0 \<and> lf_heap s a \<noteq> None"
    if "a \<in> set (filter (\<lambda>a. a \<noteq> 0) (slot_pointers s)) \<or> a \<in> set (concat ?ret)" for a
    using live that unfolding entry_list_def set_append by blast
  have "?ret ! t \<in> set ?ret" using t len(2) by (intro nth_mem) simp
  with ret(1) have "distinct (?ret ! t)" unfolding distinct_concat_iff by blast
  moreover have "\<forall>a \<in> set (?ret ! t). a \<noteq> 0 \<and> lf_heap s a \<noteq> None" using live' sub by blast
  moreover have "unat tc \<le> length (lf_hazard_ptrs s)" "t < length ?ret" unfolding len by (rule tc(2) t)+
  ultimately have free: "free_hazard_pointers t s = Inr ?s2"
    using tc(1) free_hazard_pointers_eq by blast
  define R where "R = ?ret[t := filter (\<lambda>a. a \<in> ?hz) (?ret ! t)]"
  define E where "E = filter (\<lambda>a. a \<noteq> 0) (slot_pointers s)"
  have slots: "slot_pointers ?s2 = slot_pointers s" by (simp add: slot_pointers_def)
  have entries: "entry_list ?s2 = E @ concat R"
    unfolding entry_list_def slots R_def E_def by simp
  from t len(2) have "t < length ?ret" by simp
  from concat_filter [OF ret(1) this, of "\<lambda>a. a \<in> ?hz"]
  have R: "distinct (concat R)" "\<forall>a \<in> set (concat R). a \<in> set (?ret ! t) \<longrightarrow> a \<in> ?hz"
    unfolding R_def by blast+
  have RR: "set (concat R) \<subseteq> set (concat ?ret)" unfolding R_def by (rule set_concat_filter)
  have E: "set E \<inter> set (concat ?ret) = {}" "distinct E" unfolding E_def by (rule ret(2,3))+
  have same: "lf_heap ?s2 a = lf_heap s a" if "a \<in> set E" for a
  proof -
    have "a \<notin> set (?ret ! t)" using E(1) sub that by blast
    then show ?thesis by simp
  qed
  have keep: "lf_heap ?s2 a = lf_heap s a" if "a \<in> set (concat R)" for a
    using R(2) [THEN bspec, OF that] by auto
  have "distinct (E @ concat R)" unfolding distinct_append using E R(1) RR by blast
  moreover have "a \<noteq> 0 \<and> lf_heap ?s2 a \<noteq> None" if "a \<in> set (E @ concat R)" for a
  proof -
    from that have "a \<in> set E \<or> a \<in> set (concat R)" unfolding set_append by blast
    then have "lf_heap ?s2 a = lf_heap s a" "a \<noteq> 0 \<and> lf_heap s a \<noteq> None"
      using same keep live' [of a] RR unfolding E_def by blast+
    then show ?thesis by metis
  qed
  ultimately have "accounted n ?s2"
    unfolding accounted_def entries using len by simp
  moreover have "\<forall>a \<in> set (slot_pointers s). lf_heap ?s2 a = lf_heap s a"
  proof
    fix a assume "a \<in> set (slot_pointers s)"
    moreover have "0 \<notin> set (?ret ! t)" using live' sub by blast
    ultimately show "lf_heap ?s2 a = lf_heap s a" using same [of a] by (cases "a = 0") (simp_all add: E_def)
  qed
  ultimately show thesis using free by (intro that [of ?s2]) simp_all
qed

lemma accounted_free_all:
  assumes "accounted n s" "lf_thread_count s = Some tc" "unat tc \<le> n" "set tids \<subseteq> {..<n}"
  shows "\<exists>s2. free_all tids s = Inr s2 \<and> accounted n s2 \<and> slot_pointers s2 = slot_pointers s \<and>
    lf_hash_table s2 = lf_hash_table s \<and> (\<forall>a \<in> set (slot_pointers s). lf_heap s2 a = lf_heap s a)"
  using assms
proof (induction tids arbitrary: s)
  case (Cons t tids)
  then have "t < n" by simp
  from accounted_free [OF Cons.prems(1-3) this] obtain s1 where
    s1: "free_hazard_pointers t s = Inr s1" "accounted n s1" "lf_thread_count s1 = lf_thread_count s"
      "lf_hash_table s1 = lf_hash_table s" "lf_table_size s1 = lf_table_size s"
      "\<forall>a \<in> set (slot_pointers s). lf_heap s1 a = lf_heap s a"
    by blast
  have slots: "slot_pointers s1 = slot_pointers s" by (simp add: slot_pointers_def s1(4,5))
  from Cons.IH [OF s1(2) _ Cons.prems(3)] Cons.prems(2,4) s1(3)
  obtain s2 where "free_all tids s1 = Inr s2" "accounted n s2" "slot_pointers s2 = slot_pointers s1"
    "lf_hash_table s2 = lf_hash_table s1" "\<forall>a \<in> set (slot_pointers s1). lf_heap s2 a = lf_heap s1 a"
    by auto
  then show ?case using s1 slots by (intro exI [of _ s2]) simp
qed simp

section \<open>The state after a phase\<close>

lemma lf_act_thread_count: "lf_act env t p s = Some (p', s') \<Longrightarrow> lf_thread_count s' = lf_thread_count s"
  unfolding lf_act_def
  by (cases p) (auto simp: Let_def lf_put_def mark_hazard_def push_retired_def split: if_splits option.splits)

lemma lf_exec_thread_count:
  "thread_exec (lf_act env) sched (s, ps) = Some (s', ps') \<Longrightarrow> lf_thread_count s' = lf_thread_count s"
proof (induction sched arbitrary: s ps)
  case (Cons t sched)
  then show ?case using lf_act_thread_count by (fastforce split: if_splits option.splits)
qed simp

lemma phase_accounted:
  assumes r: "lf_ready evp ts N s" and phase: "length css \<le> N" "9 \<le> fuel"
    "\<forall>cs \<in> set css. \<forall>c \<in> set cs. \<forall>k. c \<noteq> InsertKey k"
    "thread_exec (lf_act env) sched (lf_start evp fuel s css) = Some (s', ps)"
    and acc: "accounted N s"
  shows "accounted N s'" "lf_thread_count s' = lf_thread_count s" "lf_heap s' = lf_heap s"
proof -
  note P = lf_phase_start [OF r phase(1,2) phase_calls [OF phase(3)] phase(4)]
  show heap: "lf_heap s' = lf_heap s" using P(3) by (simp add: fades_def)
  show "lf_thread_count s' = lf_thread_count s"
    using lf_exec_thread_count phase(4) unfolding lf_start_def by blast
  have sum: "mset (entry_list s') + lf_phase.total_held ps = mset (entry_list s)"
    using P(5) by (simp add: entries_list)
  obtain zs where "mset zs = lf_phase.total_held ps" using ex_mset by blast
  with sum have "mset (entry_list s' @ zs) = mset (entry_list s)" by simp
  from mset_eq_setD [OF this] mset_eq_imp_distinct_iff [OF this] acc
  have "distinct (entry_list s')" "set (entry_list s') \<subseteq> set (entry_list s)"
    unfolding accounted_def by auto
  moreover have "length (lf_hazard_ptrs s') = N" "length (lf_retired_ptrs s') = N"
    using P(2) lf_quietD(4,5) [of ts N s'] by (auto simp: lf_ready_def)
  ultimately show "accounted N s'" using acc heap unfolding accounted_def by auto
qed

text \<open>A filter of four entries whose threads have been counted.\<close>

definition lf_counted :: lf_filter where
  "lf_counted = lf_full\<lparr>lf_thread_count := Some 2\<rparr>"

lemma lf_counted_ready: "lf_ready pad_evp 2 2 lf_counted"
  using lf_full_ready
  by (simp add: lf_counted_def lf_ready_def lf_quiet_def lf_inv_def lf_at_def lf_str_def entry_str_def)

lemma lf_counted_phase:
  "\<exists>s ps. thread_exec (lf_act demo_env) (replicate 5 1 @ replicate 17 0)
     (lf_start pad_evp (Suc (Suc F)) lf_counted [[RemoveKey [4]], [FindKey [9]]]) = Some (s, ps) \<and>
     lf_retired_ptrs s = [[32], []]"
  supply lf_lazy [cong]
  by (simp add: lf_eval lf_counted_def)

lemma lf_counted_accounted: "accounted 2 lf_counted"
proof -
  have "slot_pointers lf_counted = [16, 32, 48, 64, 0, 0, 0, 0]"
    by (simp add: slot_pointers_def lf_counted_def lf_full_def lf_demo_def cell_def NUM_ITEMS_PER_ENTRY_def
        lf_demo_lists demo_pointers upt_rec)
  then show ?thesis
    by (simp add: accounted_def entry_list_def lf_counted_def lf_full_def lf_demo_def)
qed

section \<open>Properties\<close>

text \<open>
  C11. Reclamation after a phase of concurrent \<open>find\<close> and \<open>remove\<close> calls. When the threads have been
  joined, wherever they stopped, \<open>free_hazard_pointers\<close> may be called for any threads in any order:
  no entry is deleted twice and none that the table still holds. The destructor then deletes
  exactly the entries of the table; what is still on a retired list is not among them and stays
  allocated for ever.
\<close>

theorem lf_reclaim_after_phase:
  assumes "lf_ready evp ts N s" "length css \<le> N" "9 \<le> fuel"
    and "\<forall>cs \<in> set css. \<forall>c \<in> set cs. \<forall>k. c \<noteq> InsertKey k"
    and "thread_exec (lf_act env) sched (lf_start evp fuel s css) = Some (s', ps)"
    and "accounted N s" "lf_thread_count s = Some tc" "unat tc \<le> N" "set tids \<subseteq> {..<N}"
  shows "\<exists>s2. free_all tids s' = Inr s2 \<and> lf_hash_table s2 = lf_hash_table s' \<and>
    (\<forall>a \<in> set (slot_pointers s'). lf_heap s2 a = lf_heap s a) \<and>
    lf_destroy s2 = Inr (\<lambda>a. if a \<in> set (slot_pointers s') \<and> a \<noteq> 0 then None else lf_heap s2 a) \<and>
    (\<forall>a \<in> set (concat (lf_retired_ptrs s2)). a \<notin> set (slot_pointers s') \<and> lf_heap s2 a \<noteq> None)"
proof -
  note A = phase_accounted [OF assms(1-6)]
  obtain s2 where s2: "free_all tids s' = Inr s2" "accounted N s2" "slot_pointers s2 = slot_pointers s'"
    "lf_hash_table s2 = lf_hash_table s'" "\<forall>a \<in> set (slot_pointers s'). lf_heap s2 a = lf_heap s' a"
    using accounted_free_all [OF A(1) _ assms(8,9)] A(2) assms(7) by auto
  have "lf_destroy s2 = Inr (\<lambda>a. if a \<in> set (slot_pointers s2) \<and> a \<noteq> 0 then None else lf_heap s2 a)"
    using accounted_owns [OF s2(2)] unfolding lf_destroy_def owns_slots_def
    by (intro delete_all_distinct) blast+
  moreover have "a \<notin> set (slot_pointers s2) \<and> lf_heap s2 a \<noteq> None" if "a \<in> set (concat (lf_retired_ptrs s2))" for a
  proof -
    have "a \<notin> set (filter (\<lambda>a. a \<noteq> 0) (slot_pointers s2))"
      using s2(2) that unfolding accounted_def entry_list_def distinct_append by blast
    moreover have "a \<noteq> 0 \<and> lf_heap s2 a \<noteq> None"
      using s2(2) that unfolding accounted_def entry_list_def set_append by blast
    ultimately show ?thesis unfolding set_filter by blast
  qed
  ultimately show ?thesis using s2(1,4,5) unfolding s2(3) A(3) by blast
qed

lemma lf_reclaim_after_phase_witness:
  "\<exists>s ps s2. thread_exec (lf_act demo_env) (replicate 5 1 @ replicate 17 0)
     (lf_start pad_evp 10 lf_counted [[RemoveKey [4]], [FindKey [9]]]) = Some (s, ps) \<and>
     lf_retired_ptrs s = [[32], []] \<and> free_all [0, 1] s = Inr s2 \<and>
     (\<forall>a \<in> set (slot_pointers s). lf_heap s2 a = lf_heap lf_counted a) \<and> (\<exists>h. lf_destroy s2 = Inr h)"
proof -
  obtain s ps where run: "thread_exec (lf_act demo_env) (replicate 5 1 @ replicate 17 0)
      (lf_start pad_evp (Suc (Suc 8)) lf_counted [[RemoveKey [4]], [FindKey [9]]]) = Some (s, ps)"
    and ret: "lf_retired_ptrs s = [[32], []]"
    using lf_counted_phase [of 8] by blast
  from lf_reclaim_after_phase [OF lf_counted_ready _ _ _ run lf_counted_accounted, of 2 "[0, 1]"]
  obtain s2 h where "free_all [0, 1] s = Inr s2" "lf_destroy s2 = Inr h"
      "\<forall>a \<in> set (slot_pointers s). lf_heap s2 a = lf_heap lf_counted a"
    by (auto simp: lf_counted_def)
  with run ret show ?thesis by simp
qed

end
