(* ===== verification/Bookkeeping.thy ===== *)
theory Bookkeeping
  imports Interleaving
begin

text \<open>
  Auxiliary state. \<open>with_book\<close> lets every action also write into a book, which the program cannot
  read: what threads did so far becomes part of the state that invariants speak of. The locale
  \<open>thread_rely\<close> is the rule for invariants in which each thread tolerates different changes:
  what thread \<open>u\<close> relies on survives the actions of the others, its own actions may do more.
\<close>

section \<open>Actions that are noted\<close>

definition with_book ::
  "(nat \<Rightarrow> 'p \<Rightarrow> 's \<Rightarrow> ('p \<times> 's) option) \<Rightarrow> (nat \<Rightarrow> 'p \<Rightarrow> 's \<Rightarrow> 'b \<Rightarrow> 'b) \<Rightarrow>
   nat \<Rightarrow> 'p \<Rightarrow> 's \<times> 'b \<Rightarrow> ('p \<times> 's \<times> 'b) option" where
  "with_book act note_it t p sb =
     (case act t p (fst sb) of None \<Rightarrow> None
      | Some (p', s') \<Rightarrow> Some (p', s', note_it t p (fst sb) (snd sb)))"

lemma with_book_Some:
  "with_book act note_it t p (s, b) = Some (p', s', b') \<longleftrightarrow>
     act t p s = Some (p', s') \<and> b' = note_it t p s b"
  by (auto simp: with_book_def split: option.split)

text \<open>Every run is a run with a book.\<close>

lemma exec_with_book:
  "thread_exec act sched (s, ps) = Some (s', ps') \<Longrightarrow>
    \<exists>b'. thread_exec (with_book act note_it) sched ((s, b), ps) = Some ((s', b'), ps')"
proof (induction sched arbitrary: s b ps)
  case (Cons t sched)
  from Cons.prems obtain p s1 where t: "t < length ps" "act t (ps ! t) s = Some (p, s1)"
    and rest: "thread_exec act sched (s1, ps[t := p]) = Some (s', ps')"
    by (auto split: if_splits option.splits)
  from Cons.IH [OF rest] t show ?case by (simp add: with_book_def)
qed simp

section \<open>Thread-wise relies\<close>

text \<open>
  \<open>ok t n s p\<close>: thread \<open>t\<close> with program \<open>p\<close> needs at most \<open>n\<close> more actions, whatever the others do
  within \<open>rely t\<close>.
\<close>

locale thread_rely =
  fixes act :: "nat \<Rightarrow> 'p \<Rightarrow> 's \<Rightarrow> ('p \<times> 's) option"
    and inv :: "'s \<Rightarrow> bool"
    and ok :: "nat \<Rightarrow> nat \<Rightarrow> 's \<Rightarrow> 'p \<Rightarrow> bool"
    and rely :: "nat \<Rightarrow> 's \<Rightarrow> 's \<Rightarrow> bool"
  assumes act_keeps: "inv s \<Longrightarrow> ok t n s p \<Longrightarrow> act t p s = Some (p', s') \<Longrightarrow>
      inv s' \<and> 0 < n \<and> ok t (n - 1) s' p' \<and> (\<forall>u. u \<noteq> t \<longrightarrow> rely u s s')"
    and ok_stable: "inv s \<Longrightarrow> ok u n s p \<Longrightarrow> rely u s s' \<Longrightarrow> inv s' \<Longrightarrow> ok u n s' p"
begin

lemma exec_keeps:
  assumes "thread_exec act sched (s, ps) = Some (s', ps')" "inv s"
    and "\<forall>t < length ps. ok t (N t) s (ps ! t)"
  shows "length ps' = length ps \<and> inv s' \<and>
    (\<forall>t < length ps. count_list sched t \<le> N t \<and> ok t (N t - count_list sched t) s' (ps' ! t))"
  using assms
proof (induction sched arbitrary: s ps N)
  case (Cons u sched)
  from Cons.prems(1) obtain p s1 where u: "u < length ps" "act u (ps ! u) s = Some (p, s1)"
    and rest: "thread_exec act sched (s1, ps[u := p]) = Some (s', ps')"
    by (auto split: if_splits option.splits)
  have "ok u (N u) s (ps ! u)" using Cons.prems(3) u(1) by blast
  from act_keeps [OF Cons.prems(2) this u(2)] have step: "inv s1" "0 < N u" "ok u (N u - 1) s1 p"
    "\<And>t. t \<noteq> u \<Longrightarrow> rely t s s1"
    by simp_all
  let ?N = "N(u := N u - 1)"
  have "ok t (?N t) s1 (ps[u := p] ! t)" if "t < length (ps[u := p])" for t
    using that step ok_stable [OF Cons.prems(2)] Cons.prems(3) u(1) by (auto simp: nth_list_update)
  with Cons.IH [OF rest step(1), of ?N] have IH: "length ps' = length ps" "inv s'"
    "\<And>t. t < length ps \<Longrightarrow> count_list sched t \<le> ?N t \<and> ok t (?N t - count_list sched t) s' (ps' ! t)"
    by simp_all
  have "count_list (u # sched) t \<le> N t \<and> ok t (N t - count_list (u # sched) t) s' (ps' ! t)"
    if "t < length ps" for t
    using IH(3) [OF that] step(2) by (auto split: if_splits)
  with IH(1,2) show ?case by blast
qed simp

end

end
