(* ===== verification/Lock_Free_Book.thy ===== *)
theory Lock_Free_Book
  imports Lock_Free_Phases Bookkeeping
begin

text \<open>
  The logic for runs in which the three operations of the lock-free filter overlap but nothing has
  to be evicted. A book records what each thread has put into the table and taken out of it;
  between two actions of a thread the others may only make changes that it tolerates.
\<close>

section \<open>The book\<close>

type_synonym item = "bytes \<times> u32 set"

text \<open>Per thread the items put and taken out so far, and the slots that have ever been in use.\<close>

record book =
  bk_put :: "nat \<Rightarrow> item multiset"
  bk_del :: "nat \<Rightarrow> item multiset"
  bk_used :: "(u32 \<times> nat) set"

text \<open>
  What is fixed for a run: table size, number of threads, the items at its start, those each
  thread is to insert, those that may be removed.
\<close>

record job =
  jb_size :: u32
  jb_threads :: nat
  jb_start :: "item multiset"
  jb_quota :: "nat \<Rightarrow> item multiset"
  jb_removable :: "item set"

definition all_put :: "job \<Rightarrow> book \<Rightarrow> item multiset" where
  "all_put J g = (\<Sum>u < jb_threads J. bk_put g u)"

definition all_del :: "job \<Rightarrow> book \<Rightarrow> item multiset" where
  "all_del J g = (\<Sum>u < jb_threads J. bk_del g u)"

definition whole_quota :: "job \<Rightarrow> item multiset" where
  "whole_quota J = (\<Sum>u < jb_threads J. jb_quota J u)"

definition moves :: "job \<Rightarrow> book \<Rightarrow> nat" where
  "moves J g = size (all_put J g) + size (all_del J g)"

text \<open>How many items of a multiset may be in a bucket.\<close>

definition in_bucket :: "u32 \<Rightarrow> item multiset \<Rightarrow> nat" where
  "in_bucket b M = size (filter_mset (\<lambda>it. b \<in> snd it) M)"

definition item_at :: "u32 \<Rightarrow> (u64 \<rightharpoonup> bytes) \<Rightarrow> u32 \<Rightarrow> table_pointer \<Rightarrow> item" where
  "item_at ts h b p = (entry_str h p, home ts b (entry_str h p))"

definition note_swap ::
  "u32 \<Rightarrow> nat \<Rightarrow> u32 \<Rightarrow> nat \<Rightarrow> table_pointer \<Rightarrow> table_pointer \<Rightarrow> lf_filter \<Rightarrow> book \<Rightarrow> book" where
  "note_swap ts t b i old new s g =
     (if get_real_pointer old = 0
      then g\<lparr>bk_put := (bk_put g)(t := add_mset (item_at ts (lf_heap s) b new) (bk_put g t)),
             bk_used := insert (b, i) (bk_used g)\<rparr>
      else g\<lparr>bk_del := (bk_del g)(t := add_mset (item_at ts (lf_heap s) b old) (bk_del g t))\<rparr>)"

fun note_act :: "u32 \<Rightarrow> nat \<Rightarrow> 'a lf_prog \<Rightarrow> lf_filter \<Rightarrow> book \<Rightarrow> book" where
  "note_act ts t (LCas b i old new k) s g =
     (if lf_at s b i = old then note_swap ts t b i old new s g else g)"
| "note_act ts t p s g = g"

section \<open>What always holds\<close>

definition kept :: "job \<Rightarrow> lf_filter \<Rightarrow> book \<Rightarrow> bool" where
  "kept J s g \<longleftrightarrow> lf_quiet (jb_size J) (jb_threads J) s \<and>
     lf_items s + all_del J g = jb_start J + all_put J g \<and>
     (\<forall>u < jb_threads J. bk_put g u \<subseteq># jb_quota J u) \<and>
     (\<forall>b < jb_size J. card {i. i < NUM_ITEMS_PER_ENTRY \<and> (b, i) \<in> bk_used g} \<le>
        in_bucket b (jb_start J + all_put J g)) \<and>
     (\<forall>b < jb_size J. \<forall>i < NUM_ITEMS_PER_ENTRY.
        get_real_pointer (lf_at s b i) \<noteq> 0 \<longrightarrow> (b, i) \<in> bk_used g)"

text \<open>What thread \<open>t\<close> tolerates.\<close>

definition lf_rely :: "job \<Rightarrow> nat \<Rightarrow> lf_filter \<Rightarrow> book \<Rightarrow> lf_filter \<Rightarrow> book \<Rightarrow> bool" where
  "lf_rely J t s g s' g' \<longleftrightarrow>
     bk_put g' t = bk_put g t \<and> bk_del g' t = bk_del g t \<and> bk_used g \<subseteq> bk_used g' \<and>
     all_put J g \<subseteq># all_put J g' \<and> all_del J g \<subseteq># all_del J g' \<and> lf_heap s \<subseteq>\<^sub>m lf_heap s' \<and>
     (\<forall>b < jb_size J. \<forall>i < NUM_ITEMS_PER_ENTRY.
        get_counter (lf_at s' b i) = get_counter (lf_at s b i) \<and>
        (lf_at s' b i = lf_at s b i \<or> moves J g < moves J g' \<and>
          (get_real_pointer (lf_at s b i) = 0 \<or>
           item_at (jb_size J) (lf_heap s) b (lf_at s b i) \<in> jb_removable J)))"

definition later :: "job \<Rightarrow> nat \<Rightarrow> lf_filter \<Rightarrow> book \<Rightarrow> lf_filter \<Rightarrow> book \<Rightarrow> bool" where
  "later J t s g s' g' \<longleftrightarrow> lf_rely J t s g s' g' \<and> kept J s' g'"

lemma keptD:
  assumes "kept J s g"
  shows "lf_quiet (jb_size J) (jb_threads J) s"
    "lf_items s + all_del J g = jb_start J + all_put J g"
    "\<And>u. u < jb_threads J \<Longrightarrow> bk_put g u \<subseteq># jb_quota J u"
    "\<And>b. b < jb_size J \<Longrightarrow> card {i. i < NUM_ITEMS_PER_ENTRY \<and> (b, i) \<in> bk_used g} \<le>
        in_bucket b (jb_start J + all_put J g)"
    "\<And>b i. b < jb_size J \<Longrightarrow> i < NUM_ITEMS_PER_ENTRY \<Longrightarrow>
        get_real_pointer (lf_at s b i) \<noteq> 0 \<Longrightarrow> (b, i) \<in> bk_used g"
  using assms by (simp_all add: kept_def)

lemma moves_mono:
  "all_put J g \<subseteq># all_put J g' \<Longrightarrow> all_del J g \<subseteq># all_del J g' \<Longrightarrow> moves J g \<le> moves J g'"
  by (simp add: moves_def add_mono size_mset_mono)

lemma in_bucket_add [simp]: "in_bucket b (M + N) = in_bucket b M + in_bucket b N"
  by (simp add: in_bucket_def)

lemma in_bucket_mono: "M \<subseteq># N \<Longrightarrow> in_bucket b M \<le> in_bucket b N"
  by (simp add: in_bucket_def multiset_filter_mono size_mset_mono)

lemma sum_subseteq_mset:
  fixes f :: "'b \<Rightarrow> 'c multiset"
  shows "finite A \<Longrightarrow> (\<And>u. u \<in> A \<Longrightarrow> f u \<subseteq># h u) \<Longrightarrow> sum f A \<subseteq># sum h A"
  by (induction rule: finite_induct) (auto intro: subset_mset.add_mono)

lemma all_put_quota: "kept J s g \<Longrightarrow> all_put J g \<subseteq># whole_quota J"
  unfolding all_put_def whole_quota_def by (rule sum_subseteq_mset) (simp_all add: keptD)

text \<open>The number of slot changes is bounded.\<close>

definition max_moves :: "job \<Rightarrow> nat" where
  "max_moves J = size (jb_start J) + 2 * size (whole_quota J)"

lemma moves_le: "kept J s g \<Longrightarrow> moves J g \<le> max_moves J"
proof -
  assume k: "kept J s g"
  have "size (all_put J g) \<le> size (whole_quota J)" by (rule size_mset_mono [OF all_put_quota [OF k]])
  moreover have "size (lf_items s) + size (all_del J g) = size (jb_start J) + size (all_put J g)"
    using keptD(2) [OF k] by (metis size_union)
  ultimately show ?thesis by (simp add: moves_def max_moves_def)
qed

lemma known_item: "kept J s g \<Longrightarrow> it \<in># lf_items s \<Longrightarrow> it \<in># jb_start J + all_put J g"
  using keptD(2) [of J s g] by (metis union_iff)

section \<open>Tolerated changes compose\<close>

lemma entry_str_mono:
  assumes "h \<subseteq>\<^sub>m h'" "get_real_pointer p \<noteq> 0 \<longrightarrow> h (get_real_pointer p) \<noteq> None"
  shows "entry_str h' p = entry_str h p" "item_at ts h' b p = item_at ts h b p"
proof -
  show "entry_str h' p = entry_str h p"
    using assms by (auto simp: entry_str_def map_le_def dom_def)
  then show "item_at ts h' b p = item_at ts h b p" by (simp add: item_at_def)
qed

lemma quiet_live:
  assumes "lf_quiet ts n s" "b < ts" "i < NUM_ITEMS_PER_ENTRY"
  shows "get_real_pointer (lf_at s b i) \<noteq> 0 \<longrightarrow> lf_heap s (get_real_pointer (lf_at s b i)) \<noteq> None"
  using lf_quiet_slot(4) [OF assms] by auto

lemma lf_rely_refl [simp]: "lf_rely J t s g s g"
  by (simp add: lf_rely_def)

lemma lf_rely_slot:
  assumes "lf_rely J t s g s' g'" "b < jb_size J" "i < NUM_ITEMS_PER_ENTRY"
  shows "get_counter (lf_at s' b i) = get_counter (lf_at s b i)"
    "lf_at s' b i = lf_at s b i \<or> moves J g < moves J g' \<and> (get_real_pointer (lf_at s b i) = 0 \<or>
       item_at (jb_size J) (lf_heap s) b (lf_at s b i) \<in> jb_removable J)"
  using assms by (auto simp: lf_rely_def)

lemma lf_relyD:
  assumes "lf_rely J t s g s' g'"
  shows "bk_put g' t = bk_put g t" "bk_del g' t = bk_del g t" "bk_used g \<subseteq> bk_used g'"
    "all_put J g \<subseteq># all_put J g'" "all_del J g \<subseteq># all_del J g'" "lf_heap s \<subseteq>\<^sub>m lf_heap s'"
    "moves J g \<le> moves J g'"
  using assms moves_mono by (auto simp: lf_rely_def)

lemma lf_rely_trans:
  assumes q: "lf_quiet (jb_size J) n s" and 1: "lf_rely J t s g s' g'" and 2: "lf_rely J t s' g' s'' g''"
  shows "lf_rely J t s g s'' g''"
proof -
  note D1 = lf_relyD [OF 1] and D2 = lf_relyD [OF 2]
  have "get_counter (lf_at s'' b i) = get_counter (lf_at s b i) \<and>
        (lf_at s'' b i = lf_at s b i \<or> moves J g < moves J g'' \<and>
          (get_real_pointer (lf_at s b i) = 0 \<or>
           item_at (jb_size J) (lf_heap s) b (lf_at s b i) \<in> jb_removable J))"
    if b: "b < jb_size J" "i < NUM_ITEMS_PER_ENTRY" for b i
    using lf_rely_slot [OF 1 b] lf_rely_slot [OF 2 b] D1(7) D2(7)
      entry_str_mono(2) [OF D1(6) quiet_live [OF q b]]
    by auto
  then show ?thesis
    using D1 D2 by (auto simp: lf_rely_def intro: subset_mset.order_trans map_le_trans)
qed

lemma later_refl [simp]: "kept J s g \<Longrightarrow> later J t s g s g"
  by (simp add: later_def)

lemma later_trans:
  "kept J s g \<Longrightarrow> later J t s g s' g' \<Longrightarrow> later J t s' g' s'' g'' \<Longrightarrow> later J t s g s'' g''"
  using lf_rely_trans [OF keptD(1)] by (auto simp: later_def)

lemma later_kept: "later J t s g s' g' \<Longrightarrow> kept J s' g'"
  by (simp add: later_def)

lemmas later_slot = lf_rely_slot [OF later_def [THEN iffD1, THEN conjunct1]]
lemmas laterD = lf_relyD [OF later_def [THEN iffD1, THEN conjunct1]]

text \<open>Changes outside the table.\<close>

lemma outside_later:
  assumes k: "kept J s g" and "lf_at s' = lf_at s" "lf_heap s \<subseteq>\<^sub>m lf_heap s'"
    "lf_quiet (jb_size J) (jb_threads J) s'" "lf_items s' = lf_items s"
  shows "later J t s g s' g"
  using assms by (simp add: later_def lf_rely_def kept_def)

lemma haz_later: "kept J s g \<Longrightarrow> later J t s g (mark_hazard a j u s) g"
  using hazD [OF haz_mark [OF haz_refl], of a j u s] haz_quiet [OF haz_mark [OF haz_refl] keptD(1)]
  by (intro outside_later) simp_all

lemma retire_later: "kept J s g \<Longrightarrow> u < jb_threads J \<Longrightarrow> later J t s g (push_retired u a s) g"
  using lf_quiet_retired [OF keptD(1)] by (intro outside_later) (simp_all add: push_retired_heap)

lemma new_later:
  assumes "kept J s g" "lf_heap s a = None"
  shows "later J t s g (s\<lparr>lf_heap := (lf_heap s)(a \<mapsto> str)\<rparr>) g"
  using lf_quiet_new [OF keptD(1) [OF assms(1)] assms(2)] assms
  by (intro outside_later) (auto simp: map_le_def)

section \<open>The compare-and-swaps\<close>

text \<open>
  What thread \<open>t\<close> may swap into a slot: its next entry into a free one, nothing into one whose
  item may be removed; the counter stays.
\<close>

definition legal_swap :: "job \<Rightarrow> nat \<Rightarrow> u32 \<Rightarrow> nat \<Rightarrow> table_pointer \<Rightarrow> lf_filter \<Rightarrow> book \<Rightarrow> bool" where
  "legal_swap J t b i new s g \<longleftrightarrow>
     \<not> get_marked new \<and> get_counter new = get_counter (lf_at s b i) \<and>
     (if get_real_pointer (lf_at s b i) = 0
      then get_real_pointer new \<noteq> 0 \<and>
        (\<exists>str. lf_heap s (get_real_pointer new) = Some str \<and> str \<noteq> []) \<and>
        add_mset (item_at (jb_size J) (lf_heap s) b new) (bk_put g t) \<subseteq># jb_quota J t
      else get_real_pointer new = 0 \<and>
        item_at (jb_size J) (lf_heap s) b (lf_at s b i) \<in> jb_removable J)"

lemma sum_update_mset:
  fixes f :: "nat \<Rightarrow> 'c multiset"
  assumes "t < n"
  shows "(\<Sum>u < n. if u = t then add_mset x (f t) else f u) = add_mset x (\<Sum>u < n. f u)"
proof -
  have "sum h {..<n} = h t + sum h ({..<n} - {t})" for h :: "nat \<Rightarrow> 'c multiset"
    by (rule sum.remove) (use assms in auto)
  moreover have "(\<Sum>u \<in> {..<n} - {t}. if u = t then y else f u) = sum f ({..<n} - {t})" for y
    by (rule sum.cong) auto
  ultimately show ?thesis by simp
qed

lemma note_put:
  fixes g :: book and s :: lf_filter and new :: table_pointer and b ts :: u32 and i :: nat
  assumes "t < jb_threads J" "get_real_pointer old = 0"
  defines "g' \<equiv> note_swap ts t b i old new s g" and "it \<equiv> item_at ts (lf_heap s) b new"
  shows "all_put J g' = add_mset it (all_put J g)" "all_del J g' = all_del J g"
    "bk_put g' u = (if u = t then add_mset it (bk_put g t) else bk_put g u)"
    "bk_del g' = bk_del g" "bk_used g' = insert (b, i) (bk_used g)"
  using assms by (simp_all add: note_swap_def all_put_def all_del_def sum_update_mset)

lemma note_del:
  fixes g :: book and s :: lf_filter and new :: table_pointer and b ts :: u32 and i :: nat
  assumes "t < jb_threads J" "get_real_pointer old \<noteq> 0"
  defines "g' \<equiv> note_swap ts t b i old new s g" and "it \<equiv> item_at ts (lf_heap s) b old"
  shows "all_put J g' = all_put J g" "all_del J g' = add_mset it (all_del J g)"
    "bk_del g' u = (if u = t then add_mset it (bk_del g t) else bk_del g u)"
    "bk_put g' = bk_put g" "bk_used g' = bk_used g"
  using assms by (simp_all add: note_swap_def all_put_def all_del_def sum_update_mset)

lemma items_swap:
  assumes q: "lf_quiet ts n s" and b: "b < ts" "i < NUM_ITEMS_PER_ENTRY"
  shows "get_real_pointer (lf_at s b i) = 0 \<Longrightarrow> entry_str (lf_heap s) new \<noteq> [] \<Longrightarrow>
      lf_items (lf_put b i new s) = add_mset (item_at ts (lf_heap s) b new) (lf_items s)"
    and "get_real_pointer (lf_at s b i) \<noteq> 0 \<Longrightarrow> get_real_pointer new = 0 \<Longrightarrow>
      add_mset (item_at ts (lf_heap s) b (lf_at s b i)) (lf_items (lf_put b i new s)) = lf_items s"
proof -
  note put = lf_items_put [OF q b, of new, unfolded lf_str_def]
  show "lf_items (lf_put b i new s) = add_mset (item_at ts (lf_heap s) b new) (lf_items s)"
    if "get_real_pointer (lf_at s b i) = 0" "entry_str (lf_heap s) new \<noteq> []"
    using put that by (simp add: item_at_def slot_contents_def entry_str_def [of _ "lf_at s b i"])
  show "add_mset (item_at ts (lf_heap s) b (lf_at s b i)) (lf_items (lf_put b i new s)) = lf_items s"
    if "get_real_pointer (lf_at s b i) \<noteq> 0" "get_real_pointer new = 0"
    using put that lf_quiet_slot(3) [OF q b, unfolded lf_str_def]
    by (simp add: item_at_def slot_contents_def entry_str_def [of _ new])
qed

lemma used_card:
  "card {j. j < NUM_ITEMS_PER_ENTRY \<and> (c, j) \<in> insert (b, i) U} \<le>
     (if c = b then 1 else 0) + card {j. j < NUM_ITEMS_PER_ENTRY \<and> (c, j) \<in> U}"
proof (cases "c = b")
  case True
  have "{j. j < NUM_ITEMS_PER_ENTRY \<and> (c, j) \<in> insert (b, i) U} \<subseteq>
      insert i {j. j < NUM_ITEMS_PER_ENTRY \<and> (c, j) \<in> U}"
    by auto
  then have "card {j. j < NUM_ITEMS_PER_ENTRY \<and> (c, j) \<in> insert (b, i) U} \<le>
      card (insert i {j. j < NUM_ITEMS_PER_ENTRY \<and> (c, j) \<in> U})"
    by (intro card_mono) simp_all
  also have "\<dots> \<le> Suc (card {j. j < NUM_ITEMS_PER_ENTRY \<and> (c, j) \<in> U})"
    by (rule card_insert_le_m1) simp_all
  finally show ?thesis using True by simp
qed simp

lemma swap_keeps:
  assumes k: "kept J s g" and t: "t < jb_threads J" and b: "b < jb_size J" "i < NUM_ITEMS_PER_ENTRY"
    and legal: "legal_swap J t b i new s g"
  defines "s' \<equiv> lf_put b i new s" and "g' \<equiv> note_swap (jb_size J) t b i (lf_at s b i) new s g"
  shows "kept J s' g' \<and> (u \<noteq> t \<longrightarrow> lf_rely J u s g s' g') \<and> bk_used g \<subseteq> bk_used g' \<and>
      all_put J g \<subseteq># all_put J g' \<and> moves J g < moves J g'"
proof -
  note q = keptD(1) [OF k] and inv = lf_quietD(1) [OF keptD(1) [OF k]]
  note at = lf_at_put [OF inv b, of new, folded s'_def]
  have heap: "lf_heap s' = lf_heap s" by (simp add: s'_def lf_put_heap)
  have mem: "b \<in> snd (item_at (jb_size J) h b p)" for h p by (simp add: item_at_def home_def)
  have quiet: "lf_quiet (jb_size J) (jb_threads J) s'"
    unfolding s'_def using legal by (intro lf_quiet_put [OF q b]) (auto simp: legal_swap_def split: if_splits)
  show ?thesis
  proof (cases "get_real_pointer (lf_at s b i) = 0")
    case True
    note N = note_put [OF t True, where s = s and g = g and ts = "jb_size J" and b = b and i = i
        and new = new, folded g'_def]
    have new: "get_real_pointer new \<noteq> 0" "entry_str (lf_heap s) new \<noteq> []"
      "add_mset (item_at (jb_size J) (lf_heap s) b new) (bk_put g t) \<subseteq># jb_quota J t"
      using legal True by (auto simp: legal_swap_def entry_str_def)
    have "card {j. j < NUM_ITEMS_PER_ENTRY \<and> (c, j) \<in> bk_used g'} \<le>
        in_bucket c (jb_start J + all_put J g')" if "c < jb_size J" for c
      using used_card [of c b i "bk_used g"] keptD(4) [OF k that] mem [of "lf_heap s" new]
      unfolding N(1,5) by (auto simp: in_bucket_def split: if_splits)
    moreover have "lf_items s' + all_del J g' = jb_start J + all_put J g'"
      unfolding N(1,2) s'_def items_swap(1) [OF q b True new(2)] using keptD(2) [OF k] by simp
    ultimately have "kept J s' g'"
      using keptD(3,5) [OF k] new(3) quiet by (auto simp: kept_def N at)
    moreover have "moves J g < moves J g'" by (simp add: moves_def N(1,2))
    moreover have "lf_rely J u s g s' g'" if "u \<noteq> t"
      using that legal True calculation(2) heap
      by (auto simp: lf_rely_def N at legal_swap_def)
    ultimately show ?thesis by (auto simp: N)
  next
    case False
    note N = note_del [OF t False, where s = s and g = g and ts = "jb_size J" and b = b and i = i
        and new = new, folded g'_def]
    have new: "get_real_pointer new = 0" using legal False by (simp add: legal_swap_def)
    have "lf_items s' + all_del J g' = jb_start J + all_put J g'"
      unfolding N(1,2) keptD(2) [OF k, symmetric] items_swap(2) [OF q b False new, symmetric] s'_def
      by simp
    then have "kept J s' g'"
      using keptD(3-5) [OF k] new quiet by (auto simp: kept_def N at)
    moreover have "moves J g < moves J g'" by (simp add: moves_def N(1,2))
    moreover have "lf_rely J u s g s' g'" if "u \<noteq> t"
      using that legal False calculation(2) heap
      by (auto simp: lf_rely_def N at legal_swap_def)
    ultimately show ?thesis by (auto simp: N)
  qed
qed

section \<open>Programs with a book\<close>

text \<open>
  \<open>lf_mix J t Q p n s g\<close>: thread \<open>t\<close> with program \<open>p\<close>, in state \<open>s\<close> with book \<open>g\<close>, makes at most
  \<open>n\<close> actions, all defined and every swap legal, and returns with a result satisfying \<open>Q\<close>, whatever
  the other threads do that it tolerates. It does not end by \<open>abort\<close>, except where an
  allocation is refused.
\<close>

primrec lf_mix ::
  "job \<Rightarrow> nat \<Rightarrow> ('a \<Rightarrow> lf_filter \<Rightarrow> book \<Rightarrow> bool) \<Rightarrow> 'a lf_prog \<Rightarrow> nat \<Rightarrow> lf_filter \<Rightarrow> book \<Rightarrow> bool" where
  "lf_mix J t Q (LRet a) n s g = (\<forall>s' g'. later J t s g s' g' \<longrightarrow> Q a s' g')"
| "lf_mix J t Q LAbort n s g = False"
| "lf_mix J t Q LFault n s g = False"
| "lf_mix J t Q LOut n s g = False"
| "lf_mix J t Q (LLoad b i k) n s g = (0 < n \<and> b < jb_size J \<and> i < NUM_ITEMS_PER_ENTRY \<and>
     (\<forall>s' g'. later J t s g s' g' \<longrightarrow> lf_mix J t Q (k (lf_at s' b i)) (n - 1) s' g'))"
| "lf_mix J t Q (LCas b i old new k) n s g = (0 < n \<and> b < jb_size J \<and> i < NUM_ITEMS_PER_ENTRY \<and>
     (\<forall>s' g'. later J t s g s' g' \<longrightarrow>
       (if lf_at s' b i = old
        then legal_swap J t b i new s' g' \<and>
          lf_mix J t Q (k True) (n - 1) (lf_put b i new s') (note_swap (jb_size J) t b i old new s' g')
        else lf_mix J t Q (k False) (n - 1) s' g')))"
| "lf_mix J t Q (LDeref a k) n s g = (0 < n \<and>
     (\<exists>str. lf_heap s a = Some str \<and> lf_mix J t Q (k str) (n - 1) s g))"
| "lf_mix J t Q (LNew str k) n s g = (0 < n \<and> (\<forall>a s' g'. later J t s g s' g' \<longrightarrow>
     fits a \<longrightarrow> a \<noteq> 0 \<longrightarrow> lf_heap s' a = Some str \<longrightarrow> lf_mix J t Q (k a) (n - 1) s' g'))"
| "lf_mix J t Q (LHazard u j a p) n s g =
     (0 < n \<and> u = t \<and> j < MAX_HAZARD_POINTER_COUNT \<and> lf_mix J t Q p (n - 1) s g)"
| "lf_mix J t Q (LRetire u a p) n s g = (0 < n \<and> u = t \<and> lf_mix J t Q p (n - 1) s g)"
| "lf_mix J t Q (LShuffle k) n s g = False"

lemma lf_mix_later:
  "kept J s g \<Longrightarrow> later J t s g s' g' \<Longrightarrow> lf_mix J t Q p n s g \<Longrightarrow> lf_mix J t Q p n s' g'"
proof (induction p arbitrary: n)
  case (LDeref a k)
  then obtain str where "lf_heap s a = Some str" "lf_mix J t Q (k str) (n - 1) s g" "0 < n"
    by auto
  moreover from this(1) have "lf_heap s' a = Some str"
    using laterD(6) [OF LDeref.prems(2)] by (auto simp: map_le_def dom_def)
  ultimately show ?case using LDeref.IH [OF _ LDeref.prems(1,2)] by auto
next
  case (LCas b i old new k)
  then show ?case using later_trans [OF LCas.prems(1,2)] unfolding lf_mix.simps by blast
next
  case (LNew str k)
  then show ?case using later_trans [OF LNew.prems(1,2)] by simp
next
  case (LLoad b i k)
  then show ?case using later_trans [OF LLoad.prems(1,2)] by simp
qed (use later_trans in auto)

lemma lf_mix_mono: "lf_mix J t Q p n s g \<Longrightarrow> n \<le> m \<Longrightarrow> lf_mix J t Q p m s g"
proof (induction p arbitrary: n m s g)
  case (LCas b i old new k)
  have "lf_mix J t Q (k v) (m - 1) s' g'" if "lf_mix J t Q (k v) (n - 1) s' g'" for v s' g'
    by (rule LCas.IH [OF _ that]) (use LCas.prems(2) in auto)
  with LCas.prems show ?case by (auto simp: if_bool_eq_conj simp del: One_nat_def)
next
  case (LDeref a k)
  have "lf_mix J t Q (k v) (m - 1) s g" if "lf_mix J t Q (k v) (n - 1) s g" for v
    by (rule LDeref.IH [OF _ that]) (use LDeref.prems(2) in auto)
  with LDeref.prems show ?case by auto
next
  case (LNew str k)
  have "lf_mix J t Q (k a) (m - 1) s' g'" if "lf_mix J t Q (k a) (n - 1) s' g'" for a s' g'
    by (rule LNew.IH [OF _ that]) (use LNew.prems(2) in auto)
  with LNew.prems show ?case by auto
next
  case (LLoad b i k)
  have "lf_mix J t Q (k v) (m - 1) s' g'" if "lf_mix J t Q (k v) (n - 1) s' g'" for v s' g'
    by (rule LLoad.IH [OF _ that]) (use LLoad.prems(2) in auto)
  with LLoad.prems show ?case by auto
qed (auto dest: diff_le_mono)

lemma lf_mix_bind:
  assumes "lf_mix J t R p n s g" "kept J s g" "t < jb_threads J"
    and "\<And>a s' g'. kept J s' g' \<Longrightarrow> R a s' g' \<Longrightarrow> lf_mix J t Q (f a) m s' g'"
  shows "lf_mix J t Q (lf_bind p f) (n + m) s g"
  using assms(1,2)
proof (induction p arbitrary: n s g)
  case (LRet a)
  then have "R a s g" by simp
  then have "lf_mix J t Q (f a) m s g" by (rule assms(4) [OF LRet.prems(2)])
  then show ?case using lf_mix_mono [of J t Q "f a" m s g "n + m"] by simp
next
  case (LLoad b i k)
  have "lf_mix J t Q (lf_bind (k v) f) (n - 1 + m) s' g'"
    if "later J t s g s' g'" "lf_mix J t R (k v) (n - 1) s' g'" for v s' g'
    by (rule LLoad.IH [OF _ that(2) later_kept [OF that(1)]]) simp
  with LLoad.prems(1) show ?case by simp
next
  case (LCas b i old new k)
  have IH: "lf_mix J t Q (lf_bind (k v) f) (n - 1 + m) s' g'"
    if "kept J s' g'" "lf_mix J t R (k v) (n - 1) s' g'" for v s' g'
    by (rule LCas.IH [OF _ that(2,1)]) simp
  have b: "b < jb_size J" "i < NUM_ITEMS_PER_ENTRY" "0 < n" using LCas.prems(1) by simp_all
  have "if lf_at s' b i = old
      then legal_swap J t b i new s' g' \<and> lf_mix J t Q (lf_bind (k True) f) (n - 1 + m)
        (lf_put b i new s') (note_swap (jb_size J) t b i old new s' g')
      else lf_mix J t Q (lf_bind (k False) f) (n - 1 + m) s' g'" if l: "later J t s g s' g'" for s' g'
  proof -
    have R: "if lf_at s' b i = old then legal_swap J t b i new s' g' \<and>
          lf_mix J t R (k True) (n - 1) (lf_put b i new s') (note_swap (jb_size J) t b i old new s' g')
        else lf_mix J t R (k False) (n - 1) s' g'"
      using LCas.prems(1) l unfolding lf_mix.simps by blast
    show ?thesis
    proof (cases "lf_at s' b i = old")
      case True
      with R have "kept J (lf_put b i new s') (note_swap (jb_size J) t b i old new s' g')"
        using swap_keeps [OF later_kept [OF l] assms(3) b(1,2), of new] by simp
      with R True IH show ?thesis by simp
    next
      case False
      with R IH [OF later_kept [OF l]] show ?thesis by simp
    qed
  qed
  moreover have "0 < n + m" "n - 1 + m = n + m - 1" using b(3) by simp_all
  ultimately show ?case unfolding lf_mix.simps lf_bind.simps using b by metis
next
  case (LDeref a k)
  have "lf_mix J t Q (lf_bind (k v) f) (n - 1 + m) s g" if "lf_mix J t R (k v) (n - 1) s g" for v
    by (rule LDeref.IH [OF _ that LDeref.prems(2)]) simp
  with LDeref.prems(1) show ?case by auto
next
  case (LNew str k)
  have "lf_mix J t Q (lf_bind (k a) f) (n - 1 + m) s' g'"
    if "later J t s g s' g'" "lf_mix J t R (k a) (n - 1) s' g'" for a s' g'
    by (rule LNew.IH [OF _ that(2) later_kept [OF that(1)]]) simp
  with LNew.prems(1) show ?case by simp
next
  case (LHazard u j a p)
  then show ?case using LHazard.IH [of "n - 1" s g] by simp
next
  case (LRetire u a p)
  then show ?case using LRetire.IH [of "n - 1" s g] by simp
qed auto

lemma lf_mix_weaken:
  assumes "lf_mix J t R p n s g" "kept J s g" "t < jb_threads J" "n \<le> m"
    and "\<And>a s' g'. kept J s' g' \<Longrightarrow> R a s' g' \<Longrightarrow> Q a s' g'"
    and "\<And>a s' g' s'' g''. kept J s' g' \<Longrightarrow> Q a s' g' \<Longrightarrow> later J t s' g' s'' g'' \<Longrightarrow> Q a s'' g''"
  shows "lf_mix J t Q p m s g"
proof -
  have "lf_mix J t Q (lf_bind p LRet) (n + 0) s g"
  proof (rule lf_mix_bind [OF assms(1-3)])
    fix a s' g' assume k: "kept J s' g'" and "R a s' g'"
    then have "Q a s' g'" by (rule assms(5))
    then show "lf_mix J t Q (LRet a) 0 s' g'" using assms(6) [OF k] by simp
  qed
  then show ?thesis using lf_mix_mono [OF _ assms(4)] by simp
qed

declare lf_mix.simps(5-11) [simp del]

lemma lf_mix_act:
  assumes ok: "env_ok env" "t < jb_threads J" and k: "kept J s g" and mix: "lf_mix J t Q p n s g"
    and act: "lf_act env t p s = Some (p', s')"
  defines "g' \<equiv> note_act (jb_size J) t p s g"
  shows "kept J s' g' \<and> 0 < n \<and> (lf_mix J t Q p' (n - 1) s' g' \<or>
      p' = LAbort \<and> (\<exists>str k. p = LNew str k) \<and> env_alloc env (lf_heap s) = None) \<and>
    (\<forall>u. u \<noteq> t \<longrightarrow> lf_rely J u s g s' g')"
proof -
  have do: "lf_do env p s = (p', s')" using act by (auto simp: lf_act_def split: if_splits)
  note here = later_refl [OF k, of t]
  have result: ?thesis if "later J u s g s' g" "g' = g" "0 < n" "lf_mix J t Q p' (n - 1) s' g" for u
  proof -
    have "lf_rely J v s g s' g" for v
      using that(1) by (simp add: later_def lf_rely_def)
    then show ?thesis unfolding that(2) using that(3,4) later_kept [OF that(1)] by blast
  qed
  show ?thesis
  proof (cases p)
    case (LLoad b i k)
    with mix do here show ?thesis by (intro result [of t]) (auto simp: lf_mix.simps g'_def)
  next
    case (LCas b i old new k)
    have m: "0 < n" "b < jb_size J" "i < NUM_ITEMS_PER_ENTRY"
      "if lf_at s b i = old then legal_swap J t b i new s g \<and>
          lf_mix J t Q (k True) (n - 1) (lf_put b i new s) (note_swap (jb_size J) t b i old new s g)
        else lf_mix J t Q (k False) (n - 1) s g"
      using mix here unfolding LCas lf_mix.simps by blast+
    show ?thesis
    proof (cases "lf_at s b i = old")
      case True
      then show ?thesis
        using m do LCas swap_keeps [OF \<open>kept J s g\<close> ok(2) m(2,3), of new] by (auto simp: g'_def)
    next
      case False
      then show ?thesis using m do LCas \<open>kept J s g\<close> by (auto simp: g'_def)
    qed
  next
    case (LDeref a k)
    with mix do \<open>kept J s g\<close> show ?thesis by (auto simp: lf_mix.simps g'_def)
  next
    case (LNew str k)
    show ?thesis
    proof (cases "env_alloc env (lf_heap s)")
      case None
      then show ?thesis using LNew mix do \<open>kept J s g\<close> by (auto simp: lf_mix.simps g'_def)
    next
      case (Some a)
      with env_ok_alloc [OF ok(1)] have a: "fits a" "a \<noteq> 0" "lf_heap s a = None" by auto
      have "s' = s\<lparr>lf_heap := (lf_heap s)(a \<mapsto> str)\<rparr>" "p' = k a" using do LNew Some by simp_all
      then show ?thesis
        using mix a new_later [OF \<open>kept J s g\<close> a(3)] LNew
        by (intro result [of t]) (auto simp: lf_mix.simps g'_def)
    qed
  next
    case (LHazard u j a q)
    then show ?thesis
      using mix do haz_later [OF k] lf_mix_later [OF k haz_later [OF k]]
      by (intro result) (auto simp: lf_mix.simps g'_def)
  next
    case (LRetire u a q)
    then show ?thesis
      using mix do retire_later [OF k ok(2)] lf_mix_later [OF k retire_later [OF k ok(2)]]
      by (intro result) (auto simp: lf_mix.simps g'_def)
  qed (use mix act in \<open>auto simp: lf_mix.simps lf_act_def\<close>)
qed

end
