(* ===== verification/Lock_Free_Mixed.thy ===== *)
theory Lock_Free_Mixed
  imports Lock_Free_Book
begin

text \<open>
  All three operations at once, in any number of threads, as long as nothing has to be evicted:
  if every inserted key has a bucket in which all items that may ever be there fit, then under
  every schedule no slot is ever marked, every insertion succeeds, no item is lost or
  duplicated, and the calls take a bounded number of actions.
\<close>

section \<open>One rule per action\<close>

lemma lf_mix_load:
  assumes "b < jb_size J" "i < NUM_ITEMS_PER_ENTRY"
    and "\<And>s' g'. later J t s g s' g' \<Longrightarrow> lf_mix J t Q (k (lf_at s' b i)) n s' g'"
  shows "lf_mix J t Q (LLoad b i k) (Suc n) s g"
  using assms by (simp add: lf_mix.simps)

lemma lf_mix_clear:
  "lf_mix J t Q p n s g \<Longrightarrow> lf_mix J t Q (lf_clear_hazard t p) (Suc (Suc n)) s g"
  by (simp add: lf_clear_hazard_def lf_mix.simps MAX_HAZARD_POINTER_COUNT_def)

text \<open>
  Announce the entry of a slot that has been loaded, follow the pointer, and go on in \<open>next_step\<close>
  when the string is another one.
\<close>

lemma lf_mix_look:
  assumes k: "kept J s g" and b: "b < jb_size J" "i < NUM_ITEMS_PER_ENTRY"
    and "j < MAX_HAZARD_POINTER_COUNT" "fp \<noteq> []" and p: "p = lf_at s b i"
    and hit: "lf_str s b i = fp \<Longrightarrow> lf_mix J t Q (LRet r) n s g"
    and miss: "lf_str s b i \<noteq> fp \<Longrightarrow> lf_mix J t Q next_step n s g"
  shows "lf_mix J t Q (LHazard t j (get_real_pointer p)
    (if get_real_pointer p \<noteq> 0 then
       if get_marked p then helped
       else LDeref (get_real_pointer p) (\<lambda>str. if fp = str then LRet r else next_step)
     else next_step)) (Suc (Suc n)) s g"
proof -
  note slot = lf_quiet_slot [OF keptD(1) [OF k] b, folded p]
  show ?thesis
  proof (cases "get_real_pointer p = 0")
    case True
    then show ?thesis
      using lf_mix_mono [OF miss, of "Suc n"] slot(3) assms(4,5) by (auto simp: lf_mix.simps(9))
  next
    case False
    then show ?thesis
      using slot(2,4) hit miss assms(4) by (auto simp: lf_mix.simps(7,9))
  qed
qed

section \<open>\<open>find\<close>\<close>

text \<open>
  \<open>seen\<close>: the slot held \<open>p\<close>, an entry with the fingerprint, at some time since \<open>(s0, g0)\<close>.
  \<open>missed\<close>: the slot did not hold the fingerprint in \<open>s0\<close>, unless its item may be removed.
\<close>

definition seen ::
  "job \<Rightarrow> book \<Rightarrow> u32 \<Rightarrow> nat \<Rightarrow> bytes \<Rightarrow> table_pointer \<Rightarrow> lf_filter \<Rightarrow> book \<Rightarrow> bool" where
  "seen J g0 b i fp p s g \<longleftrightarrow> get_real_pointer p \<noteq> 0 \<and> lf_heap s (get_real_pointer p) = Some fp \<and>
     (lf_at s b i = p \<or> moves J g0 < moves J g) \<and>
     (fp, home (jb_size J) b fp) \<in># jb_start J + all_put J g"

definition missed :: "job \<Rightarrow> lf_filter \<Rightarrow> u32 \<Rightarrow> bytes \<Rightarrow> nat \<Rightarrow> bool" where
  "missed J s0 b fp i \<longleftrightarrow> lf_str s0 b i \<noteq> fp \<or> (fp, home (jb_size J) b fp) \<in> jb_removable J"

lemma lf_items_iff:
  assumes q: "lf_quiet ts n s"
  shows "it \<in># lf_items s \<longleftrightarrow> (\<exists>b < ts. \<exists>i < NUM_ITEMS_PER_ENTRY.
    get_real_pointer (lf_at s b i) \<noteq> 0 \<and> it = item_at ts (lf_heap s) b (lf_at s b i))"
  unfolding lf_items_def items_def in_contents_iff lf_quietD(2) [OF q] item_at_def
    lf_str_def [symmetric]
  using cell_lf_view [OF lf_quietD(1) [OF q]] lf_quiet_slot(3) [OF q] by (simp cong: conj_cong)

lemma later_item_at:
  assumes k: "kept J s g" and l: "later J t s g s' g'" and b: "b < jb_size J" "i < NUM_ITEMS_PER_ENTRY"
  shows "item_at (jb_size J) (lf_heap s') b (lf_at s b i) = item_at (jb_size J) (lf_heap s) b (lf_at s b i)"
    "entry_str (lf_heap s') (lf_at s b i) = lf_str s b i"
  using entry_str_mono [OF laterD(6) [OF l] quiet_live [OF keptD(1) [OF k] b]]
  by (simp_all add: lf_str_def)

lemma later_missed:
  assumes k: "kept J s0 g0" and l: "later J t s0 g0 s g"
    and b: "b < jb_size J" "i < NUM_ITEMS_PER_ENTRY" "fp \<noteq> []" and ne: "lf_str s b i \<noteq> fp"
  shows "missed J s0 b fp i"
proof (rule ccontr)
  assume "\<not> missed J s0 b fp i"
  then have str: "lf_str s0 b i = fp" and X: "(fp, home (jb_size J) b fp) \<notin> jb_removable J"
    by (auto simp: missed_def)
  then have "item_at (jb_size J) (lf_heap s0) b (lf_at s0 b i) \<notin> jb_removable J"
    by (simp add: item_at_def lf_str_def)
  moreover have "get_real_pointer (lf_at s0 b i) \<noteq> 0"
    using str b(3) by (auto simp: lf_str_def entry_str_def)
  ultimately have "lf_at s b i = lf_at s0 b i" using later_slot(2) [OF l b(1,2)] by blast
  with later_item_at(2) [OF k l b(1,2)] str ne show False by (simp add: lf_str_def)
qed

lemma seen_now:
  assumes k: "kept J s g" and b: "b < jb_size J" "i < NUM_ITEMS_PER_ENTRY"
    and str: "lf_str s b i = fp" "fp \<noteq> []"
  shows "seen J g0 b i fp (lf_at s b i) s g"
proof -
  note slot = lf_quiet_slot [OF keptD(1) [OF k] b]
  have p: "get_real_pointer (lf_at s b i) \<noteq> 0" using slot(3) str by simp
  then have "item_at (jb_size J) (lf_heap s) b (lf_at s b i) \<in># lf_items s"
    unfolding lf_items_iff [OF keptD(1) [OF k]] using b by blast
  from known_item [OF k this] have "(fp, home (jb_size J) b fp) \<in># jb_start J + all_put J g"
    using str by (simp add: item_at_def lf_str_def)
  with p slot(4) str show ?thesis by (simp add: seen_def)
qed

lemma seen_later:
  assumes "seen J g0 b i fp p s g" "later J t s g s' g'" "moves J g0 \<le> moves J g"
    "b < jb_size J" "i < NUM_ITEMS_PER_ENTRY"
  shows "seen J g0 b i fp p s' g'"
  using assms later_slot(2) [OF assms(2,4,5)] laterD(4,6,7) [OF assms(2)]
  by (auto simp: seen_def map_le_def dom_def dest: mset_subset_eqD)

definition slot_result ::
  "job \<Rightarrow> lf_filter \<Rightarrow> book \<Rightarrow> u32 \<Rightarrow> u32 \<Rightarrow> bytes \<Rightarrow> nat \<Rightarrow> (nat \<times> table_pointer) option \<Rightarrow>
   lf_filter \<Rightarrow> book \<Rightarrow> bool" where
  "slot_result J s0 g0 b1 b2 fp i r s g =
     (case r of None \<Rightarrow> missed J s0 b1 fp i \<and> missed J s0 b2 fp i
      | Some (l, p) \<Rightarrow> (l = i \<and> seen J g0 b1 i fp p s g) \<or>
          (l = i + NUM_ITEMS_PER_ENTRY \<and> seen J g0 b2 i fp p s g))"

lemma slot_result_later:
  assumes "slot_result J s0 g0 b1 b2 fp i r s g" "later J t s g s' g'" "moves J g0 \<le> moves J g"
    "b1 < jb_size J" "b2 < jb_size J" "i < NUM_ITEMS_PER_ENTRY"
  shows "slot_result J s0 g0 b1 b2 fp i r s' g'"
  using assms seen_later [OF _ assms(2,3) _ assms(6)]
  by (auto simp: slot_result_def split: option.splits)

text \<open>A result with what has happened since the call began.\<close>

definition since ::
  "job \<Rightarrow> nat \<Rightarrow> lf_filter \<Rightarrow> book \<Rightarrow> ('a \<Rightarrow> lf_filter \<Rightarrow> book \<Rightarrow> bool) \<Rightarrow> 'a \<Rightarrow> lf_filter \<Rightarrow> book \<Rightarrow> bool" where
  "since J t s0 g0 Q r s g \<longleftrightarrow> later J t s0 g0 s g \<and> Q r s g"

lemma lf_mix_recheck:
  assumes k0: "kept J s0 g0" and k: "kept J s g" and l: "later J t s0 g0 s g"
    and b: "b1 < jb_size J" "b2 < jb_size J" "i < NUM_ITEMS_PER_ENTRY"
    and "missed J s0 b1 fp i" "missed J s0 b2 fp i"
    and "c1 = get_counter (lf_at s b1 i)" "c2 = get_counter (lf_at s b2 i)"
  shows "lf_mix J t (since J t s0 g0 (slot_result J s0 g0 b1 b2 fp i))
    (LLoad b1 i (\<lambda>p1. LLoad b2 i (\<lambda>p2.
      if check_counter (ucast c1) (ucast c2) (ucast (get_counter p1)) (ucast (get_counter p2))
      then again else LRet None))) 2 s g"
  unfolding numeral_2_eq_2
proof (intro lf_mix_load b)
  fix s1 g1 s2 g2
  assume l1: "later J t s g s1 g1" and l2: "later J t s1 g1 s2 g2"
  have "get_counter (lf_at s1 b1 i) = c1" "get_counter (lf_at s2 b2 i) = c2"
    using later_slot(1) [OF l1 b(1,3)] later_slot(1) [OF later_trans [OF k l1 l2] b(2,3)] assms(9,10)
    by simp_all
  moreover have "later J t s0 g0 s3 g3" if "later J t s2 g2 s3 g3" for s3 g3
    using later_trans [OF k0 l later_trans [OF k l1 later_trans [OF later_kept [OF l1] l2 that]]] .
  ultimately show "lf_mix J t (since J t s0 g0 (slot_result J s0 g0 b1 b2 fp i))
      (if check_counter (ucast c1) (ucast c2) (ucast (get_counter (lf_at s1 b1 i)))
          (ucast (get_counter (lf_at s2 b2 i)))
       then again else LRet None) 0 s2 g2"
    using assms(7,8) by (simp add: since_def slot_result_def)
qed

text \<open>A hit in the slot just loaded.\<close>

lemma slot_result_now:
  assumes k0: "kept J s0 g0" and l: "later J t s0 g0 s g"
    and b: "b1 < jb_size J" "b2 < jb_size J" "i < NUM_ITEMS_PER_ENTRY" "fp \<noteq> []"
    and r: "b = b1 \<and> loc = i \<or> b = b2 \<and> loc = i + NUM_ITEMS_PER_ENTRY" and "lf_str s b i = fp"
  shows "lf_mix J t (since J t s0 g0 (slot_result J s0 g0 b1 b2 fp i))
    (LRet (Some (loc, lf_at s b i))) n s g"
proof -
  have bs: "b < jb_size J" using r b by auto
  have "slot_result J s0 g0 b1 b2 fp i (Some (loc, lf_at s b i)) s g"
    using seen_now [OF later_kept [OF l] bs b(3) assms(8) b(4), of g0] r by (auto simp: slot_result_def)
  from slot_result_later [OF this _ laterD(7) [OF l] b(1-3)] later_trans [OF k0 l]
  show ?thesis by (simp add: since_def)
qed

lemma lf_mix_find_slot:
  assumes k0: "kept J s0 g0" and l: "later J t s0 g0 s g"
    and b: "b1 < jb_size J" "b2 < jb_size J" "i < NUM_ITEMS_PER_ENTRY" "fp \<noteq> []"
  shows "lf_mix J t (since J t s0 g0 (slot_result J s0 g0 b1 b2 fp i))
    (lf_find_slot (Suc m) fuel (jb_size J) b1 b2 fp t i) 8 s g"
  unfolding lf_find_slot.simps(2) Let_def numeral_eq_Suc pred_numeral_simps BitM.simps
proof (intro lf_mix_load b(1-3), rule lf_mix_look [OF _ b(1,3) _ b(4) refl], goal_cases)
  case (3 s1 g1)
  note l1 = later_trans [OF k0 l 3(1)]
  show ?case by (rule slot_result_now [OF k0 l1 b]) (use 3 in simp_all)
next
  case (4 s1 g1)
  note l1 = later_trans [OF k0 l 4(1)]
  have m1: "missed J s0 b1 fp i" by (rule later_missed [OF k0 l1 b(1,3,4) 4(2)])
  show ?case
  proof (intro lf_mix_load b(2,3), rule lf_mix_look [OF _ b(2,3) _ b(4) refl], goal_cases)
    case (3 s2 g2)
    note l2 = later_trans [OF k0 l1 3(1)]
    show ?case by (rule slot_result_now [OF k0 l2 b]) (use 3 in simp_all)
  next
    case (4 s2 g2)
    note l2 = later_trans [OF k0 l1 4(1)]
    show ?case
      unfolding numeral_2_eq_2 [symmetric]
      by (rule lf_mix_recheck [OF k0 later_kept [OF l2] l2 b(1-3) m1
            later_missed [OF k0 l2 b(2,3,4) 4(2)]])
        (use later_slot(1) [OF 4(1) b(1,3)] in simp_all)
  qed (auto simp: MAX_HAZARD_POINTER_COUNT_def later_kept)
qed (auto simp: MAX_HAZARD_POINTER_COUNT_def later_kept)

text \<open>The scan: a location with the entry seen there, or 8 and the fingerprint missed everywhere.\<close>

definition scan_result ::
  "job \<Rightarrow> lf_filter \<Rightarrow> book \<Rightarrow> u32 \<Rightarrow> u32 \<Rightarrow> bytes \<Rightarrow> nat list \<Rightarrow> nat \<times> table_pointer \<Rightarrow>
   lf_filter \<Rightarrow> book \<Rightarrow> bool" where
  "scan_result J s0 g0 b1 b2 fp is r s g =
     (if fst r = NUM_ITEMS_PER_ENTRY * 2
      then \<forall>i \<in> set is. missed J s0 b1 fp i \<and> missed J s0 b2 fp i
      else \<exists>i \<in> set is. slot_result J s0 g0 b1 b2 fp i (Some r) s g)"

lemma lf_mix_find_slots:
  assumes k0: "kept J s0 g0" and t: "t < jb_threads J"
    and b: "b1 < jb_size J" "b2 < jb_size J" "fp \<noteq> []" and fuel: "0 < fuel"
  shows "later J t s0 g0 s g \<Longrightarrow> set is \<subseteq> {..<NUM_ITEMS_PER_ENTRY} \<Longrightarrow>
    lf_mix J t (since J t s0 g0 (scan_result J s0 g0 b1 b2 fp is))
      (lf_find_slots is fuel (jb_size J) b1 b2 fp ptr t) (8 * length is) s g"
proof (induction "is" arbitrary: s g)
  case Nil
  then show ?case using later_trans [OF k0] by (auto simp: since_def scan_result_def)
next
  case (Cons i "is")
  obtain m where m: "fuel = Suc m" using fuel gr0_implies_Suc by blast
  have i: "i < NUM_ITEMS_PER_ENTRY" "set is \<subseteq> {..<NUM_ITEMS_PER_ENTRY}" using Cons.prems(2) by simp_all
  have "lf_mix J t (since J t s0 g0 (scan_result J s0 g0 b1 b2 fp (i # is)))
      (lf_find_slots (i # is) fuel (jb_size J) b1 b2 fp ptr t) (8 + 8 * length is) s g"
    unfolding lf_find_slots.simps m
  proof (rule lf_mix_bind [OF lf_mix_find_slot [OF k0 Cons.prems(1) b(1,2) i(1) b(3)] later_kept [OF Cons.prems(1)] t])
    fix r s' g'
    assume k: "kept J s' g'" and r: "since J t s0 g0 (slot_result J s0 g0 b1 b2 fp i) r s' g'"
    then have l: "later J t s0 g0 s' g'" by (simp add: since_def)
    show "lf_mix J t (since J t s0 g0 (scan_result J s0 g0 b1 b2 fp (i # is)))
        (case r of None \<Rightarrow> lf_find_slots is (Suc m) (jb_size J) b1 b2 fp ptr t | Some x \<Rightarrow> LRet x)
        (8 * length is) s' g'"
    proof (cases r)
      case None
      with r have miss: "missed J s0 b1 fp i" "missed J s0 b2 fp i"
        by (simp_all add: since_def slot_result_def)
      have "lf_mix J t (since J t s0 g0 (scan_result J s0 g0 b1 b2 fp (i # is)))
          (lf_find_slots is fuel (jb_size J) b1 b2 fp ptr t) (8 * length is) s' g'"
      proof (rule lf_mix_weaken [OF Cons.IH [OF l i(2)] k t order_refl])
        fix a s2 g2 assume "since J t s0 g0 (scan_result J s0 g0 b1 b2 fp is) a s2 g2"
        with miss show "since J t s0 g0 (scan_result J s0 g0 b1 b2 fp (i # is)) a s2 g2"
          by (auto simp: since_def scan_result_def split: if_splits)
      next
        fix a s2 g2 s3 g3
        assume Q: "since J t s0 g0 (scan_result J s0 g0 b1 b2 fp (i # is)) a s2 g2"
          and l3: "later J t s2 g2 s3 g3"
        then have l2: "later J t s0 g0 s2 g2" by (simp add: since_def)
        have "slot_result J s0 g0 b1 b2 fp j (Some a) s3 g3"
          if "slot_result J s0 g0 b1 b2 fp j (Some a) s2 g2" "j \<in> set (i # is)" for j
          by (rule slot_result_later [OF that(1) l3 laterD(7) [OF l2] b(1,2)]) (use that(2) Cons.prems(2) in auto)
        with Q later_trans [OF k0 l2 l3]
        show "since J t s0 g0 (scan_result J s0 g0 b1 b2 fp (i # is)) a s3 g3"
          unfolding since_def scan_result_def by (cases "fst a = NUM_ITEMS_PER_ENTRY * 2") auto
      qed
      with None m show ?thesis by simp
    next
      case (Some x)
      have "since J t s0 g0 (scan_result J s0 g0 b1 b2 fp (i # is)) x s2 g2" if l2: "later J t s' g' s2 g2" for s2 g2
      proof -
        have "slot_result J s0 g0 b1 b2 fp i (Some x) s2 g2"
          by (rule slot_result_later [OF _ l2 laterD(7) [OF l] b(1,2) i(1)]) (use r Some in \<open>simp add: since_def\<close>)
        moreover from this have "fst x \<noteq> NUM_ITEMS_PER_ENTRY * 2" using i(1) by (auto simp: slot_result_def)
        ultimately show ?thesis using later_trans [OF k0 l l2] by (simp add: since_def scan_result_def)
      qed
      with Some show ?thesis by simp
    qed
  qed
  then show ?case by simp
qed

text \<open>
  The answer in terms of the key: with 8, its item was not in the table when the call began,
  unless it may be removed; otherwise the entry was seen at the location returned.
\<close>

abbreviation first_bucket :: "u32 \<Rightarrow> bytes \<Rightarrow> u32" where
  "first_bucket ts key \<equiv> jenkins_hash key mod ts"

definition bucket_at :: "evp_digest \<Rightarrow> u32 \<Rightarrow> bytes \<Rightarrow> nat \<Rightarrow> u32" where
  "bucket_at evp ts key l =
     (if l < NUM_ITEMS_PER_ENTRY then first_bucket ts key
      else get_next_hash_index ts (first_bucket ts key) (md5_fingerprint evp key))"

definition key_result ::
  "evp_digest \<Rightarrow> job \<Rightarrow> lf_filter \<Rightarrow> book \<Rightarrow> bytes \<Rightarrow> nat \<times> table_pointer \<Rightarrow> lf_filter \<Rightarrow> book \<Rightarrow> bool" where
  "key_result evp J s0 g0 key r s g \<longleftrightarrow>
     (fst r = 8 \<and> (key_item evp (jb_size J) key \<in># lf_items s0 \<longrightarrow>
        key_item evp (jb_size J) key \<in> jb_removable J)) \<or>
     (fst r < 8 \<and> seen J g0 (bucket_at evp (jb_size J) key (fst r)) (fst r mod NUM_ITEMS_PER_ENTRY)
        (md5_fingerprint evp key) (snd r) s g)"

definition keyed :: "evp_digest \<Rightarrow> job \<Rightarrow> bool" where
  "keyed evp J \<longleftrightarrow> evp_md5_ok evp \<and> is_pow2 (jb_size J)"

lemma keyedD:
  assumes "keyed evp J"
  shows "md5_fingerprint evp key \<noteq> []" "bucket_at evp (jb_size J) key l < jb_size J"
    "(md5_fingerprint evp key, home (jb_size J) (bucket_at evp (jb_size J) key l) (md5_fingerprint evp key)) =
       key_item evp (jb_size J) key"
    "is_pow2 (jb_size J)" "jb_size J \<noteq> 0"
    "kept J s g \<Longrightarrow> lf_ready evp (jb_size J) (jb_threads J) s"
proof -
  show pow: "is_pow2 (jb_size J)" and "md5_fingerprint evp key \<noteq> []"
    using assms by (simp_all add: keyed_def md5_fingerprint_nonempty)
  show ts: "jb_size J \<noteq> 0" by (rule is_pow2_neq_0 [OF pow])
  show "bucket_at evp (jb_size J) key l < jb_size J"
    using hash_mod_less [OF ts] get_next_hash_index_less [OF ts] by (simp add: bucket_at_def)
  show "(md5_fingerprint evp key, home (jb_size J) (bucket_at evp (jb_size J) key l) (md5_fingerprint evp key)) =
       key_item evp (jb_size J) key"
    using slot_weight_home [OF pow, of "bucket_at evp (jb_size J) key l" key evp]
    by (simp add: bucket_at_def)
  show "kept J s g \<Longrightarrow> lf_ready evp (jb_size J) (jb_threads J) s"
    using assms keptD(1) by (simp add: keyed_def lf_ready_def)
qed

lemma key_result_later:
  assumes "keyed evp J" "key_result evp J s0 g0 key r s g" "later J t s g s' g'" "moves J g0 \<le> moves J g"
  shows "key_result evp J s0 g0 key r s' g'"
  using assms(2) seen_later [OF _ assms(3,4) keyedD(2) [OF assms(1)]] by (auto simp: key_result_def)

lemma scan_key_result:
  assumes K: "keyed evp J" and k: "kept J s0 g0"
    and r: "scan_result J s0 g0 (first_bucket (jb_size J) key)
      (get_next_hash_index (jb_size J) (first_bucket (jb_size J) key) (md5_fingerprint evp key))
      (md5_fingerprint evp key) [0..<NUM_ITEMS_PER_ENTRY] r s g"
  shows "key_result evp J s0 g0 key r s g"
proof (cases "fst r = 8")
  case True
  have B: "bucket_at evp (jb_size J) key 0 = first_bucket (jb_size J) key"
    "bucket_at evp (jb_size J) key 4 =
      get_next_hash_index (jb_size J) (first_bucket (jb_size J) key) (md5_fingerprint evp key)"
    by (simp_all add: bucket_at_def NUM_ITEMS_PER_ENTRY_def)
  from r True have miss: "missed J s0 (bucket_at evp (jb_size J) key l) (md5_fingerprint evp key) i"
    if "l \<in> {0, 4}" "i < NUM_ITEMS_PER_ENTRY" for l i
    using that by (auto simp: scan_result_def B NUM_ITEMS_PER_ENTRY_def)
  have "key_item evp (jb_size J) key \<notin># lf_items s0" if X: "key_item evp (jb_size J) key \<notin> jb_removable J"
  proof -
    have "lf_str s0 (bucket_at evp (jb_size J) key l) i \<noteq> md5_fingerprint evp key"
      if "l \<in> {0, 4}" "i < NUM_ITEMS_PER_ENTRY" for l i
      using miss [OF that] X keyedD(3) [OF K, of key l] by (auto simp: missed_def)
    from this [of 0] this [of 4] have "key_hit evp (jb_size J) key s0 = None"
      by (simp add: key_hit_def Let_def first_hit_None B)
    then show ?thesis using key_hit_item [OF keyedD(6) [OF K k]] by blast
  qed
  with True show ?thesis by (auto simp: key_result_def)
next
  case False
  with r obtain i where i: "i < NUM_ITEMS_PER_ENTRY"
    and "slot_result J s0 g0 (first_bucket (jb_size J) key)
      (get_next_hash_index (jb_size J) (first_bucket (jb_size J) key) (md5_fingerprint evp key))
      (md5_fingerprint evp key) i (Some r) s g"
    by (auto simp: scan_result_def NUM_ITEMS_PER_ENTRY_def)
  then show ?thesis
    by (auto simp: slot_result_def key_result_def bucket_at_def NUM_ITEMS_PER_ENTRY_def)
qed

lemma lf_mix_find_at:
  assumes K: "keyed evp J" and k: "kept J s g" and t: "t < jb_threads J" and "0 < fuel"
  shows "lf_mix J t (since J t s g (key_result evp J s g key))
    (lf_find_at evp (jb_size J) fuel key ptr t) 34 s g"
proof -
  let ?fp = "md5_fingerprint evp key" and ?h = "first_bucket (jb_size J) key"
  let ?h2 = "get_next_hash_index (jb_size J) ?h ?fp"
  have b: "?h < jb_size J" "?h2 < jb_size J"
    by (rule hash_mod_less [OF keyedD(5) [OF K]], rule get_next_hash_index_less [OF keyedD(5) [OF K]])
  have "lf_mix J t (since J t s g (key_result evp J s g key))
      (lf_find_slots [0..<NUM_ITEMS_PER_ENTRY] fuel (jb_size J) ?h ?h2 ?fp ptr t) (Suc (Suc 30)) s g"
  proof (rule lf_mix_weaken [OF lf_mix_find_slots [OF k t b keyedD(1) [OF K] assms(4) later_refl [OF k]] k t])
    fix a s1 g1
    assume "since J t s g (scan_result J s g ?h ?h2 ?fp [0..<NUM_ITEMS_PER_ENTRY]) a s1 g1"
    then show "since J t s g (key_result evp J s g key) a s1 g1"
      using scan_key_result [OF K k] by (simp add: since_def)
  next
    fix a s1 g1 s2 g2
    assume a: "since J t s g (key_result evp J s g key) a s1 g1" and l: "later J t s1 g1 s2 g2"
    then have l1: "later J t s g s1 g1" by (simp add: since_def)
    show "since J t s g (key_result evp J s g key) a s2 g2"
      using a key_result_later [OF K _ l laterD(7) [OF l1]] later_trans [OF k l1 l] by (simp add: since_def)
  qed (auto simp: NUM_ITEMS_PER_ENTRY_def)
  from lf_mix_clear [OF this] show ?thesis
    using keyedD(5) [OF K] by (simp add: lf_find_at_def Let_def)
qed

section \<open>\<open>remove\<close>\<close>

text \<open>Items that nobody removes stay.\<close>

definition keeps :: "job \<Rightarrow> lf_filter \<Rightarrow> lf_filter \<Rightarrow> bool" where
  "keeps J s s' \<longleftrightarrow> (\<forall>it. it \<notin> jb_removable J \<longrightarrow> it \<in># lf_items s \<longrightarrow> it \<in># lf_items s')"

lemma keeps_trans: "keeps J s s' \<Longrightarrow> keeps J s' s'' \<Longrightarrow> keeps J s s''"
  by (auto simp: keeps_def)

lemma later_keeps:
  assumes k: "kept J s g" and l: "later J t s g s' g'"
  shows "keeps J s s'"
  unfolding keeps_def
proof (intro allI impI)
  fix it assume X: "it \<notin> jb_removable J" and "it \<in># lf_items s"
  then obtain b i where b: "b < jb_size J" "i < NUM_ITEMS_PER_ENTRY"
    and at: "get_real_pointer (lf_at s b i) \<noteq> 0" "it = item_at (jb_size J) (lf_heap s) b (lf_at s b i)"
    unfolding lf_items_iff [OF keptD(1) [OF k]] by blast
  then have "lf_at s' b i = lf_at s b i" using later_slot(2) [OF l b] X by blast
  with at later_item_at(1) [OF k l b] b show "it \<in># lf_items s'"
    unfolding lf_items_iff [OF keptD(1) [OF later_kept [OF l]]] by metis
qed

lemma swap_keeps_items:
  assumes k: "kept J s g" and b: "b < jb_size J" "i < NUM_ITEMS_PER_ENTRY"
    and legal: "legal_swap J t b i new s g"
  shows "keeps J s (lf_put b i new s)"
proof (cases "get_real_pointer (lf_at s b i) = 0")
  case True
  then have "entry_str (lf_heap s) new \<noteq> []" using legal by (auto simp: legal_swap_def entry_str_def)
  from items_swap(1) [OF keptD(1) [OF k] b True this] show ?thesis by (simp add: keeps_def)
next
  case False
  then have new: "get_real_pointer new = 0"
    and X: "item_at (jb_size J) (lf_heap s) b (lf_at s b i) \<in> jb_removable J"
    using legal by (simp_all add: legal_swap_def)
  have "lf_items s = add_mset (item_at (jb_size J) (lf_heap s) b (lf_at s b i)) (lf_items (lf_put b i new s))"
    using items_swap(2) [OF keptD(1) [OF k] b False new] by simp
  with X show ?thesis by (auto simp: keeps_def)
qed

text \<open>What a call has done since \<open>(s0, g0)\<close>: the items it has put in and taken out.\<close>

definition did ::
  "job \<Rightarrow> nat \<Rightarrow> lf_filter \<Rightarrow> book \<Rightarrow> item multiset \<Rightarrow> item multiset \<Rightarrow> lf_filter \<Rightarrow> book \<Rightarrow> bool" where
  "did J t s0 g0 P D s g \<longleftrightarrow>
     bk_put g t = bk_put g0 t + P \<and> bk_del g t = bk_del g0 t + D \<and> keeps J s0 s"

lemma did_later: "kept J s g \<Longrightarrow> did J t s0 g0 P D s g \<Longrightarrow> later J t s g s' g' \<Longrightarrow> did J t s0 g0 P D s' g'"
  using laterD(1,2) [of J t s g s' g'] later_keeps [of J s g t s' g'] by (auto simp: did_def intro: keeps_trans)

lemma did_trans:
  "did J t s0 g0 P D s1 g1 \<Longrightarrow> did J t s1 g1 P' D' s2 g2 \<Longrightarrow> did J t s0 g0 (P + P') (D + D') s2 g2"
  by (auto simp: did_def ac_simps intro: keeps_trans)

lemma did_refl: "did J t s g {#} {#} s g"
  by (simp add: did_def keeps_def)

lemma later_did: "kept J s g \<Longrightarrow> later J t s g s' g' \<Longrightarrow> did J t s g {#} {#} s' g'"
  by (rule did_later [OF _ did_refl])

definition removed :: "evp_digest \<Rightarrow> job \<Rightarrow> nat \<Rightarrow> lf_filter \<Rightarrow> book \<Rightarrow> bytes \<Rightarrow> bool \<Rightarrow> lf_filter \<Rightarrow> book \<Rightarrow> bool" where
  "removed evp J t s0 g0 key r s g \<longleftrightarrow>
     did J t s0 g0 {#} (if r then {#key_item evp (jb_size J) key#} else {#}) s g"

lemma removed_later:
  "kept J s g \<Longrightarrow> removed evp J t s0 g0 key r s g \<Longrightarrow> later J t s g s' g' \<Longrightarrow> removed evp J t s0 g0 key r s' g'"
  unfolding removed_def by (rule did_later)

text \<open>The compare-and-swap on the slot where the key was seen.\<close>

lemma lf_mix_take:
  assumes K: "keyed evp J" and t: "t < jb_threads J" and k: "kept J s g"
    and did: "did J t s0 g0 {#} {#} s g"
    and X: "key_item evp (jb_size J) key \<in> jb_removable J" and "0 < n"
    and l: "l < NUM_ITEMS_PER_ENTRY * 2" and b: "b = bucket_at evp (jb_size J) key l"
    and seen: "seen J g0' b (l mod NUM_ITEMS_PER_ENTRY) (md5_fingerprint evp key) p s g"
    and g0: "moves J g0' \<le> moves J g"
    and null: "create_pointer (ucast (get_counter p)) 0 False = Some null"
    and retry: "\<And>s' g'. kept J s' g' \<Longrightarrow> did J t s0 g0 {#} {#} s' g' \<Longrightarrow> moves J g0' < moves J g' \<Longrightarrow>
      lf_mix J t (removed evp J t s0 g0 key) retry n s' g'"
  shows "lf_mix J t (removed evp J t s0 g0 key)
    (LCas b (l mod NUM_ITEMS_PER_ENTRY) p null (\<lambda>swapped.
       if swapped then lf_retire_key p t (LRet True) else retry)) (Suc n) s g"
proof -
  let ?i = "l mod NUM_ITEMS_PER_ENTRY"
  have bi: "b < jb_size J" "?i < NUM_ITEMS_PER_ENTRY" using keyedD(2) [OF K] b by simp_all
  have nul: "get_real_pointer null = 0" "\<not> get_marked null" "get_counter null = get_counter p"
    using create_pointer_fields [OF null] by simp_all
  have main: "if lf_at s1 b ?i = p
      then legal_swap J t b ?i null s1 g1 \<and> lf_mix J t (removed evp J t s0 g0 key)
        (lf_retire_key p t (LRet True)) n (lf_put b ?i null s1) (note_swap (jb_size J) t b ?i p null s1 g1)
      else lf_mix J t (removed evp J t s0 g0 key) retry n s1 g1"
    if l1: "later J t s g s1 g1" for s1 g1
  proof -
    note k1 = later_kept [OF l1]
    have did1: "did J t s0 g0 {#} {#} s1 g1" by (rule did_later [OF k did l1])
    have seen1: "seen J g0' b ?i (md5_fingerprint evp key) p s1 g1"
      by (rule seen_later [OF seen l1 g0 bi])
    show ?thesis
    proof (cases "lf_at s1 b ?i = p")
      case True
      have p: "get_real_pointer p \<noteq> 0" "entry_str (lf_heap s1) p = md5_fingerprint evp key"
        using seen1 by (auto simp: seen_def entry_str_def)
      then have item: "item_at (jb_size J) (lf_heap s1) b p = key_item evp (jb_size J) key"
        using keyedD(3) [OF K, of key l] b by (simp add: item_at_def)
      have legal: "legal_swap J t b ?i null s1 g1"
        using True p item X nul by (simp add: legal_swap_def)
      let ?s2 = "lf_put b ?i null s1" and ?g2 = "note_swap (jb_size J) t b ?i p null s1 g1"
      have k2: "kept J ?s2 ?g2" using swap_keeps [OF k1 t bi legal] True by simp
      have "did J t s1 g1 {#} {#key_item evp (jb_size J) key#} ?s2 ?g2"
        using note_del [OF t p(1), of "jb_size J" b ?i null s1 g1] item swap_keeps_items [OF k1 bi legal]
        by (simp add: did_def)
      then have "removed evp J t s0 g0 key True ?s2 ?g2"
        using did_trans [OF did1] by (simp add: removed_def)
      then have "\<forall>s3 g3. later J t ?s2 ?g2 s3 g3 \<longrightarrow> removed evp J t s0 g0 key True s3 g3"
        using removed_later [OF k2] by blast
      with legal True \<open>0 < n\<close> show ?thesis by (simp add: lf_retire_key_def lf_mix.simps)
    next
      case False
      then have "moves J g0' < moves J g1" using seen1 by (simp add: seen_def)
      with False retry [OF k1 did1] show ?thesis by simp
    qed
  qed
  show ?thesis unfolding lf_mix.simps using bi main by simp
qed

lemma lf_mix_remove_loop:
  assumes K: "keyed evp J" and t: "t < jb_threads J" and "0 < fuel"
    and X: "key_item evp (jb_size J) key \<in> jb_removable J"
  defines "h \<equiv> first_bucket (jb_size J) key"
  shows "kept J s g \<Longrightarrow> did J t s0 g0 {#} {#} s g \<Longrightarrow> max_moves J - moves J g < m \<Longrightarrow>
    lf_mix J t (removed evp J t s0 g0 key)
      (lf_remove_loop m evp (jb_size J) fuel key h (get_next_hash_index (jb_size J) h (md5_fingerprint evp key)) ptr t)
      (35 * (max_moves J - moves J g) + 36) s g"
proof (induction m arbitrary: s g ptr)
  case (Suc m)
  note k = Suc.prems(1)
  let ?h2 = "get_next_hash_index (jb_size J) h (md5_fingerprint evp key)"
  let ?n = "35 * (max_moves J - moves J g) + 1"
  let ?loop = "\<lambda>ptr1. lf_remove_loop m evp (jb_size J) fuel key h ?h2 ptr1 t"
  have "lf_mix J t (removed evp J t s0 g0 key)
      (lf_remove_loop (Suc m) evp (jb_size J) fuel key h ?h2 ptr t) (34 + Suc ?n) s g"
    unfolding lf_remove_loop.simps
  proof (rule lf_mix_bind [OF lf_mix_find_at [OF K k t assms(3)] k t])
    fix a s1 g1
    assume k1: "kept J s1 g1" and a: "since J t s g (key_result evp J s g key) a s1 g1"
    obtain l p where lp: "a = (l, p)" by force
    have l1: "later J t s g s1 g1" and r: "key_result evp J s g key a s1 g1" using a by (simp_all add: since_def)
    have did1: "did J t s0 g0 {#} {#} s1 g1" by (rule did_later [OF k Suc.prems(2) l1])
    show "lf_mix J t (removed evp J t s0 g0 key)
        (case a of (location, ptr1) \<Rightarrow>
          if location = NUM_ITEMS_PER_ENTRY * 2 then LRet False
          else let hash_val = if location < NUM_ITEMS_PER_ENTRY then h else ?h2
            in lf_create (ucast (get_counter ptr1)) 0 False (\<lambda>null.
                 LCas hash_val (location mod NUM_ITEMS_PER_ENTRY) ptr1 null (\<lambda>swapped.
                   if swapped then lf_retire_key ptr1 t (LRet True) else ?loop ptr1))) (Suc ?n) s1 g1"
    proof (cases "l = 8")
      case True
      have "removed evp J t s0 g0 key False s2 g2" if "later J t s1 g1 s2 g2" for s2 g2
        using did_later [OF k1 did1 that] by (simp add: removed_def)
      with True lp show ?thesis by (simp add: NUM_ITEMS_PER_ENTRY_def)
    next
      case False
      then have l: "l < NUM_ITEMS_PER_ENTRY * 2"
        and seen: "seen J g (bucket_at evp (jb_size J) key l) (l mod NUM_ITEMS_PER_ENTRY) (md5_fingerprint evp key) p s1 g1"
        using r lp by (auto simp: key_result_def NUM_ITEMS_PER_ENTRY_def)
      obtain null where null: "create_pointer (ucast (get_counter p)) 0 False = Some null"
        using counter_not_too_large [of "get_counter p"] by (auto simp: create_pointer_def)
      have retry: "lf_mix J t (removed evp J t s0 g0 key) (?loop p) ?n s2 g2"
        if "kept J s2 g2" "did J t s0 g0 {#} {#} s2 g2" "moves J g < moves J g2" for s2 g2
      proof -
        have "max_moves J - moves J g2 < m" "35 * (max_moves J - moves J g2) + 36 \<le> ?n"
          using Suc.prems(3) that(3) moves_le [OF that(1)] by linarith+
        with Suc.IH [OF that(1,2)] show ?thesis by (blast intro: lf_mix_mono)
      qed
      have B: "bucket_at evp (jb_size J) key l = (if l < NUM_ITEMS_PER_ENTRY then h else ?h2)"
        by (simp add: bucket_at_def h_def)
      have ne: "l \<noteq> NUM_ITEMS_PER_ENTRY * 2" using False by (simp add: NUM_ITEMS_PER_ENTRY_def)
      show ?thesis
        unfolding lp prod.case if_not_P [OF ne] Let_def lf_create_def null option.case
        by (rule lf_mix_take [OF K t k1 did1 X _ l B [symmetric] seen [unfolded B] laterD(7) [OF l1] null retry])
          simp
    qed
  qed
  then show ?case by (simp add: add.commute)
qed simp

lemma lf_mix_remove:
  assumes K: "keyed evp J" and t: "t < jb_threads J" and k: "kept J s g"
    and fuel: "max_moves J < fuel" and X: "key_item evp (jb_size J) key \<in> jb_removable J"
  shows "lf_mix J t (removed evp J t s g key) (lf_remove evp (jb_size J) fuel key t)
    (35 * max_moves J + 38) s g"
proof -
  have "lf_mix J t (removed evp J t s g key)
      (lf_remove_loop fuel evp (jb_size J) fuel key (first_bucket (jb_size J) key)
        (get_next_hash_index (jb_size J) (first_bucket (jb_size J) key) (md5_fingerprint evp key)) 0 t)
      (35 * max_moves J + 36) s g"
    by (rule lf_mix_mono [OF lf_mix_remove_loop [OF K t _ X k did_refl]]) (use fuel in auto)
  from lf_mix_clear [OF this] show ?thesis
    using keyedD(5) [OF K] by (simp add: lf_remove_def Let_def add.commute)
qed

section \<open>\<open>insert\<close>\<close>

text \<open>
  A bucket of the item has room for everything that may ever be there. Then its four slots have
  not all been in use before the item is in the table.
\<close>

definition room :: "job \<Rightarrow> item \<Rightarrow> bool" where
  "room J it \<longleftrightarrow> (\<exists>b \<in> snd it. b < jb_size J \<and>
     in_bucket b (jb_start J + whole_quota J) \<le> NUM_ITEMS_PER_ENTRY)"

lemma not_all_used:
  assumes k: "kept J s g" and t: "t < jb_threads J" and quota: "add_mset it (bk_put g t) \<subseteq># jb_quota J t"
    and b: "b \<in> snd it" "b < jb_size J" "in_bucket b (jb_start J + whole_quota J) \<le> NUM_ITEMS_PER_ENTRY"
  shows "\<exists>i < NUM_ITEMS_PER_ENTRY. (b, i) \<notin> bk_used g"
proof (rule ccontr)
  assume "\<not> (\<exists>i < NUM_ITEMS_PER_ENTRY. (b, i) \<notin> bk_used g)"
  then have "{i. i < NUM_ITEMS_PER_ENTRY \<and> (b, i) \<in> bk_used g} = {..<NUM_ITEMS_PER_ENTRY}" by auto
  then have "NUM_ITEMS_PER_ENTRY \<le> in_bucket b (jb_start J + all_put J g)"
    using keptD(4) [OF k b(2)] by simp
  moreover have "(\<Sum>u < jb_threads J. if u = t then add_mset it (bk_put g t) else bk_put g u) \<subseteq># whole_quota J"
    unfolding whole_quota_def by (rule sum_subseteq_mset) (use keptD(3) [OF k] quota in auto)
  then have "add_mset it (all_put J g) \<subseteq># whole_quota J"
    unfolding sum_update_mset [OF t] all_put_def .
  from in_bucket_mono [OF this, of b] b(1) have "Suc (in_bucket b (all_put J g)) \<le> in_bucket b (whole_quota J)"
    by (simp add: in_bucket_def)
  ultimately show False using b(3) by simp
qed

text \<open>The entry \<open>a\<close> of the key is allocated and not yet in the table.\<close>

definition pending ::
  "evp_digest \<Rightarrow> job \<Rightarrow> nat \<Rightarrow> lf_filter \<Rightarrow> book \<Rightarrow> bytes \<Rightarrow> u64 \<Rightarrow> lf_filter \<Rightarrow> book \<Rightarrow> bool" where
  "pending evp J t s0 g0 key a s g \<longleftrightarrow> did J t s0 g0 {#} {#} s g \<and>
     lf_heap s a = Some (md5_fingerprint evp key) \<and> a \<noteq> 0 \<and> fits a \<and>
     add_mset (key_item evp (jb_size J) key) (bk_put g0 t) \<subseteq># jb_quota J t"

lemma pending_later:
  "kept J s g \<Longrightarrow> pending evp J t s0 g0 key a s g \<Longrightarrow> later J t s g s' g' \<Longrightarrow> pending evp J t s0 g0 key a s' g'"
  using laterD(6) [of J t s g s' g'] did_later [of J s g t s0 g0 "{#}" "{#}" s' g']
  by (auto simp: pending_def map_le_def dom_def)

definition inserted :: "evp_digest \<Rightarrow> job \<Rightarrow> nat \<Rightarrow> lf_filter \<Rightarrow> book \<Rightarrow> bytes \<Rightarrow> bool \<Rightarrow> lf_filter \<Rightarrow> book \<Rightarrow> bool" where
  "inserted evp J t s0 g0 key r s g \<longleftrightarrow> r \<and> did J t s0 g0 {#key_item evp (jb_size J) key#} {#} s g \<and>
     (key_item evp (jb_size J) key \<notin> jb_removable J \<longrightarrow> key_item evp (jb_size J) key \<in># lf_items s)"

lemma inserted_later:
  "kept J s g \<Longrightarrow> inserted evp J t s0 g0 key r s g \<Longrightarrow> later J t s g s' g' \<Longrightarrow> inserted evp J t s0 g0 key r s' g'"
  unfolding inserted_def using later_keeps [of J s g t s' g'] did_later [of J s g t s0 g0 _ "{#}" s' g']
  by (metis keeps_def)

lemma lf_mix_put:
  assumes K: "keyed evp J" and t: "t < jb_threads J" and k: "kept J s g"
    and pend: "pending evp J t s0 g0 key a s g"
    and b: "b = bucket_at evp (jb_size J) key l" "i < NUM_ITEMS_PER_ENTRY"
    and free: "get_real_pointer (lf_at s b i) = 0"
    and new: "create_pointer (ucast (get_counter (lf_at s b i))) a False = Some new"
  shows "legal_swap J t b i new s g"
    "lf_mix J t (inserted evp J t s0 g0 key) (LRet True) n (lf_put b i new s)
       (note_swap (jb_size J) t b i (lf_at s b i) new s g)"
proof -
  have bs: "b < jb_size J" using keyedD(2) [OF K] b(1) by simp
  have a: "fits a" "a \<noteq> 0" "lf_heap s a = Some (md5_fingerprint evp key)"
    and did: "did J t s0 g0 {#} {#} s g" using pend by (simp_all add: pending_def)
  have fields: "get_real_pointer new = a" "\<not> get_marked new" "get_counter new = get_counter (lf_at s b i)"
    using create_pointer_fields [OF new a(1)] by simp_all
  have item: "item_at (jb_size J) (lf_heap s) b new = key_item evp (jb_size J) key"
    using keyedD(3) [OF K, of key l] a fields b(1) by (simp add: item_at_def entry_str_def)
  have put: "bk_put g t = bk_put g0 t" using did by (simp add: did_def)
  show legal: "legal_swap J t b i new s g"
    using free fields a item keyedD(1) [OF K] pend put by (simp add: legal_swap_def pending_def)
  let ?s = "lf_put b i new s" and ?g = "note_swap (jb_size J) t b i (lf_at s b i) new s g"
  have k': "kept J ?s ?g" using swap_keeps [OF k t bs b(2) legal] by simp
  have "did J t s g {#key_item evp (jb_size J) key#} {#} ?s ?g"
    using note_put [OF t free, of "jb_size J" b i new s g] item swap_keeps_items [OF k bs b(2) legal]
    by (simp add: did_def)
  moreover have "key_item evp (jb_size J) key \<in># lf_items ?s"
    using items_swap(1) [OF keptD(1) [OF k] bs b(2) free, of new] item a fields keyedD(1) [OF K]
    by (simp add: entry_str_def)
  ultimately have "inserted evp J t s0 g0 key True ?s ?g"
    using did_trans [OF did] by (simp add: inserted_def)
  with inserted_later [OF k'] show "lf_mix J t (inserted evp J t s0 g0 key) (LRet True) n ?s ?g"
    by simp
qed

lemma lf_mix_try_slot:
  assumes K: "keyed evp J" and t: "t < jb_threads J" and k: "kept J s g"
    and pend: "pending evp J t s0 g0 key a s g"
    and b: "b = bucket_at evp (jb_size J) key l" "i < NUM_ITEMS_PER_ENTRY"
    and occ: "\<And>e s' g'. later J t s g s' g' \<Longrightarrow> (e \<Longrightarrow> moves J g < moves J g') \<Longrightarrow>
      (\<not> e \<Longrightarrow> (b, i) \<in> bk_used g') \<Longrightarrow>
      lf_mix J t (inserted evp J t s0 g0 key) (occupied e) n s' g'"
  shows "lf_mix J t (inserted evp J t s0 g0 key) (lf_try_slot b i a occupied (LRet True)) (Suc (Suc n)) s g"
  unfolding lf_try_slot_def
proof (rule lf_mix_load)
  show bs: "b < jb_size J" using keyedD(2) [OF K] b(1) by simp
  fix s1 g1 assume l1: "later J t s g s1 g1"
  note k1 = later_kept [OF l1]
  show "lf_mix J t (inserted evp J t s0 g0 key)
      (if get_real_pointer (lf_at s1 b i) = 0
       then lf_create (ucast (get_counter (lf_at s1 b i))) a False (\<lambda>new.
         LCas b i (lf_at s1 b i) new (\<lambda>swapped. if swapped then LRet True else occupied True))
       else occupied False) (Suc n) s1 g1"
  proof (cases "get_real_pointer (lf_at s1 b i) = 0")
    case True
    obtain new where new: "create_pointer (ucast (get_counter (lf_at s1 b i))) a False = Some new"
      using counter_not_too_large [of "get_counter (lf_at s1 b i)"] by (auto simp: create_pointer_def)
    have "if lf_at s2 b i = lf_at s1 b i
        then legal_swap J t b i new s2 g2 \<and> lf_mix J t (inserted evp J t s0 g0 key) (LRet True) n
          (lf_put b i new s2) (note_swap (jb_size J) t b i (lf_at s1 b i) new s2 g2)
        else lf_mix J t (inserted evp J t s0 g0 key) (occupied True) n s2 g2"
      if l2: "later J t s1 g1 s2 g2" for s2 g2
    proof (cases "lf_at s2 b i = lf_at s1 b i")
      case same: True
      have "pending evp J t s0 g0 key a s2 g2"
        by (rule pending_later [OF k pend later_trans [OF k l1 l2]])
      from lf_mix_put [OF K t later_kept [OF l2] this b] True new same
      show ?thesis by simp
    next
      case False
      then have "moves J g < moves J g2"
        using later_slot(2) [OF l2 bs b(2)] laterD(7) [OF l1] by simp
      with occ [OF later_trans [OF k l1 l2], of True] False show ?thesis by simp
    qed
    then have "lf_mix J t (inserted evp J t s0 g0 key) (LCas b i (lf_at s1 b i) new
        (\<lambda>swapped. if swapped then LRet True else occupied True)) (Suc n) s1 g1"
      unfolding lf_mix.simps using bs b(2) by simp
    then show ?thesis using True new by (simp add: lf_create_def)
  next
    case False
    have "(b, i) \<in> bk_used g1" by (rule keptD(5) [OF k1 bs b(2) False])
    with occ [OF l1, of False] have "lf_mix J t (inserted evp J t s0 g0 key) (occupied False) n s1 g1"
      by simp
    with False show ?thesis by (simp add: lf_mix_mono)
  qed
qed (rule b)

lemma lf_mix_scan:
  assumes K: "keyed evp J" and t: "t < jb_threads J"
    and h: "h1 = bucket_at evp (jb_size J) key l1" "h2 = bucket_at evp (jb_size J) key l2"
  shows "kept J s g \<Longrightarrow> pending evp J t s0 g0 key a s g \<Longrightarrow> set is \<subseteq> {..<NUM_ITEMS_PER_ENTRY} \<Longrightarrow>
    (\<And>f' s' g'. later J t s g s' g' \<Longrightarrow> (f \<Longrightarrow> f') \<Longrightarrow> (f' \<Longrightarrow> f \<or> moves J g < moves J g') \<Longrightarrow>
      (\<not> f' \<Longrightarrow> \<forall>i \<in> set is. (h1, i) \<in> bk_used g' \<and> (h2, i) \<in> bk_used g') \<Longrightarrow>
      lf_mix J t (inserted evp J t s0 g0 key) (k f') n s' g') \<Longrightarrow>
    lf_mix J t (inserted evp J t s0 g0 key) (lf_scan is h1 h2 a f k) (4 * length is + n) s g"
proof (induction "is" arbitrary: s g f)
  case (Cons i "is")
  have i: "i < NUM_ITEMS_PER_ENTRY" "set is \<subseteq> {..<NUM_ITEMS_PER_ENTRY}" using Cons.prems(3) by simp_all
  note kpt = Cons.prems(1) and pend = Cons.prems(2)
  have "lf_mix J t (inserted evp J t s0 g0 key) (lf_scan (i # is) h1 h2 a f k)
      (Suc (Suc (Suc (Suc (4 * length is + n))))) s g"
    unfolding lf_scan.simps
  proof (rule lf_mix_try_slot [OF K t kpt pend h(1) i(1)])
    fix e1 sa ga
    assume la: "later J t s g sa ga" and ea: "e1 \<Longrightarrow> moves J g < moves J ga"
      and ua: "\<not> e1 \<Longrightarrow> (h1, i) \<in> bk_used ga"
    show "lf_mix J t (inserted evp J t s0 g0 key)
        (lf_try_slot h2 i a (\<lambda>e2. lf_scan is h1 h2 a (f \<or> e1 \<or> e2) k) (LRet True))
        (Suc (Suc (4 * length is + n))) sa ga"
    proof (rule lf_mix_try_slot [OF K t later_kept [OF la] pending_later [OF kpt pend la] h(2) i(1)])
      fix e2 sb gb
      assume lb: "later J t sa ga sb gb" and eb: "e2 \<Longrightarrow> moves J ga < moves J gb"
        and ub: "\<not> e2 \<Longrightarrow> (h2, i) \<in> bk_used gb"
      note lab = later_trans [OF kpt la lb]
      show "lf_mix J t (inserted evp J t s0 g0 key) (lf_scan is h1 h2 a (f \<or> e1 \<or> e2) k)
          (4 * length is + n) sb gb"
      proof (rule Cons.IH [OF later_kept [OF lab] pending_later [OF kpt pend lab] i(2)])
        fix f' sc gc
        assume lc: "later J t sb gb sc gc" and f: "f \<or> e1 \<or> e2 \<Longrightarrow> f'"
          and fc: "f' \<Longrightarrow> (f \<or> e1 \<or> e2) \<or> moves J gb < moves J gc"
          and uc: "\<not> f' \<Longrightarrow> \<forall>i \<in> set is. (h1, i) \<in> bk_used gc \<and> (h2, i) \<in> bk_used gc"
        have mono: "moves J g \<le> moves J ga" "moves J ga \<le> moves J gb" "moves J gb \<le> moves J gc"
          using laterD(7) [OF la] laterD(7) [OF lb] laterD(7) [OF lc] .
        have used: "bk_used ga \<subseteq> bk_used gb" "bk_used gb \<subseteq> bk_used gc"
          using laterD(3) [OF lb] laterD(3) [OF lc] .
        show "lf_mix J t (inserted evp J t s0 g0 key) (k f') n sc gc"
        proof (rule Cons.prems(4) [OF later_trans [OF kpt lab lc]])
          show "f \<or> moves J g < moves J gc" if f' using fc [OF that] ea eb mono by auto
          show "\<forall>j \<in> set (i # is). (h1, j) \<in> bk_used gc \<and> (h2, j) \<in> bk_used gc" if "\<not> f'"
            using uc [OF that] ua ub f used that by auto
        qed (use f in blast)
      qed
    qed
  qed
  then show ?case by (simp add: numeral_eq_Suc)
qed simp

lemma lf_mix_insert_loop:
  assumes K: "keyed evp J" and t: "t < jb_threads J" and room: "room J (key_item evp (jb_size J) key)"
  defines "h \<equiv> first_bucket (jb_size J) key"
  shows "kept J s g \<Longrightarrow> pending evp J t s0 g0 key a s g \<Longrightarrow> max_moves J - moves J g < m \<Longrightarrow>
    lf_mix J t (inserted evp J t s0 g0 key)
      (lf_insert_loop m fuel (jb_size J) h (get_next_hash_index (jb_size J) h (md5_fingerprint evp key)) a t)
      (16 * (max_moves J - moves J g) + 16) s g"
proof (induction m arbitrary: s g)
  case (Suc m)
  note k = Suc.prems(1) and pend = Suc.prems(2)
  let ?n = "16 * (max_moves J - moves J g)" and ?h2 = "get_next_hash_index (jb_size J) h (md5_fingerprint evp key)"
  have B: "h = bucket_at evp (jb_size J) key 0" "?h2 = bucket_at evp (jb_size J) key 4"
    by (simp_all add: bucket_at_def h_def NUM_ITEMS_PER_ENTRY_def)
  have "lf_mix J t (inserted evp J t s0 g0 key)
      (lf_insert_loop (Suc m) fuel (jb_size J) h ?h2 a t) (4 * length [0..<NUM_ITEMS_PER_ENTRY] + ?n) s g"
    unfolding lf_insert_loop.simps
  proof (rule lf_mix_scan [OF K t B k pend], goal_cases)
    case (2 f' s1 g1)
    note k1 = later_kept [OF 2(1)] and p1 = pending_later [OF k pend 2(1)]
    show ?case
    proof (cases f')
      case True
      then have mv: "moves J g < moves J g1" using 2(3) by simp
      then have "max_moves J - moves J g1 < m" "16 * (max_moves J - moves J g1) + 16 \<le> ?n"
        using Suc.prems(3) moves_le [OF k1] by linarith+
      with Suc.IH [OF k1 p1] True show ?thesis by (auto intro: lf_mix_mono)
    next
      case False
      obtain b where b: "b \<in> snd (key_item evp (jb_size J) key)" "b < jb_size J"
        "in_bucket b (jb_start J + whole_quota J) \<le> NUM_ITEMS_PER_ENTRY"
        using room by (auto simp: room_def)
      have "add_mset (key_item evp (jb_size J) key) (bk_put g1 t) \<subseteq># jb_quota J t"
        using p1 by (simp add: pending_def did_def)
      from not_all_used [OF k1 t this b]
      obtain i where "i < NUM_ITEMS_PER_ENTRY" "(b, i) \<notin> bk_used g1" by blast
      moreover have "b = h \<or> b = ?h2" using b(1) by (auto simp: key_item_def home_def h_def)
      ultimately show ?thesis using 2(4) [OF False] by auto
    qed
  qed auto
  then show ?case by (simp add: NUM_ITEMS_PER_ENTRY_def add.commute)
qed simp

lemma lf_mix_insert:
  assumes K: "keyed evp J" and t: "t < jb_threads J" and k: "kept J s g"
    and fuel: "max_moves J < fuel" and room: "room J (key_item evp (jb_size J) key)"
    and quota: "add_mset (key_item evp (jb_size J) key) (bk_put g t) \<subseteq># jb_quota J t"
  shows "lf_mix J t (inserted evp J t s g key) (lf_insert evp (jb_size J) fuel key t)
    (16 * max_moves J + 19) s g"
proof -
  have "lf_mix J t (inserted evp J t s g key)
      (LNew (md5_fingerprint evp key) (\<lambda>new_entry.
         lf_insert_loop fuel fuel (jb_size J) (first_bucket (jb_size J) key)
           (get_next_hash_index (jb_size J) (first_bucket (jb_size J) key) (md5_fingerprint evp key)) new_entry t))
      (Suc (16 * max_moves J + 16)) s g"
    unfolding lf_mix.simps
  proof (intro conjI allI impI)
    fix a s1 g1
    assume l: "later J t s g s1 g1" and a: "fits a" "a \<noteq> 0" "lf_heap s1 a = Some (md5_fingerprint evp key)"
    have "pending evp J t s g key a s1 g1"
      using a quota later_did [OF k l] by (simp add: pending_def)
    from lf_mix_insert_loop [OF K t room later_kept [OF l] this]
    show "lf_mix J t (inserted evp J t s g key) (lf_insert_loop fuel fuel (jb_size J)
        (first_bucket (jb_size J) key) (get_next_hash_index (jb_size J) (first_bucket (jb_size J) key)
          (md5_fingerprint evp key)) a t) (Suc (16 * max_moves J + 16) - 1) s1 g1"
      by (rule lf_mix_mono) (use fuel in auto)
  qed simp
  from lf_mix_clear [OF this] show ?thesis
    using keyedD(5) [OF K] by (simp add: lf_insert_def Let_def add.commute)
qed

end
