(* ===== verification/Lock_Free_Overlap.thy ===== *)
theory Lock_Free_Overlap
  imports Lock_Free_Mixed
begin

text \<open>
  Clients that call \<open>insert\<close>, \<open>find\<close> and \<open>remove\<close> at the same time while nothing has to be evicted,
  and the two phases of \<open>test/test_lock_free.cpp\<close>: insertions by all threads, then, after they have
  been joined, queries and removals by all threads.
\<close>

section \<open>What the calls put, take and answer\<close>

primrec call_put :: "evp_digest \<Rightarrow> u32 \<Rightarrow> filter_call \<Rightarrow> item multiset" where
  "call_put evp ts (InsertKey k) = {#key_item evp ts k#}"
| "call_put evp ts (FindKey k) = {#}"
| "call_put evp ts (RemoveKey k) = {#}"

primrec call_del :: "evp_digest \<Rightarrow> u32 \<Rightarrow> filter_call \<Rightarrow> bool + nat \<Rightarrow> item multiset" where
  "call_del evp ts (InsertKey k) r = {#}"
| "call_del evp ts (FindKey k) r = {#}"
| "call_del evp ts (RemoveKey k) r = (if r = Inl True then {#key_item evp ts k#} else {#})"

definition puts :: "evp_digest \<Rightarrow> u32 \<Rightarrow> filter_call list \<Rightarrow> item multiset" where
  "puts evp ts cs = sum_list (map (call_put evp ts) cs)"

definition dels :: "evp_digest \<Rightarrow> u32 \<Rightarrow> filter_call list \<Rightarrow> (bool + nat) list \<Rightarrow> item multiset" where
  "dels evp ts cs rs = sum_list (map2 (call_del evp ts) cs rs)"

text \<open>
  The answer of a call: insertions succeed; a hit is an item of \<open>A\<close>; an item of \<open>K\<close>, known to be in
  the table when the call begins, is found unless it is in \<open>X\<close>, the items that may be removed.
\<close>

primrec call_answer ::
  "evp_digest \<Rightarrow> u32 \<Rightarrow> item set \<Rightarrow> item set \<Rightarrow> item set \<Rightarrow> filter_call \<Rightarrow> bool + nat \<Rightarrow> bool" where
  "call_answer evp ts A X K (InsertKey k) r = (r = Inl True)"
| "call_answer evp ts A X K (FindKey k) r =
     (r = Inr 8 \<and> (key_item evp ts k \<in> K \<longrightarrow> key_item evp ts k \<in> X) \<or>
      (\<exists>l < 8. r = Inr l) \<and> key_item evp ts k \<in> A)"
| "call_answer evp ts A X K (RemoveKey k) r = (\<exists>d. r = Inl d)"

text \<open>The answers of a thread, which also knows what it has inserted itself.\<close>

primrec answers ::
  "evp_digest \<Rightarrow> u32 \<Rightarrow> item set \<Rightarrow> item set \<Rightarrow> item set \<Rightarrow> filter_call list \<Rightarrow> (bool + nat) list \<Rightarrow> bool" where
  "answers evp ts A X K [] rs = (rs = [])"
| "answers evp ts A X K (c # cs) rs =
     (case rs of [] \<Rightarrow> False
      | r # rs \<Rightarrow> call_answer evp ts A X K c r \<and>
          answers evp ts A X (K \<union> set_mset (call_put evp ts c)) cs rs)"

lemma puts_Nil [simp]: "puts evp ts [] = {#}" and puts_Cons [simp]: "puts evp ts (c # cs) = call_put evp ts c + puts evp ts cs"
  by (simp_all add: puts_def)

lemma dels_Nil [simp]: "dels evp ts [] rs = {#}"
  and dels_Cons [simp]: "dels evp ts (c # cs) (r # rs) = call_del evp ts c r + dels evp ts cs rs"
  by (simp_all add: dels_def)

section \<open>Clients with a book\<close>

text \<open>The calls of a job.\<close>

primrec job_call :: "evp_digest \<Rightarrow> job \<Rightarrow> filter_call \<Rightarrow> bool" where
  "job_call evp J (InsertKey k) = room J (key_item evp (jb_size J) k)"
| "job_call evp J (FindKey k) = True"
| "job_call evp J (RemoveKey k) = (key_item evp (jb_size J) k \<in> jb_removable J)"

definition all_items :: "job \<Rightarrow> item set" where
  "all_items J = set_mset (jb_start J + whole_quota J)"

definition knows :: "job \<Rightarrow> item set \<Rightarrow> lf_filter \<Rightarrow> bool" where
  "knows J K s \<longleftrightarrow> (\<forall>it \<in> K. it \<notin> jb_removable J \<longrightarrow> it \<in># lf_items s)"

lemma knows_keeps: "knows J K s \<Longrightarrow> keeps J s s' \<Longrightarrow> knows J K s'"
  by (auto simp: knows_def keeps_def)

definition call_cost :: "job \<Rightarrow> nat" where
  "call_cost J = 35 * max_moves J + 38"

definition call_done ::
  "evp_digest \<Rightarrow> job \<Rightarrow> nat \<Rightarrow> lf_filter \<Rightarrow> book \<Rightarrow> item set \<Rightarrow> filter_call \<Rightarrow> bool + nat \<Rightarrow> lf_filter \<Rightarrow> book \<Rightarrow> bool" where
  "call_done evp J t s0 g0 K c r s g \<longleftrightarrow>
     call_answer evp (jb_size J) (all_items J) (jb_removable J) K c r \<and>
     did J t s0 g0 (call_put evp (jb_size J) c) (call_del evp (jb_size J) c r) s g \<and>
     knows J (K \<union> set_mset (call_put evp (jb_size J) c)) s"

lemma call_done_later:
  assumes "kept J s g" "call_done evp J t s0 g0 K c r s g" "later J t s g s' g'"
  shows "call_done evp J t s0 g0 K c r s' g'"
  using assms did_later [OF assms(1) _ assms(3)] knows_keeps [OF _ later_keeps [OF assms(1,3)]]
  by (simp add: call_done_def)

lemma lf_mix_wrap:
  assumes "lf_mix J t R p n s g" "kept J s g" "t < jb_threads J" "n \<le> m"
    and R: "\<And>a s' g'. kept J s' g' \<Longrightarrow> R a s' g' \<Longrightarrow> Q (f a) s' g'"
    and Q: "\<And>a s' g' s'' g''. kept J s' g' \<Longrightarrow> Q a s' g' \<Longrightarrow> later J t s' g' s'' g'' \<Longrightarrow> Q a s'' g''"
  shows "lf_mix J t Q (lf_bind p (\<lambda>a. LRet (f a))) m s g"
proof (rule lf_mix_mono [OF lf_mix_bind [OF assms(1-3)]])
  fix a s' g' assume k: "kept J s' g'" and "R a s' g'"
  then have q: "Q (f a) s' g'" by (rule R)
  show "lf_mix J t Q (LRet (f a)) 0 s' g'"
    unfolding lf_mix.simps by (intro allI impI) (rule Q [OF k q])
qed (use assms(4) in simp)

lemma lf_mix_op_insert:
  assumes K: "keyed evp J" and t: "t < jb_threads J" and k: "kept J s g"
    and fuel: "max_moves J < fuel" and room: "room J (key_item evp (jb_size J) key)"
    and kn: "knows J K s" and quota: "bk_put g t + {#key_item evp (jb_size J) key#} \<subseteq># jb_quota J t"
  shows "lf_mix J t (call_done evp J t s g K (InsertKey key)) (lf_op evp (jb_size J) fuel t (InsertKey key))
    (call_cost J) s g"
proof -
  have "lf_mix J t (inserted evp J t s g key) (lf_insert evp (jb_size J) fuel key t)
      (16 * max_moves J + 19) s g"
    by (rule lf_mix_insert [OF K t k fuel]) (use room quota in simp_all)
  then show ?thesis
    unfolding lf_op.simps
  proof (rule lf_mix_wrap [OF _ k t], goal_cases)
    case (2 r s' g')
    then have r: "r" "did J t s g {#key_item evp (jb_size J) key#} {#} s' g'"
      "key_item evp (jb_size J) key \<notin> jb_removable J \<longrightarrow> key_item evp (jb_size J) key \<in># lf_items s'"
      by (simp_all add: inserted_def)
    moreover have "knows J K s'" using knows_keeps [OF kn] r(2) by (simp add: did_def)
    ultimately show ?case by (simp add: call_done_def knows_def)
  next
    case (3 r s' g' s'' g'')
    then show ?case by (rule call_done_later)
  qed (simp add: call_cost_def)
qed

lemma lf_mix_op_find:
  assumes K: "keyed evp J" and t: "t < jb_threads J" and k: "kept J s g"
    and fuel: "max_moves J < fuel" and kn: "knows J K s"
  shows "lf_mix J t (call_done evp J t s g K (FindKey key)) (lf_op evp (jb_size J) fuel t (FindKey key))
    (call_cost J) s g"
proof -
  have "lf_mix J t (\<lambda>l s' g'. call_done evp J t s g K (FindKey key) (Inr l) s' g') (lf_find evp (jb_size J) fuel key t) 34 s g"
    unfolding lf_find_def
  proof (rule lf_mix_mono [OF lf_mix_bind [OF lf_mix_find_at [OF K k t] k t]])
    fix a s' g' assume k': "kept J s' g'" and a: "since J t s g (key_result evp J s g key) a s' g'"
    obtain l p where lp: "a = (l, p)" by force
    have l: "later J t s g s' g'" and r: "key_result evp J s g key a s' g'" using a by (simp_all add: since_def)
    have "key_item evp (jb_size J) key \<in># jb_start J + all_put J g'" if "l < 8"
      using r that lp keyedD(3) [OF K, of key l] by (auto simp: key_result_def seen_def)
    then have "key_item evp (jb_size J) key \<in> all_items J" if "l < 8"
      using that all_put_quota [OF k'] by (auto simp: all_items_def dest: mset_subset_eqD)
    then have "call_answer evp (jb_size J) (all_items J) (jb_removable J) K (FindKey key) (Inr l)"
      using r lp kn by (auto simp: key_result_def knows_def)
    moreover have "did J t s g {#} {#} s' g'" by (rule later_did [OF k l])
    moreover have "knows J K s'" by (rule knows_keeps [OF kn later_keeps [OF k l]])
    ultimately have "call_done evp J t s g K (FindKey key) (Inr l) s' g'" by (simp add: call_done_def)
    with call_done_later [OF k'] lp
    show "lf_mix J t (\<lambda>l s' g'. call_done evp J t s g K (FindKey key) (Inr l) s' g')
        (case a of (location, place_holder) \<Rightarrow> LRet location) 0 s' g'"
      by simp
  qed (use fuel in auto)
  then show ?thesis
    unfolding lf_op.simps
    by (rule lf_mix_wrap [OF _ k t]) (auto simp: call_cost_def intro: call_done_later)
qed

lemma lf_mix_op_remove:
  assumes K: "keyed evp J" and t: "t < jb_threads J" and k: "kept J s g"
    and fuel: "max_moves J < fuel" and c: "key_item evp (jb_size J) key \<in> jb_removable J" and kn: "knows J K s"
  shows "lf_mix J t (call_done evp J t s g K (RemoveKey key)) (lf_op evp (jb_size J) fuel t (RemoveKey key))
    (call_cost J) s g"
proof -
  have "lf_mix J t (removed evp J t s g key) (lf_remove evp (jb_size J) fuel key t)
      (35 * max_moves J + 38) s g"
    by (rule lf_mix_remove [OF K t k fuel]) (rule c)
  then show ?thesis
    unfolding lf_op.simps
  proof (rule lf_mix_wrap [OF _ k t], goal_cases)
    case (2 r s' g')
    moreover from this have "knows J K s'" using knows_keeps [OF kn] by (simp add: removed_def did_def)
    ultimately show ?case by (simp add: call_done_def removed_def)
  next
    case (3 r s' g' s'' g'')
    then show ?case by (rule call_done_later)
  qed (simp add: call_cost_def)
qed

lemma lf_mix_op:
  assumes K: "keyed evp J" and t: "t < jb_threads J" and k: "kept J s g"
    and fuel: "max_moves J < fuel" and c: "job_call evp J c" and kn: "knows J K s"
    and quota: "bk_put g t + call_put evp (jb_size J) c \<subseteq># jb_quota J t"
  shows "lf_mix J t (call_done evp J t s g K c) (lf_op evp (jb_size J) fuel t c) (call_cost J) s g"
  using c quota lf_mix_op_insert [OF K t k fuel _ kn] lf_mix_op_find [OF K t k fuel kn]
    lf_mix_op_remove [OF K t k fuel _ kn]
  by (cases c) simp_all

definition calls_done ::
  "evp_digest \<Rightarrow> job \<Rightarrow> nat \<Rightarrow> lf_filter \<Rightarrow> book \<Rightarrow> item set \<Rightarrow> filter_call list \<Rightarrow> (bool + nat) list \<Rightarrow> lf_filter \<Rightarrow> book \<Rightarrow> bool" where
  "calls_done evp J t s0 g0 K cs rs s g \<longleftrightarrow>
     answers evp (jb_size J) (all_items J) (jb_removable J) K cs rs \<and>
     did J t s0 g0 (puts evp (jb_size J) cs) (dels evp (jb_size J) cs rs) s g"

lemma lf_mix_client:
  assumes K: "keyed evp J" and t: "t < jb_threads J" and fuel: "max_moves J < fuel"
  shows "kept J s g \<Longrightarrow> (\<And>c. c \<in> set cs \<Longrightarrow> job_call evp J c) \<Longrightarrow> knows J K' s \<Longrightarrow>
    bk_put g t + puts evp (jb_size J) cs \<subseteq># jb_quota J t \<Longrightarrow>
    lf_mix J t (calls_done evp J t s g K' cs) (lf_client evp (jb_size J) fuel t cs)
      (call_cost J * length cs) s g"
proof (induction cs arbitrary: s g K')
  case Nil
  then show ?case using later_did by (auto simp: calls_done_def)
next
  case (Cons c cs)
  note k = Cons.prems(1)
  have quota: "bk_put g t + call_put evp (jb_size J) c \<subseteq># jb_quota J t"
    using Cons.prems(4) by (auto intro: subset_mset.order_trans [rotated] simp: ac_simps)
  have "lf_mix J t (calls_done evp J t s g K' (c # cs)) (lf_client evp (jb_size J) fuel t (c # cs))
      (call_cost J + call_cost J * length cs) s g"
    unfolding lf_client.simps
  proof (rule lf_mix_bind [OF lf_mix_op [OF K t k fuel _ Cons.prems(3) quota] k t])
    fix r s1 g1
    assume k1: "kept J s1 g1" and r: "call_done evp J t s g K' c r s1 g1"
    let ?K = "K' \<union> set_mset (call_put evp (jb_size J) c)"
    have "bk_put g1 t + puts evp (jb_size J) cs \<subseteq># jb_quota J t"
      using r Cons.prems(4) by (simp add: call_done_def did_def add.assoc)
    then have IH: "lf_mix J t (calls_done evp J t s1 g1 ?K cs) (lf_client evp (jb_size J) fuel t cs)
        (call_cost J * length cs) s1 g1"
      using r Cons.prems(2) by (intro Cons.IH [OF k1]) (auto simp: call_done_def)
    show "lf_mix J t (calls_done evp J t s g K' (c # cs))
        (lf_bind (lf_client evp (jb_size J) fuel t cs) (\<lambda>rs. LRet (r # rs))) (call_cost J * length cs) s1 g1"
    proof (rule lf_mix_wrap [OF IH k1 t order_refl])
      fix rs s2 g2 assume "calls_done evp J t s1 g1 ?K cs rs s2 g2"
      with r show "calls_done evp J t s g K' (c # cs) (r # rs) s2 g2"
        using did_trans [of J t s g _ _ s1 g1] by (auto simp: calls_done_def call_done_def)
    next
      fix rs s2 g2 s3 g3
      assume "kept J s2 g2" "calls_done evp J t s g K' (c # cs) rs s2 g2" "later J t s2 g2 s3 g3"
      then show "calls_done evp J t s g K' (c # cs) rs s3 g3"
        using did_later by (simp add: calls_done_def)
    qed
  qed (use Cons.prems(2) in simp)
  then show ?case by simp
qed

section \<open>Runs\<close>

interpretation lf_overlap: thread_rely "with_book (lf_act env) (note_act (jb_size J))"
    "\<lambda>sg. env_ok env \<and> kept J (fst sg) (snd sg)"
    "\<lambda>t n sg p. t < jb_threads J \<and> (lf_mix J t (Q t) p n (fst sg) (snd sg) \<or> p = LAbort)"
    "\<lambda>u sg sg'. lf_rely J u (fst sg) (snd sg) (fst sg') (snd sg')"
    for env J Q
proof (unfold_locales, goal_cases)
  case (1 sg t n p p' sg')
  obtain s g s' g' where sg: "sg = (s, g)" "sg' = (s', g')" by (metis surj_pair)
  from 1(3) have act: "lf_act env t p s = Some (p', s')" "g' = note_act (jb_size J) t p s g"
    by (simp_all add: sg with_book_Some)
  have "p \<noteq> LAbort" using act(1) by (auto simp: lf_act_def)
  with lf_mix_act [OF _ _ _ _ act(1), of J g "Q t" n] 1(1,2) show ?case by (auto simp: sg act(2))
next
  case (2 sg u n p sg')
  then show ?case
    using lf_mix_later [of J "fst sg" "snd sg" u "fst sg'" "snd sg'" "Q u" p n]
    by (auto simp: later_def)
qed

text \<open>The job and the book that a configuration starts with: all threads of the filter take part.\<close>

definition start_job :: "evp_digest \<Rightarrow> lf_filter \<Rightarrow> filter_call list list \<Rightarrow> job" where
  "start_job evp s css = \<lparr>jb_size = lf_table_size s, jb_threads = length css, jb_start = lf_items s,
     jb_quota = (\<lambda>t. puts evp (lf_table_size s) (css ! t)),
     jb_removable = removable evp (lf_table_size s) css\<rparr>"

definition start_book :: "lf_filter \<Rightarrow> book" where
  "start_book s = \<lparr>bk_put = \<lambda>_. {#}, bk_del = \<lambda>_. {#},
     bk_used = {(b, i). get_real_pointer (lf_at s b i) \<noteq> 0}\<rparr>"

text \<open>
  Every inserted key has a bucket for which at most four of the items in the table and of those
  inserted in the run are destined.
\<close>

definition roomy :: "evp_digest \<Rightarrow> lf_filter \<Rightarrow> filter_call list list \<Rightarrow> bool" where
  "roomy evp s css \<longleftrightarrow> (\<forall>it \<in># puts evp (lf_table_size s) (concat css). \<exists>b \<in> snd it.
     in_bucket b (lf_items s + puts evp (lf_table_size s) (concat css)) \<le> NUM_ITEMS_PER_ENTRY)"

text \<open>A bound on the number of slot changes, and the cost of a call that follows from it.\<close>

definition slot_changes :: "evp_digest \<Rightarrow> lf_filter \<Rightarrow> filter_call list list \<Rightarrow> nat" where
  "slot_changes evp s css = size (lf_items s) + 2 * size (puts evp (lf_table_size s) (concat css))"

lemma puts_append: "puts evp ts (cs @ ds) = puts evp ts cs + puts evp ts ds"
  by (simp add: puts_def)

lemma puts_concat: "puts evp ts (concat css) = sum_list (map (puts evp ts) css)"
  by (induction css) (simp_all add: puts_append)

lemma start_quota: "whole_quota (start_job evp s css) = puts evp (lf_table_size s) (concat css)"
  unfolding puts_concat whole_quota_def start_job_def sum_list_sum_nth
  by (simp add: atLeast0LessThan)

lemma start_max_moves: "max_moves (start_job evp s css) = slot_changes evp s css"
  unfolding max_moves_def slot_changes_def start_quota by (simp add: start_job_def)

lemma in_bucket_sum: "finite A \<Longrightarrow> in_bucket b (sum f A) = (\<Sum>x \<in> A. in_bucket b (f x))"
  by (induction rule: finite_induct) (auto simp: in_bucket_def)

lemma occupied_in_bucket:
  assumes q: "lf_quiet ts n s" and b: "b < ts"
  shows "card {i. i < NUM_ITEMS_PER_ENTRY \<and> get_real_pointer (lf_at s b i) \<noteq> 0} \<le> in_bucket b (lf_items s)"
proof -
  let ?w = "\<lambda>(c, i). slot_contents (\<lambda>b fp. {#(fp, home ts b fp)#}) (word_of_nat c) (cell (lf_view s) c i)"
  let ?cells = "{..<unat ts} \<times> {..<NUM_ITEMS_PER_ENTRY}"
  let ?row = "(\<lambda>i. (unat b, i)) ` {i. i < NUM_ITEMS_PER_ENTRY \<and> get_real_pointer (lf_at s b i) \<noteq> 0}"
  have "b \<in> snd (fp, home ts b fp)" for fp by (simp add: home_def)
  then have one: "in_bucket b (?w x) = 1" if "x \<in> ?row" for x
    using that lf_quiet_slot(3) [OF q b] cell_lf_view [OF lf_quietD(1) [OF q] b]
    by (auto simp: slot_contents_def in_bucket_def)
  have row: "?row \<subseteq> ?cells" using b by (auto simp: word_less_nat_alt)
  have "card {i. i < NUM_ITEMS_PER_ENTRY \<and> get_real_pointer (lf_at s b i) \<noteq> 0} = card ?row"
    by (simp add: card_image inj_on_def)
  also have "\<dots> = (\<Sum>x \<in> ?row. in_bucket b (?w x))" by (simp add: one)
  also have "\<dots> \<le> (\<Sum>x \<in> ?cells. in_bucket b (?w x))" by (rule sum_mono2) (use row in auto)
  also have "\<dots> = in_bucket b (sum ?w ?cells)" by (simp add: in_bucket_sum)
  also have "sum ?w ?cells = lf_items s"
    by (simp add: lf_items_def items_def contents_def cell_sum_def lf_quietD(2) [OF q])
  finally show ?thesis .
qed

lemma start_kept:
  assumes "lf_quiet (lf_table_size s) (length css) s"
  shows "kept (start_job evp s css) s (start_book s)"
proof -
  have sums: "all_put (start_job evp s css) (start_book s) = {#}" "all_del (start_job evp s css) (start_book s) = {#}"
    by (simp_all add: all_put_def all_del_def start_book_def)
  show ?thesis
    unfolding kept_def sums using assms occupied_in_bucket [OF assms]
    by (simp add: start_job_def start_book_def)
qed

lemma start_keyed: "lf_ready evp ts n s \<Longrightarrow> keyed evp (start_job evp s css)"
  using lf_quietD(2) [of ts n s] by (auto simp: keyed_def start_job_def lf_ready_def)

lemma start_calls:
  assumes r: "lf_ready evp ts n s" and roomy: "roomy evp s css" and c: "cs \<in> set css" "c \<in> set cs"
  shows "job_call evp (start_job evp s css) c"
proof (cases c)
  case (InsertKey k)
  have ts: "lf_table_size s = ts" "is_pow2 ts" using r lf_quietD(2) by (auto simp: lf_ready_def)
  have "puts evp ts cs \<subseteq># puts evp ts (concat css)"
    unfolding puts_concat using c(1) by (induction css) (auto intro: subset_mset.add_increasing2 subset_mset.add_increasing)
  moreover have "key_item evp ts k \<in># puts evp ts cs" using c(2) InsertKey by (induction cs) auto
  ultimately have "key_item evp ts k \<in># puts evp ts (concat css)" by (rule mset_subset_eqD)
  then obtain b where b: "b \<in> snd (key_item evp ts k)"
    "in_bucket b (lf_items s + puts evp ts (concat css)) \<le> NUM_ITEMS_PER_ENTRY"
    using roomy ts(1) by (auto simp: roomy_def)
  moreover have "b < ts"
    using b(1) hash_mod_less [OF is_pow2_neq_0 [OF ts(2)]] get_next_hash_index_less [OF is_pow2_neq_0 [OF ts(2)]]
    by (auto simp: key_item_def home_def)
  ultimately show ?thesis
    using InsertKey start_quota [of evp s css] ts(1) by (auto simp: room_def start_job_def)
next
  case (RemoveKey k)
  with c show ?thesis by (auto simp: start_job_def removable_def)
qed simp

text \<open>What holds of every configuration that a run reaches.\<close>

lemma overlap_run:
  assumes r: "lf_ready evp ts (length css) s" and env: "env_ok env" and roomy: "roomy evp s css"
    and fuel: "slot_changes evp s css < fuel"
    and exec: "thread_exec (lf_act env) sched (lf_start evp fuel s css) = Some (s', ps)"
  defines "J \<equiv> start_job evp s css"
  obtains g where "kept J s' g" "length ps = length css"
    "\<And>t. t < length css \<Longrightarrow> count_list sched t \<le> call_cost J * length (css ! t) \<and>
       (lf_mix J t (calls_done evp J t s (start_book s) (set_mset (lf_items s)) (css ! t)) (ps ! t)
         (call_cost J * length (css ! t) - count_list sched t) s' g \<or> ps ! t = LAbort)"
proof -
  let ?ps = "map (\<lambda>t. lf_client evp ts fuel t (css ! t)) [0..<length css]"
  let ?Q = "\<lambda>t. calls_done evp J t s (start_book s) (set_mset (lf_items s)) (css ! t)"
  let ?act = "with_book (lf_act env) (note_act (jb_size J))"
  have q: "lf_quiet ts (length css) s" using r by (simp add: lf_ready_def)
  have J: "jb_size J = ts" "jb_threads J = length css" "jb_start J = lf_items s"
    using lf_quietD(2) [OF q] by (simp_all add: J_def start_job_def)
  have k: "kept J s (start_book s)"
    unfolding J_def by (rule start_kept) (use q lf_quietD(2) [OF q] in simp)
  have "thread_exec (lf_act env) sched (s, ?ps) = Some (s', ps)"
    using exec lf_quietD(2) [OF q] by (simp add: lf_start_def)
  from exec_with_book [OF this, of "note_act (jb_size J)" "start_book s"]
  obtain g where run: "thread_exec ?act sched ((s, start_book s), ?ps) = Some ((s', g), ps)" by blast
  have "lf_mix J t (?Q t) (?ps ! t) (call_cost J * length (css ! t)) s (start_book s)"
    if t: "t < length css" for t
  proof -
    have "lf_mix J t (?Q t) (lf_client evp ts fuel t (css ! t)) (call_cost J * length (css ! t)) s (start_book s)"
      unfolding J(1) [symmetric]
    proof (rule lf_mix_client [OF _ _ _ k])
      show "keyed evp J" unfolding J_def by (rule start_keyed [OF r])
      show "max_moves J < fuel" unfolding J_def start_max_moves by (rule fuel)
      show "job_call evp J c" if "c \<in> set (css ! t)" for c
        unfolding J_def by (rule start_calls [OF r roomy nth_mem [OF t] that])
    qed (use t J in \<open>simp_all add: knows_def start_book_def J_def start_job_def\<close>)
    with t show ?thesis by simp
  qed
  then have "\<forall>t < length ?ps. t < jb_threads J \<and>
      (lf_mix J t (?Q t) (?ps ! t) (call_cost J * length (css ! t)) s (start_book s) \<or> ?ps ! t = LAbort)"
    using J(2) by simp
  with lf_overlap.exec_keeps [where Q = ?Q and N = "\<lambda>t. call_cost J * length (css ! t)", OF run] k env
  have "length ps = length css" "kept J s' g"
    "\<forall>t < length css. count_list sched t \<le> call_cost J * length (css ! t) \<and>
       (lf_mix J t (?Q t) (ps ! t) (call_cost J * length (css ! t) - count_list sched t) s' g \<or> ps ! t = LAbort)"
    by auto
  then show thesis using that [of g] by simp
qed

lemma overlap_conserved:
  assumes "lf_ready evp ts (length css) s" "env_ok env" "roomy evp s css" "slot_changes evp s css < fuel"
    and "thread_exec (lf_act env) sched (lf_start evp fuel s css) = Some (s', ps)"
  shows "lf_ready evp ts (length css) s'"
    and "ps = map LRet rss \<Longrightarrow>
      lf_items s' + sum_list (map2 (dels evp ts) css rss) = lf_items s + puts evp ts (concat css)"
proof -
  have "lf_ready evp ts (length css) s' \<and>
    (ps = map LRet rss \<longrightarrow>
     lf_items s' + sum_list (map2 (dels evp ts) css rss) = lf_items s + puts evp ts (concat css))"
  proof (rule overlap_run [OF assms])
    fix g
    let ?J = "start_job evp s css"
    assume k: "kept ?J s' g" and len: "length ps = length css"
      and mix: "\<And>t. t < length css \<Longrightarrow> count_list sched t \<le> call_cost ?J * length (css ! t) \<and>
        (lf_mix ?J t (calls_done evp ?J t s (start_book s) (set_mset (lf_items s)) (css ! t)) (ps ! t)
          (call_cost ?J * length (css ! t) - count_list sched t) s' g \<or> ps ! t = LAbort)"
    have ts: "lf_table_size s = ts" using assms(1) lf_quietD(2) by (auto simp: lf_ready_def)
    have ready: "lf_ready evp ts (length css) s'"
      using keyedD(6) [OF start_keyed [OF assms(1)] k] ts by (simp add: start_job_def)
    have "lf_items s' + sum_list (map2 (dels evp ts) css rss) = lf_items s + puts evp ts (concat css)"
      if ps: "ps = map LRet rss"
    proof -
      have len': "length rss = length css" using len ps by simp
      have did: "bk_put g t = puts evp ts (css ! t)" "bk_del g t = dels evp ts (css ! t) (rss ! t)"
        if "t < length css" for t
        using mix [OF that] later_refl [OF k, of t] that ps len'
        by (auto simp: calls_done_def did_def start_book_def start_job_def ts)
      have "all_put ?J g = puts evp ts (concat css)"
        unfolding all_put_def puts_concat sum_list_sum_nth
        by (simp add: start_job_def did atLeast0LessThan)
      moreover have "all_del ?J g = sum_list (map2 (dels evp ts) css rss)"
        unfolding all_del_def sum_list_sum_nth using len'
        by (simp add: start_job_def did atLeast0LessThan)
      ultimately show ?thesis using keptD(2) [OF k] by (simp add: start_job_def)
    qed
    with ready show ?thesis by blast
  qed
  then show "lf_ready evp ts (length css) s'"
    and "ps = map LRet rss \<Longrightarrow>
      lf_items s' + sum_list (map2 (dels evp ts) css rss) = lf_items s + puts evp ts (concat css)"
    by simp_all
qed

text \<open>A thread that has not returned can act.\<close>

lemma lf_mix_acts:
  assumes k: "kept J s g" and t: "t < jb_threads J" and mix: "lf_mix J t Q p n s g"
  shows "(\<exists>a. p = LRet a \<and> Q a s g) \<or> (\<exists>d. lf_act env t p s = Some d)"
proof -
  note q = keptD(1) [OF k]
  note len = lf_quietD(4,5) [OF q]
  have slot: "in_table s b i" if "b < jb_size J" "i < NUM_ITEMS_PER_ENTRY" for b i
    by (rule lf_quiet_slot(1) [OF q that])
  show ?thesis
    using mix later_refl [OF k, of t] slot t len
    by (cases p) (auto simp: lf_mix.simps lf_act_def)
qed

text \<open>
  An aborted thread had an allocation refused: at some moment of the run it was about to allocate,
  and the allocator had nothing for the heap of that moment.
\<close>

definition allocation_refused ::
  "lf_env \<Rightarrow> nat list \<Rightarrow> lf_filter \<times> 'a lf_prog list \<Rightarrow> nat \<Rightarrow> bool" where
  "allocation_refused env sched c t \<longleftrightarrow> (\<exists>us vs s ps str k. sched = us @ t # vs \<and>
     thread_exec (lf_act env) us c = Some (s, ps) \<and> ps ! t = LNew str k \<and>
     env_alloc env (lf_heap s) = None)"

lemma client_not_aborted: "lf_client evp ts fuel t cs \<noteq> LAbort"
proof (cases cs)
  case (Cons c cs')
  then show ?thesis
    by (cases c) (simp_all add: lf_insert_def lf_find_def lf_find_at_def lf_remove_def lf_clear_hazard_def)
qed simp

lemma overlap_abort:
  assumes start: "lf_ready evp ts (length css) s" "env_ok env" "roomy evp s css" "slot_changes evp s css < fuel"
    and exec: "thread_exec (lf_act env) sched (lf_start evp fuel s css) = Some (s', ps)"
    and t: "t < length css" and abort: "ps ! t = LAbort"
  shows "allocation_refused env sched (lf_start evp fuel s css) t"
proof -
  let ?ps = "map (\<lambda>t. lf_client evp (lf_table_size s) fuel t (css ! t)) [0..<length css]"
  have "?ps ! t \<noteq> LAbort" using t client_not_aborted by simp
  from thread_exec_change [OF exec [unfolded lf_start_def] _ this abort] t
  obtain us vs s1 ps1 s2 where sched: "sched = us @ t # vs"
    and run: "thread_exec (lf_act env) us (lf_start evp fuel s css) = Some (s1, ps1)"
    and act: "ps1 ! t \<noteq> LAbort" "lf_act env t (ps1 ! t) s1 = Some (LAbort, s2)"
    by (auto simp: lf_start_def)
  show ?thesis
  proof (rule overlap_run [OF start run])
    fix g
    let ?J = "start_job evp s css"
    assume k: "kept ?J s1 g" and "\<And>t. t < length css \<Longrightarrow> count_list us t \<le> call_cost ?J * length (css ! t) \<and>
      (lf_mix ?J t (calls_done evp ?J t s (start_book s) (set_mset (lf_items s)) (css ! t)) (ps1 ! t)
        (call_cost ?J * length (css ! t) - count_list us t) s1 g \<or> ps1 ! t = LAbort)"
    from this(2) [OF t] act(1) have mix: "lf_mix ?J t (calls_done evp ?J t s (start_book s)
        (set_mset (lf_items s)) (css ! t)) (ps1 ! t) (call_cost ?J * length (css ! t) - count_list us t) s1 g"
      by blast
    have "t < jb_threads ?J" using t by (simp add: start_job_def)
    from lf_mix_act [OF start(2) this k mix act(2)]
    have "\<exists>str k. ps1 ! t = LNew str k" "env_alloc env (lf_heap s1) = None" by simp_all
    then show ?thesis unfolding allocation_refused_def using sched run by blast
  qed
qed

section \<open>A concrete run\<close>

text \<open>
  Two threads in turns: thread 0 inserts and finds key 4 while thread 1 inserts and removes key 9.
  Both load slot 0 of bucket 0 before thread 0 swaps its entry in; thread 1 goes on to slot 1.
\<close>

definition turns :: "nat list" where
  "turns = [0, 1, 0, 1, 0, 1, 0, 1, 0, 1, 0, 1, 0, 1, 0, 1, 0, 1, 0, 1,
     1, 1, 1, 1, 1, 1, 1, 1, 1, 1, 1, 1, 1, 1, 1]"

definition two_clients :: "filter_call list list" where
  "two_clients = [[InsertKey [4], FindKey [4]], [InsertKey [9], RemoveKey [9]]]"

lemma demo_distinct: "md5_fingerprint pad_evp [9] \<noteq> md5_fingerprint pad_evp [4]"
  by code_simp

lemma overlap_turns:
  "\<exists>s. thread_exec (lf_act demo_env) turns (lf_start pad_evp (Suc (Suc (Suc F))) lf_demo two_clients) =
     Some (s, map LRet [[Inl True, Inr 0], [Inl True, Inl True]]) \<and>
     lf_hash_table s = [[16, 0, 0, 0], [0, 0, 0, 0]] \<and> lf_retired_ptrs s = [[], [32]]"
  supply lf_lazy [cong]
  unfolding turns_def two_clients_def by (simp add: lf_eval demo_distinct)

lemma overlap_demo:
  "lf_ready pad_evp 2 (length two_clients) lf_demo" "roomy pad_evp lf_demo two_clients"
  "slot_changes pad_evp lf_demo two_clients < 5"
proof -
  show "lf_ready pad_evp 2 (length two_clients) lf_demo"
    using lf_demo_ready by (simp add: two_clients_def numeral_2_eq_2)
  have items: "lf_items lf_demo = {#}" using lf_demo_ready by simp
  show "slot_changes pad_evp lf_demo two_clients < 5"
    by (simp add: slot_changes_def items two_clients_def)
  have ts: "lf_table_size lf_demo = 2" by (simp add: lf_demo_def)
  have "in_bucket b M \<le> size M" for b M unfolding in_bucket_def by (rule size_filter_mset_lesseq)
  from this [of _ "puts pad_evp 2 (concat two_clients)"]
  have "in_bucket b (puts pad_evp 2 (concat two_clients)) \<le> 2" for b
    by (simp add: two_clients_def numeral_2_eq_2)
  moreover have "\<exists>b. b \<in> snd it" if "it \<in># puts pad_evp 2 (concat two_clients)" for it
    using that by (auto simp: two_clients_def key_item_def home_def)
  ultimately have "\<exists>b \<in> snd it. in_bucket b (puts pad_evp 2 (concat two_clients)) \<le> 2"
    if "it \<in># puts pad_evp 2 (concat two_clients)" for it using that by blast
  moreover have "2 \<le> NUM_ITEMS_PER_ENTRY" by (simp add: NUM_ITEMS_PER_ENTRY_def)
  ultimately show "roomy pad_evp lf_demo two_clients"
    unfolding roomy_def ts items add_0 by (meson order_trans)
qed

section \<open>Properties\<close>

text \<open>
  C4. Bounded calls while nothing has to be evicted: any threads, as many as the filter was made
  for, call \<open>insert\<close>, \<open>find\<close> and \<open>remove\<close> at the same time, and every inserted key has a bucket for
  which at most four of the items of the run are destined. Then under every schedule each call
  takes at most \<open>35 m + 38\<close> actions of its thread, \<open>m\<close> being the number of slot changes possible,
  and a thread that has not returned can act: none loops, faults or waits, and a thread aborts
  only if in this very run one of its own allocations was refused.
\<close>

theorem lf_overlap_bounded:
  assumes "lf_ready evp ts (length css) s" "env_ok env" "roomy evp s css" "slot_changes evp s css < fuel"
    and "thread_exec (lf_act env) sched (lf_start evp fuel s css) = Some (s', ps)" "t < length css"
  shows "count_list sched t \<le> (35 * slot_changes evp s css + 38) * length (css ! t) \<and>
    ((\<exists>rs. ps ! t = LRet rs) \<or> (\<exists>d. lf_act env t (ps ! t) s' = Some d) \<or>
     (ps ! t = LAbort \<and> allocation_refused env sched (lf_start evp fuel s css) t))"
proof (rule overlap_run [OF assms(1-5)])
  fix g
  let ?J = "start_job evp s css"
  assume k: "kept ?J s' g" and "\<And>t. t < length css \<Longrightarrow> count_list sched t \<le> call_cost ?J * length (css ! t) \<and>
    (lf_mix ?J t (calls_done evp ?J t s (start_book s) (set_mset (lf_items s)) (css ! t)) (ps ! t)
      (call_cost ?J * length (css ! t) - count_list sched t) s' g \<or> ps ! t = LAbort)"
  note P = this(2) [OF assms(6)]
  have t: "t < jb_threads ?J" using assms(6) by (simp add: start_job_def)
  have "(\<exists>rs. ps ! t = LRet rs) \<or> (\<exists>d. lf_act env t (ps ! t) s' = Some d) \<or>
      (ps ! t = LAbort \<and> allocation_refused env sched (lf_start evp fuel s css) t)"
    using P [THEN conjunct2]
  proof
    assume "ps ! t = LAbort"
    with overlap_abort [OF assms] show ?thesis by blast
  qed (use lf_mix_acts [OF k t] in blast)
  with P [THEN conjunct1] show ?thesis unfolding call_cost_def start_max_moves by blast
qed

lemma lf_overlap_bounded_witness:
  "\<exists>s ps. thread_exec (lf_act demo_env) turns (lf_start pad_evp 5 lf_demo two_clients) = Some (s, ps) \<and>
     ps ! 1 = LRet [Inl True, Inl True] \<and>
     count_list turns 1 \<le> (35 * slot_changes pad_evp lf_demo two_clients + 38) * 2"
proof -
  obtain s where run: "thread_exec (lf_act demo_env) turns
      (lf_start pad_evp (Suc (Suc (Suc 2))) lf_demo two_clients) =
      Some (s, map LRet [[Inl True, Inr 0], [Inl True, Inl True]])"
    using overlap_turns [of 2] by blast
  then have "count_list turns 1 \<le> (35 * slot_changes pad_evp lf_demo two_clients + 38) * 2"
    using lf_overlap_bounded [OF overlap_demo(1) demo_env_ok overlap_demo(2) _ run, of 1] overlap_demo(3)
    by (simp add: two_clients_def)
  with run show ?thesis by simp
qed

text \<open>
  C3. Nothing is lost or duplicated while nothing has to be evicted: in every state a run reaches
  no slot is marked, and when all threads have returned, the table holds exactly the items it
  held before and those inserted, less those whose removal was answered true.
\<close>

theorem lf_overlap_conserves:
  assumes "lf_ready evp ts (length css) s" "env_ok env" "roomy evp s css" "slot_changes evp s css < fuel"
    and "thread_exec (lf_act env) sched (lf_start evp fuel s css) = Some (s', ps)"
  shows "lf_ready evp ts (length css) s' \<and>
    (ps = map LRet rss \<longrightarrow>
     lf_items s' + sum_list (map2 (dels evp ts) css rss) = lf_items s + puts evp ts (concat css))"
  using overlap_conserved [OF assms] by blast

lemma lf_overlap_conserves_witness:
  "\<exists>s. thread_exec (lf_act demo_env) turns (lf_start pad_evp 5 lf_demo two_clients) =
       Some (s, map LRet [[Inl True, Inr 0], [Inl True, Inl True]]) \<and>
     lf_items s = {#key_item pad_evp 2 [4]#}"
proof -
  obtain s where run: "thread_exec (lf_act demo_env) turns
      (lf_start pad_evp (Suc (Suc (Suc 2))) lf_demo two_clients) =
      Some (s, map LRet [[Inl True, Inr 0], [Inl True, Inl True]])"
    using overlap_turns [of 2] by blast
  have "lf_items s = {#key_item pad_evp 2 [4]#}"
    using lf_overlap_conserves [OF overlap_demo(1) demo_env_ok overlap_demo(2) _ run,
        of "[[Inl True, Inr 0], [Inl True, Inl True]]"] overlap_demo(3) lf_demo_ready(2)
    by (simp add: two_clients_def)
  with run show ?thesis by simp
qed

text \<open>
  C5. Answers while nothing has to be evicted, under every schedule: every insertion succeeds;
  a key that is found was in the table at the start or is inserted in the run; a key whose item
  nobody removes is found if it was in the table at the start or the same thread has inserted it.
\<close>

theorem lf_overlap_answers:
  assumes "lf_ready evp ts (length css) s" "env_ok env" "roomy evp s css" "slot_changes evp s css < fuel"
    and "thread_exec (lf_act env) sched (lf_start evp fuel s css) = Some (s', ps)"
    and "t < length css" "ps ! t = LRet rs"
  shows "answers evp ts (set_mset (lf_items s + puts evp ts (concat css))) (removable evp ts css)
    (set_mset (lf_items s)) (css ! t) rs"
proof (rule overlap_run [OF assms(1-5)])
  fix g
  let ?J = "start_job evp s css"
  assume k: "kept ?J s' g" and "\<And>t. t < length css \<Longrightarrow> count_list sched t \<le> call_cost ?J * length (css ! t) \<and>
    (lf_mix ?J t (calls_done evp ?J t s (start_book s) (set_mset (lf_items s)) (css ! t)) (ps ! t)
      (call_cost ?J * length (css ! t) - count_list sched t) s' g \<or> ps ! t = LAbort)"
  from this(2) [OF assms(6)] later_refl [OF k, of t] assms(7)
  have "calls_done evp ?J t s (start_book s) (set_mset (lf_items s)) (css ! t) rs s' g" by auto
  moreover have "lf_table_size s = ts" using assms(1) lf_quietD(2) by (auto simp: lf_ready_def)
  ultimately show ?thesis
    using start_quota [of evp s css] by (simp add: calls_done_def all_items_def start_job_def)
qed

lemma lf_overlap_answers_witness:
  "\<exists>s ps. thread_exec (lf_act demo_env) turns (lf_start pad_evp 5 lf_demo two_clients) = Some (s, ps) \<and>
     ps ! 0 = LRet [Inl True, Inr 0] \<and>
     answers pad_evp 2 {key_item pad_evp 2 [4], key_item pad_evp 2 [9]}
       (removable pad_evp 2 two_clients) {} (two_clients ! 0) [Inl True, Inr 0]"
proof -
  obtain s where run: "thread_exec (lf_act demo_env) turns
      (lf_start pad_evp (Suc (Suc (Suc 2))) lf_demo two_clients) =
      Some (s, map LRet [[Inl True, Inr 0], [Inl True, Inl True]])"
    using overlap_turns [of 2] by blast
  have "set_mset (lf_items lf_demo + puts pad_evp 2 (concat two_clients)) =
      {key_item pad_evp 2 [4], key_item pad_evp 2 [9]}"
    using lf_demo_ready(2) by (simp add: two_clients_def insert_commute)
  with lf_overlap_answers [OF overlap_demo(1) demo_env_ok overlap_demo(2) _ run, of 0 "[Inl True, Inr 0]"]
    overlap_demo(3) lf_demo_ready(2)
  have "answers pad_evp 2 {key_item pad_evp 2 [4], key_item pad_evp 2 [9]}
      (removable pad_evp 2 two_clients) {} (two_clients ! 0) [Inl True, Inr 0]"
    by (simp add: two_clients_def)
  with run show ?thesis by simp
qed

text \<open>A run of the two phases: both threads insert, then thread 0 queries and thread 1 removes.\<close>

definition lf_loaded :: lf_filter where
  "lf_loaded = lf_demo\<lparr>lf_hash_table := [[16, 32, 0, 0], [0, 0, 0, 0]],
     lf_heap := [16 \<mapsto> md5_fingerprint pad_evp [4], 32 \<mapsto> md5_fingerprint pad_evp [9]]\<rparr>"

definition loaders :: "filter_call list list" where
  "loaders = [[InsertKey [4]], [InsertKey [9]]]"

lemma load_run:
  "thread_exec (lf_act demo_env) [0, 1, 0, 1, 0, 1, 0, 1, 0, 1, 1, 1, 1]
     (lf_start pad_evp (Suc (Suc (Suc F))) lf_demo loaders) =
   Some (lf_loaded, map LRet [[Inl True], [Inl True]])"
  supply lf_lazy [cong]
  unfolding loaders_def lf_loaded_def by (simp add: lf_eval demo_distinct)

lemma query_run:
  "\<exists>s ps. thread_exec (lf_act demo_env) [0, 1, 0, 1, 0, 1, 0, 1, 0, 1]
     (lf_start pad_evp (Suc (Suc F)) lf_loaded [[FindKey [4]], [RemoveKey [9]]]) = Some (s, ps) \<and>
     ps ! 0 = LRet [Inr 0]"
  supply lf_lazy [cong]
  unfolding lf_loaded_def by (simp add: lf_eval demo_distinct)

lemma dels_no_removal: "\<forall>c \<in> set cs. \<exists>k. c = InsertKey k \<Longrightarrow> dels evp ts cs rs = {#}"
proof (induction cs arbitrary: rs)
  case (Cons c cs)
  then show ?case by (cases rs) (auto simp: dels_def)
qed simp

lemma no_removal:
  "\<forall>cs \<in> set css. \<forall>c \<in> set cs. \<exists>k. c = InsertKey k \<Longrightarrow> sum_list (map2 (dels evp ts) css rss) = {#}"
proof (induction css arbitrary: rss)
  case (Cons cs css)
  then show ?case by (cases rss) (auto simp: dels_no_removal)
qed simp

text \<open>
  C6. The two phases of the lock-free test: first all threads insert at the same time, into a
  table with room, then, when all have returned, threads query and remove at the same time. Under
  every pair of schedules a key whose item no thread removes is found in the second phase exactly
  if it was in the table before or was inserted in the first.
\<close>

theorem lf_load_then_query:
  assumes "lf_ready evp ts (length css) s" "env_ok env" "roomy evp s css" "slot_changes evp s css < fuel"
    and ins: "\<forall>cs \<in> set css. \<forall>c \<in> set cs. \<exists>k. c = InsertKey k"
    and load: "thread_exec (lf_act env) sched (lf_start evp fuel s css) = Some (s1, map LRet rss)"
    and qry: "\<forall>cs \<in> set css'. \<forall>c \<in> set cs. \<forall>k. c \<noteq> InsertKey k" "length css' \<le> length css" "9 \<le> fuel'"
    and run: "thread_exec (lf_act env') sched' (lf_start evp fuel' s1 css') = Some (s2, ps)"
    and "t < length css'" "ps ! t = LRet rs" "i < length (css' ! t)" "css' ! t ! i = FindKey k"
    and "key_item evp ts k \<notin> removable evp ts css'"
  shows "rs ! i \<noteq> Inr 8 \<longleftrightarrow> key_item evp ts k \<in># lf_items s + puts evp ts (concat css)"
proof -
  note ready = overlap_conserved(1) [OF assms(1-4) load]
  from overlap_conserved(2) [OF assms(1-4) load refl] no_removal [OF ins]
  have "lf_items s1 = lf_items s + puts evp ts (concat css)" by simp
  with phase_answers(2) [OF ready qry(2,3) phase_calls [OF qry(1)] run assms(11-13) assms(14,15)]
  show ?thesis by simp
qed

lemma loaders_demo:
  "lf_ready pad_evp 2 (length loaders) lf_demo" "roomy pad_evp lf_demo loaders"
  "slot_changes pad_evp lf_demo loaders < 5"
  using overlap_demo
  by (simp_all add: loaders_def two_clients_def roomy_def slot_changes_def)

lemma lf_load_then_query_witness:
  "\<exists>s ps. thread_exec (lf_act demo_env) [0, 1, 0, 1, 0, 1, 0, 1, 0, 1, 1, 1, 1]
       (lf_start pad_evp 5 lf_demo loaders) = Some (lf_loaded, map LRet [[Inl True], [Inl True]]) \<and>
     thread_exec (lf_act demo_env) [0, 1, 0, 1, 0, 1, 0, 1, 0, 1]
       (lf_start pad_evp 10 lf_loaded [[FindKey [4]], [RemoveKey [9]]]) = Some (s, ps) \<and>
     ps ! 0 = LRet [Inr 0] \<and> key_item pad_evp 2 [4] \<in># puts pad_evp 2 (concat loaders)"
proof -
  have load: "thread_exec (lf_act demo_env) [0, 1, 0, 1, 0, 1, 0, 1, 0, 1, 1, 1, 1]
      (lf_start pad_evp 5 lf_demo loaders) = Some (lf_loaded, map LRet [[Inl True], [Inl True]])"
    using load_run [of 2] by simp
  obtain s ps where run: "thread_exec (lf_act demo_env) [0, 1, 0, 1, 0, 1, 0, 1, 0, 1]
      (lf_start pad_evp 10 lf_loaded [[FindKey [4]], [RemoveKey [9]]]) = Some (s, ps)"
    and ps: "ps ! 0 = LRet [Inr 0]"
    using query_run [of 8] by auto
  have "key_item pad_evp 2 [4] \<notin> removable pad_evp 2 [[FindKey [4]], [RemoveKey [9]]]"
    using demo_distinct by (auto simp: removable_def key_item_def)
  moreover have "\<forall>cs \<in> set loaders. \<forall>c \<in> set cs. \<exists>k. c = InsertKey k" by (simp add: loaders_def)
  ultimately have "key_item pad_evp 2 [4] \<in># lf_items lf_demo + puts pad_evp 2 (concat loaders)"
    using lf_load_then_query [OF loaders_demo(1) demo_env_ok loaders_demo(2,3) _ load _ _ _ run, of 0 "[Inr 0]" 0 "[4]"] ps
    by (simp add: loaders_def)
  with load run ps lf_demo_ready(2) show ?thesis by auto
qed

end
