(* ===== verification/Cycle_Timer.thy ===== *)
theory Cycle_Timer
  imports Complex_Main Prelude
begin

text \<open>
  \<open>CycleTimer\<close> of \<open>include/cycle_timer.h\<close>, the clock of the benchmark. Conditional compilation is an
  argument, the target; what the processor and the operating system answer is a record of
  readings. Floating point numbers are those of an arbitrary arithmetic, given by its literals,
  operations, conversions and the reading of \<open>%f\<close>: no result here depends on rounding. The two
  static variables of \<open>secondsPerTick\<close> are the state. The branch of \<open>currentTicks\<close> for ARM is left
  out: its condition ends in \<open>&& 0\<close>.
\<close>

section \<open>Targets, readings and numbers\<close>

text \<open>The macros \<open>__APPLE__\<close>, \<open>_WIN32\<close>, \<open>__WIN32__\<close> and \<open>__x86_64__\<close>.\<close>

record target =
  apple :: bool
  win32 :: bool
  win32_gnu :: bool
  x86_64 :: bool

text \<open>
  EDX and EAX after \<open>rdtsc\<close>, \<open>mach_absolute_time\<close> and its time base, the performance counter and
  its frequency, \<open>clock_gettime\<close>, the frequency from \<open>sysctl\<close> unless the call fails, and the text
  of \<open>/proc/cpuinfo\<close> unless it cannot be opened.
\<close>

record readings =
  rd_edx :: u32
  rd_eax :: u32
  rd_mach_time :: u64
  rd_mach_base :: "u32 \<times> u32"
  rd_counter :: u64
  rd_counter_freq :: u64
  rd_clock :: "u64 \<times> u64"
  rd_cpu_freq :: "u32 option"
  rd_cpuinfo :: "string option"

text \<open>\<open>'f\<close> is \<open>float\<close>, \<open>'d\<close> is \<open>double\<close>; the literal \<open>m\<close>e\<open>n\<close> is \<open>lit m n\<close>.\<close>

record ('f, 'd) arithmetic =
  f32_lit :: "int \<Rightarrow> int \<Rightarrow> 'f"
  f32_div :: "'f \<Rightarrow> 'f \<Rightarrow> 'f"
  f32_of_s64 :: "u64 \<Rightarrow> 'f"
  f32_scan :: "string \<Rightarrow> 'f option"
  f64_lit :: "int \<Rightarrow> int \<Rightarrow> 'd"
  f64_add :: "'d \<Rightarrow> 'd \<Rightarrow> 'd"
  f64_mul :: "'d \<Rightarrow> 'd \<Rightarrow> 'd"
  f64_div :: "'d \<Rightarrow> 'd \<Rightarrow> 'd"
  f64_of_f32 :: "'f \<Rightarrow> 'd"
  f64_of_u32 :: "u32 \<Rightarrow> 'd"
  f64_of_s64 :: "u64 \<Rightarrow> 'd"
  f64_of_u64 :: "u64 \<Rightarrow> 'd"
  u64_of_f64 :: "'d \<Rightarrow> u64"

datatype timer_error = Exit | ReadUninitialised

section \<open>C strings and files\<close>

definition newline :: char where
  "newline = CHR 0x0A"

text \<open>The part of a buffer before the first null character.\<close>

definition c_str :: "string \<Rightarrow> string" where
  "c_str = takeWhile (\<lambda>c. c \<noteq> CHR 0x00)"

text \<open>\<open>strstr\<close>: the rest of the string from the first occurrence of the pattern on.\<close>

primrec strstr :: "string \<Rightarrow> string \<Rightarrow> string option" where
  "strstr [] pat = (if pat = [] then Some [] else None)"
| "strstr (c # s) pat = (if take (length pat) (c # s) = pat then Some (c # s) else strstr s pat)"

text \<open>A string that is cut where a suffix of it begins, as by \<open>*suffix = '\0'\<close>.\<close>

definition cut_at :: "string \<Rightarrow> string \<Rightarrow> string" where
  "cut_at s suffix = take (length s - length suffix) s"

text \<open>\<open>fgets\<close> with a buffer of \<open>n\<close> characters: what it reads, and the rest of the file.\<close>

definition fgets :: "nat \<Rightarrow> string \<Rightarrow> string \<times> string" where
  "fgets n s = (let k = min (n - 1) (length (takeWhile (\<lambda>c. c \<noteq> newline) s) + 1) in (take k s, drop k s))"

text \<open>
  Matching of a \<open>sscanf\<close> format up to its conversion: white space in the format skips any white
  space, every other character has to be there.
\<close>

definition isspace :: "char \<Rightarrow> bool" where
  "isspace c \<longleftrightarrow> c \<in> {CHR '' '', CHR 0x09, CHR 0x0A, CHR 0x0B, CHR 0x0C, CHR 0x0D}"

fun scan_format :: "string \<Rightarrow> string \<Rightarrow> string option" where
  "scan_format [] s = Some s"
| "scan_format (f # fs) s =
     (if isspace f then scan_format fs (dropWhile isspace s)
      else case s of [] \<Rightarrow> None | c # s \<Rightarrow> if c = f then scan_format fs s else None)"

section \<open>The functions\<close>

definition currentTicks :: "target \<Rightarrow> ('f, 'd) arithmetic \<Rightarrow> readings \<Rightarrow> u64" where
  "currentTicks T F M =
     (if apple T \<and> \<not> x86_64 T then rd_mach_time M
      else if win32 T then rd_counter M
      else if x86_64 T then ucast (rd_eax M) OR push_bit 32 (ucast (rd_edx M))
      else let (tv_sec, tv_nsec) = rd_clock M
        in u64_of_f64 F (f64_add F (f64_mul F (f64_of_f32 F (f32_of_s64 F tv_sec)) (f64_lit F 1 9))
          (f64_of_f32 F (f32_of_s64 F tv_nsec))))"

definition tickUnits :: "target \<Rightarrow> string" where
  "tickUnits T =
     (if apple T \<and> \<not> x86_64 T then ''ns''
      else if win32_gnu T \<or> x86_64 T then ''cycles''
      else ''ns'')"

text \<open>
  One line of \<open>/proc/cpuinfo\<close>: the value it gives, if any. The branch for MHz divides by the
  variable \<open>GHz\<close>, which nothing has assigned then.
\<close>

definition cpu_line :: "('f, 'd) arithmetic \<Rightarrow> string \<Rightarrow> timer_error + 'd option" where
  "cpu_line F input =
     (if strstr input ''model name'' \<noteq> None then
        (case strstr input ''@'' of
          None \<Rightarrow> Inr None
        | Some at_sign \<Rightarrow>
            let after_at = tl at_sign in
            case strstr after_at ''GHz'' of
              Some GHz_str \<Rightarrow>
                (case f32_scan F (cut_at after_at GHz_str) of
                  Some GHz \<Rightarrow> Inr (Some (f64_of_f32 F (f32_div F (f32_lit F 1 (- 9)) GHz)))
                | None \<Rightarrow> Inr None)
            | None \<Rightarrow>
                (case strstr after_at ''MHz'' of
                  Some MHz_str \<Rightarrow>
                    (case f32_scan F (cut_at after_at MHz_str) of
                      Some MHz \<Rightarrow> Inl ReadUninitialised
                    | None \<Rightarrow> Inr None)
                | None \<Rightarrow> Inr None))
      else
        (case Option.bind (scan_format ''cpu MHz : '' input) (f32_scan F) of
          Some MHz \<Rightarrow> Inr (Some (f64_of_f32 F (f32_div F (f32_lit F 1 (- 6)) MHz)))
        | None \<Rightarrow> Inr None))"

text \<open>The loop over the lines of the file; the buffer has 1024 characters.\<close>

function cpuinfo_loop :: "('f, 'd) arithmetic \<Rightarrow> 'd \<Rightarrow> string \<Rightarrow> timer_error + 'd" where
  "cpuinfo_loop F secondsPerTick_val fp =
     (if fp = [] then Inr secondsPerTick_val
      else let (input, fp) = fgets 1024 fp in
        case cpu_line F (c_str input) of
          Inl e \<Rightarrow> Inl e
        | Inr (Some v) \<Rightarrow> Inr v
        | Inr None \<Rightarrow> cpuinfo_loop F secondsPerTick_val fp)"
  by auto

termination
  by (relation "measure (\<lambda>(F, v, fp). length fp)") (auto simp: fgets_def Let_def)

declare cpuinfo_loop.simps [simp del]

record 'd timer =
  initialized :: bool
  seconds_val :: 'd

definition secondsPerTick ::
  "target \<Rightarrow> ('f, 'd) arithmetic \<Rightarrow> readings \<Rightarrow> 'd timer \<Rightarrow> timer_error + 'd \<times> 'd timer" where
  "secondsPerTick T F M st =
     (if initialized st then Inr (seconds_val st, st)
      else
        let val =
          (if apple T then
             if x86_64 T then
               (case rd_cpu_freq M of
                 None \<Rightarrow> Inl Exit
               | Some Hz \<Rightarrow> Inr (f64_div F (f64_lit F 1 0) (f64_of_u32 F Hz)))
             else let (numer, denom) = rd_mach_base M
               in Inr (f64_div F (f64_mul F (f64_lit F 1 (- 9)) (f64_of_u32 F numer)) (f64_of_u32 F denom))
           else if win32 T then Inr (f64_div F (f64_lit F 1 0) (f64_of_s64 F (rd_counter_freq M)))
           else
             (case rd_cpuinfo M of
               None \<Rightarrow> Inl Exit
             | Some fp \<Rightarrow> cpuinfo_loop F (f64_lit F 1 (- 9)) fp))
        in case val of
          Inl e \<Rightarrow> Inl e
        | Inr v \<Rightarrow> Inr (v, st\<lparr>initialized := True, seconds_val := v\<rparr>))"

definition currentSeconds ::
  "target \<Rightarrow> ('f, 'd) arithmetic \<Rightarrow> readings \<Rightarrow> 'd timer \<Rightarrow> timer_error + 'd \<times> 'd timer" where
  "currentSeconds T F M st =
     (case secondsPerTick T F M st of
       Inl e \<Rightarrow> Inl e
     | Inr (v, st) \<Rightarrow> Inr (f64_mul F (f64_of_u64 F (currentTicks T F M)) v, st))"

definition ticksPerSecond ::
  "target \<Rightarrow> ('f, 'd) arithmetic \<Rightarrow> readings \<Rightarrow> 'd timer \<Rightarrow> timer_error + 'd \<times> 'd timer" where
  "ticksPerSecond T F M st =
     (case secondsPerTick T F M st of
       Inl e \<Rightarrow> Inl e
     | Inr (v, st) \<Rightarrow> Inr (f64_div F (f64_lit F 1 0) v, st))"

definition msPerTick ::
  "target \<Rightarrow> ('f, 'd) arithmetic \<Rightarrow> readings \<Rightarrow> 'd timer \<Rightarrow> timer_error + 'd \<times> 'd timer" where
  "msPerTick T F M st =
     (case secondsPerTick T F M st of
       Inl e \<Rightarrow> Inl e
     | Inr (v, st) \<Rightarrow> Inr (f64_mul F v (f64_lit F 1000 0), st))"

section \<open>Strings\<close>

lemma strstr_None: "hd pat \<notin> set s \<Longrightarrow> pat \<noteq> [] \<Longrightarrow> strstr s pat = None"
  by (induction s) (auto simp: neq_Nil_conv take_Cons')

lemma strstr_first:
  assumes "pat \<noteq> []" "hd pat \<notin> set xs"
  shows "strstr (xs @ pat @ ys) pat = Some (pat @ ys)"
  using assms(2)
proof (induction xs)
  case Nil
  then show ?case using assms(1) by (cases pat) auto
next
  case (Cons x xs)
  then show ?case using assms(1) by (auto simp: neq_Nil_conv)
qed

lemma cut_at_append [simp]: "cut_at (xs @ ys) ys = xs"
  by (simp add: cut_at_def)

lemma c_str_id: "CHR 0x00 \<notin> set s \<Longrightarrow> c_str s = s"
  unfolding c_str_def by (auto simp: takeWhile_eq_all_conv)

section \<open>Files of short lines\<close>

text \<open>Lines that fit the buffer, each with its newline.\<close>

definition short_line :: "string \<Rightarrow> bool" where
  "short_line l \<longleftrightarrow> newline \<notin> set l \<and> length l < 1023"

definition file_of :: "string list \<Rightarrow> string" where
  "file_of ls = concat (map (\<lambda>l. l @ [newline]) ls)"

lemma fgets_line: "short_line l \<Longrightarrow> fgets 1024 ((l @ [newline]) @ rest) = (l @ [newline], rest)"
proof -
  assume l: "short_line l"
  then have "takeWhile (\<lambda>c. c \<noteq> newline) (l @ newline # rest) = l"
    by (auto simp: short_line_def takeWhile_tail)
  with l show ?thesis by (simp add: fgets_def short_line_def)
qed

text \<open>The reference: the first line that decides.\<close>

primrec first_value :: "('f, 'd) arithmetic \<Rightarrow> string list \<Rightarrow> timer_error + 'd" where
  "first_value F [] = Inr (f64_lit F 1 (- 9))"
| "first_value F (l # ls) =
     (case cpu_line F (c_str (l @ [newline])) of
       Inl e \<Rightarrow> Inl e | Inr (Some v) \<Rightarrow> Inr v | Inr None \<Rightarrow> first_value F ls)"

lemma cpuinfo_loop_lines:
  "\<forall>l \<in> set ls. short_line l \<Longrightarrow> cpuinfo_loop F (f64_lit F 1 (- 9)) (file_of ls) = first_value F ls"
proof (induction ls)
  case Nil
  then show ?case by (simp add: file_of_def cpuinfo_loop.simps)
next
  case (Cons l ls)
  have "file_of (l # ls) = (l @ [newline]) @ file_of ls" by (simp add: file_of_def)
  with Cons fgets_line [of l "file_of ls"] show ?case
    by (simp add: cpuinfo_loop.simps [of F _ "l @ newline # file_of ls"] split: sum.split option.split)
qed

lemma first_value_append:
  "\<forall>l \<in> set pre. cpu_line F (c_str (l @ [newline])) = Inr None \<Longrightarrow> first_value F (pre @ ls) = first_value F ls"
  by (induction pre) simp_all

lemma seconds_linux:
  assumes "\<not> apple T" "\<not> win32 T" "\<not> initialized st"
    and "rd_cpuinfo M = Some (file_of ls)" "\<forall>l \<in> set ls. short_line l"
  shows "secondsPerTick T F M st =
    map_sum id (\<lambda>v. (v, st\<lparr>initialized := True, seconds_val := v\<rparr>)) (first_value F ls)"
  using assms by (simp add: secondsPerTick_def cpuinfo_loop_lines Let_def split: sum.split)

text \<open>A line with the name of the processor and its frequency.\<close>

definition model_line :: "string \<Rightarrow> string \<Rightarrow> string \<Rightarrow> string \<Rightarrow> string" where
  "model_line d n u r = ''model name'' @ d @ ''@'' @ n @ u @ r"

lemma cpu_line_model:
  assumes "CHR ''@'' \<notin> set d" "CHR ''G'' \<notin> set n" "CHR ''M'' \<notin> set n" "f32_scan F n = Some x"
  shows "cpu_line F (model_line d n ''GHz'' r) = Inr (Some (f64_of_f32 F (f32_div F (f32_lit F 1 (- 9)) x)))"
    and "CHR ''G'' \<notin> set r \<Longrightarrow> cpu_line F (model_line d n ''MHz'' r) = Inl ReadUninitialised"
proof -
  have name: "strstr (model_line d n u r) ''model name'' \<noteq> None" for u r
    by (simp add: model_line_def)
  have at: "strstr (model_line d n u r) ''@'' = Some (''@'' @ n @ u @ r)" for u r
    using strstr_first [of "''@''" "''model name'' @ d" "n @ u @ r"] assms(1) by (simp add: model_line_def)
  have ghz: "strstr (n @ ''GHz'' @ r) ''GHz'' = Some (''GHz'' @ r)"
    using assms(2) by (intro strstr_first) auto
  then show "cpu_line F (model_line d n ''GHz'' r) =
      Inr (Some (f64_of_f32 F (f32_div F (f32_lit F 1 (- 9)) x)))"
    using name at assms(4) cut_at_append [of n "''GHz'' @ r"] by (simp add: cpu_line_def del: cut_at_append)
  assume "CHR ''G'' \<notin> set r"
  then have "strstr (n @ ''MHz'' @ r) ''GHz'' = None"
    using assms(2) by (intro strstr_None) auto
  moreover have "strstr (n @ ''MHz'' @ r) ''MHz'' = Some (''MHz'' @ r)"
    using assms(3) by (intro strstr_first) auto
  ultimately show "cpu_line F (model_line d n ''MHz'' r) = Inl ReadUninitialised"
    using name at assms(4) cut_at_append [of n "''MHz'' @ r"] by (simp add: cpu_line_def del: cut_at_append)
qed

lemma model_line_end: "model_line d n u r @ [newline] = model_line d n u (r @ [newline])"
  by (simp add: model_line_def)

section \<open>Ticks\<close>

lemma currentTicks_rdtsc:
  assumes "x86_64 T" "\<not> win32 T"
  shows "unat (currentTicks T F M) = 2 ^ 32 * unat (rd_edx M) + unat (rd_eax M)"
proof -
  let ?hi = "push_bit 32 (ucast (rd_edx M)) :: u64" and ?lo = "ucast (rd_eax M) :: u64"
  have lo: "unat ?lo = unat (rd_eax M)"
    using unat_lt_numerals(3) [of "rd_eax M"] by (simp add: unsigned_ucast_eq take_bit_nat_eq_self)
  have hi: "unat ?hi = 2 ^ 32 * unat (rd_edx M)"
    using unat_lt_numerals(3) [of "rd_edx M"]
    by (simp add: push_bit_eq_mult unat_word_ariths unsigned_ucast_eq take_bit_nat_eq_self)
  have "?lo AND ?hi = 0"
    by (rule bit_word_eqI) (auto simp: bit_simps dest: bit_imp_le_length)
  then have "?lo OR ?hi = ?lo + ?hi" by (simp add: disjunctive_add_eq_or)
  then show ?thesis
    using assms lo hi unat_lt_numerals(3) [of "rd_edx M"] unat_lt_numerals(3) [of "rd_eax M"]
    by (simp add: currentTicks_def unat_word_ariths)
qed

section \<open>A concrete instance\<close>

text \<open>Exact fractions, of which \<open>%f\<close> reads the decimal digits.\<close>

definition digits_value :: "string \<Rightarrow> rat" where
  "digits_value s = foldl (\<lambda>v c. 10 * v + of_nat (of_char c - 48)) 0 s"

definition fractions :: "(rat, rat) arithmetic" where
  "fractions = \<lparr>f32_lit = \<lambda>m e. of_int m * 10 powi e, f32_div = (/), f32_of_s64 = of_int \<circ> sint,
     f32_scan = (\<lambda>s. let ds = takeWhile (\<lambda>c. c \<in> set ''0123456789'') (dropWhile isspace s)
       in if ds = [] then None else Some (digits_value ds)),
     f64_lit = \<lambda>m e. of_int m * 10 powi e, f64_add = (+), f64_mul = (*), f64_div = (/), f64_of_f32 = id,
     f64_of_u32 = of_nat \<circ> unat, f64_of_s64 = of_int \<circ> sint, f64_of_u64 = of_nat \<circ> unat,
     u64_of_f64 = of_int \<circ> floor\<rparr>"

definition linux_pc :: target where
  "linux_pc = \<lparr>apple = False, win32 = False, win32_gnu = False, x86_64 = True\<rparr>"

definition read_lines :: "string list \<Rightarrow> readings" where
  "read_lines ls = \<lparr>rd_edx = 1, rd_eax = 2, rd_mach_time = 0, rd_mach_base = (1, 1), rd_counter = 0,
     rd_counter_freq = 1, rd_clock = (0, 0), rd_cpu_freq = None, rd_cpuinfo = Some (file_of ls)\<rparr>"

definition timer_start :: "rat timer" where
  "timer_start = \<lparr>initialized = False, seconds_val = 0\<rparr>"

definition demo_cpu :: "string \<Rightarrow> string list" where
  "demo_cpu u = [''processor : 0'', model_line '' : X2 '' '' 800'' u [], ''flags : fpu'']"

lemma demo_cpu_short: "length u < 100 \<Longrightarrow> newline \<notin> set u \<Longrightarrow> \<forall>l \<in> set (demo_cpu u). short_line l"
  by (auto simp: demo_cpu_def short_line_def model_line_def newline_def)

lemma demo_cpu_first: "cpu_line fractions (c_str (''processor : 0'' @ [newline])) = Inr None"
  by code_simp

lemma demo_scan: "f32_scan fractions '' 800'' = Some 800"
  by code_simp

lemma demo_ghz:
  "f64_of_f32 fractions (f32_div fractions (f32_lit fractions 1 (- 9)) 800) = 1 / 800000000000"
  by (simp add: fractions_def power_int_minus)

section \<open>Properties\<close>

text \<open>
  The scale of the timer on Linux. If the lines of \<open>/proc/cpuinfo\<close> fit the buffer of 1024
  characters, the first call of \<open>secondsPerTick\<close> gives the value of the first line that decides,
  10 to the -9 if there is none, and every later call gives the same value, whatever the file
  says then.
\<close>

lemma timer_scale:
  assumes "\<not> apple T" "\<not> win32 T" "\<not> initialized st"
    and "rd_cpuinfo M = Some (file_of ls)" "\<forall>l \<in> set ls. short_line l"
  shows "map_sum id fst (secondsPerTick T F M st) = first_value F ls \<and>
    (secondsPerTick T F M st = Inr (v, st') \<longrightarrow> secondsPerTick T F M' st' = Inr (v, st'))"
proof -
  have "secondsPerTick T F M' st' = Inr (v, st')" if "secondsPerTick T F M st = Inr (v, st')"
  proof -
    from that seconds_linux [OF assms, of F] have "initialized st' \<and> seconds_val st' = v"
      by (cases "first_value F ls") auto
    then show ?thesis by (simp add: secondsPerTick_def)
  qed
  moreover have "map_sum id fst (secondsPerTick T F M st) = first_value F ls"
    unfolding seconds_linux [OF assms] by (cases "first_value F ls") simp_all
  ultimately show ?thesis by blast
qed

lemma timer_scale_witness:
  "map_sum id fst (secondsPerTick linux_pc fractions (read_lines (demo_cpu ''GHz'')) timer_start) =
     Inr (1 / 800000000000)"
proof -
  have "c_str (model_line '' : X2 '' '' 800'' ''GHz'' [] @ [newline]) = model_line '' : X2 '' '' 800'' ''GHz'' [newline]"
    by code_simp
  moreover have "cpu_line fractions (model_line '' : X2 '' '' 800'' ''GHz'' [newline]) =
      Inr (Some (f64_of_f32 fractions (f32_div fractions (f32_lit fractions 1 (- 9)) 800)))"
    by (rule cpu_line_model(1) [OF _ _ _ demo_scan]) simp_all
  ultimately have "cpu_line fractions (c_str (model_line '' : X2 '' '' 800'' ''GHz'' [] @ [newline])) =
      Inr (Some (1 / 800000000000))"
    by (simp only: demo_ghz)
  then have "first_value fractions (demo_cpu ''GHz'') = Inr (1 / 800000000000)"
    using demo_cpu_first by (simp add: demo_cpu_def)
  with timer_scale [THEN conjunct1, of linux_pc timer_start "read_lines (demo_cpu ''GHz'')" _ fractions,
      OF _ _ _ _ demo_cpu_short]
  show ?thesis by (simp add: linux_pc_def timer_start_def read_lines_def newline_def)
qed

text \<open>
  C39. The branch for MHz of the first \<open>model name\<close> line with a frequency reads an uninitialised
  variable: a processor named \<open>... @ n GHz ...\<close> gives \<open>1e-9f / n\<close>, one named \<open>... @ n MHz ...\<close>
  undefined behaviour, whatever \<open>n\<close> is and whatever follows.
\<close>

theorem timer_model_name:
  assumes "\<not> apple T" "\<not> win32 T" "\<not> initialized st"
    and "rd_cpuinfo M = Some (file_of ls)" "\<forall>l \<in> set ls. short_line l"
    and "ls = pre @ model_line d n u r # post" "\<forall>l \<in> set pre. cpu_line F (c_str (l @ [newline])) = Inr None"
    and "CHR ''@'' \<notin> set d" "CHR ''G'' \<notin> set n" "CHR ''M'' \<notin> set n" "f32_scan F n = Some x"
    and "CHR 0x00 \<notin> set (d @ n @ r)" "u = ''GHz'' \<or> u = ''MHz'' \<and> CHR ''G'' \<notin> set r"
  shows "map_sum id fst (secondsPerTick T F M st) =
    (if u = ''GHz'' then Inr (f64_of_f32 F (f32_div F (f32_lit F 1 (- 9)) x)) else Inl ReadUninitialised)"
proof -
  have line: "c_str (model_line d n u r @ [newline]) = model_line d n u (r @ [newline])"
    unfolding model_line_end using assms(12,13)
    by (intro c_str_id) (auto simp: model_line_def newline_def)
  have "map_sum id fst (secondsPerTick T F M st) = first_value F ls"
    unfolding seconds_linux [OF assms(1-5)] by (cases "first_value F ls") simp_all
  also have "\<dots> = first_value F (model_line d n u r # post)"
    unfolding assms(6) by (rule first_value_append [OF assms(7)])
  finally show ?thesis
    using line assms(13) cpu_line_model [OF assms(8-11), of "r @ [newline]"] by (auto simp: newline_def)
qed

lemma timer_model_name_witness:
  "map_sum id fst (secondsPerTick linux_pc fractions (read_lines (demo_cpu ''MHz'')) timer_start) =
     Inl ReadUninitialised"
proof -
  have "demo_cpu ''MHz'' = [''processor : 0''] @ model_line '' : X2 '' '' 800'' ''MHz'' [] # [''flags : fpu'']"
    by (simp add: demo_cpu_def)
  from timer_model_name [OF _ _ _ _ demo_cpu_short this _ _ _ _ demo_scan,
      of linux_pc timer_start "read_lines (demo_cpu ''MHz'')"] demo_cpu_first
  show ?thesis by (simp add: linux_pc_def timer_start_def read_lines_def newline_def)
qed

end
