(* ===== verification/Spec2Isabelle.thy ===== *)
theory Spec2Isabelle
  imports Pointer_Utils Hash_Utils Utils Seq_Filter Seq_Conc Fine_Grained Fine_Grained_Conc
    Fine_Grained_Content Fine_Grained_Linear Fine_Grained_Overlap
    Lock_Free Lock_Free_Conc Lock_Free_Lifecycle
    Lock_Free_Solo Lock_Free_Races Lock_Free_Answers Lock_Free_Phases Lock_Free_Reclaim
    Lock_Free_Overlap Cycle_Timer
begin

text \<open>
  Verification of the cuckoo filters of \<open>src/cuckoo_filter\<close>.

  The program. Three implementations of one approximate set of byte strings: a filter under one
  global mutex (\<open>seq_filter\<close>), one under eight reader-writer mutexes
  (\<open>fine_grained_locked_filter\<close>), and one without locks (\<open>lock_free_filter\<close>), whose slots are
  64-bit words updated by compare-and-swap. Each keeps a table of buckets of four slots
  (\<open>common.h\<close>). A key is reduced to its MD5 digest, the fingerprint; its first bucket is
  the Jenkins hash of the key modulo the table size, its second one follows from the first and
  the Jenkins hash of the fingerprint (\<open>hash_utils\<close>). The lock-free filter packs a
  pointer to the fingerprint, a relocation counter and a mark into a slot (\<open>pointer_utils\<close>).
  \<open>utils\<close> makes random keys for the tests, \<open>cycle_timer.h\<close> times the benchmark.

  Theories and the code they model.

  \<^item> \<open>Prelude\<close>: machine words, cells of a table of rows, sums over a table.
  \<^item> \<open>Pointer_Utils\<close> (\<open>pointer_utils.h/.cpp\<close>): all functions on table pointers, bit by bit. Round
    trips of the three fields, independence of the updates, the printed form read back.
  \<^item> \<open>Hash_Utils\<close> (\<open>hash_utils.h/.cpp\<close>): the hashes, \<open>get_next_hash_index\<close> of the three filters.
    The partner of a bucket is an involution for powers of two and not in general; the integer
    hash is a bijection.
  \<^item> \<open>Utils\<close> (\<open>utils.h/.cpp\<close>): \<open>gen_random_string\<close>, with the read out of bounds as an error.
  \<^item> \<open>AMQ\<close>: the specification, a multiset of items with insertions, queries and removals as
    relations, and what histories of calls imply, in a locale. It is interpreted on the coarse,
    the fine-grained and the lock-free filter.
  \<^item> \<open>Common\<close> (\<open>common.h\<close>): constants, the scans over a bucket.
  \<^item> \<open>Seq_Filter\<close> (\<open>seq_filter.h/.cpp\<close>): operations are functions on a record, errors are a sum.
    Refinement of the multiset for powers of two. For every table size: the balance of the
    fingerprints over the life of a filter, from its construction through any calls, and the
    eviction after which a stored key is not found if the size is no power of two.
  \<^item> \<open>Call_Log\<close>: logs of the calls of several threads, and the histories of the functions of
    \<open>Seq_Filter\<close> that they describe; what a query in a history says.
  \<^item> \<open>Seq_Conc\<close> (\<open>seq_filter.cpp\<close> again): the same operations as programs of single actions that lock
    and unlock \<open>mtx\<close>, run by interleaved threads. They are linearizable: the actions amount to a
    history of calls of \<open>Seq_Filter\<close>, in the order in which the threads took the mutex. So the
    functions of \<open>Seq_Filter\<close> say what threads see. Bounded calls, no deadlock, answers of queries.
  \<^item> \<open>Fine_Grained\<close> (\<open>fine_grained_locked_filter.h/.cpp\<close>): an operation is a tree of lock, slot and
    \<open>rand\<close> actions. Run alone it equals the coarse filter's.
  \<^item> \<open>Interleaving\<close>: steps, reachability and schedules of threads that share a state; a locale for
    invariants proved thread by thread, and one for bounding the actions of a thread by a budget.
  \<^item> \<open>Bookkeeping\<close>: auxiliary state beside the shared one, which the actions update and do not read;
    a locale for assertions of each thread that the others' updates preserve.
  \<^item> \<open>Fine_Grained_Conc\<close>, \<open>Fine_Grained_Content\<close>: the fine-grained operations interleaved. Lock
    discipline, no deadlock, bounded calls; the data race of the replacement phase of \<open>insert\<close> and
    a query that misses a stored key because of it; what the table holds until then.
    Any operation that is such a program is run in a loop over a thread's calls by \<open>fg_calls\<close>,
    which \<open>Seq_Conc\<close> shares.
  \<^item> \<open>Fine_Grained_Logic\<close>: a logic for such threads, a locale over what a thread tolerates from the
    others and the effect of its calls; it is interpreted in the next two theories.
  \<^item> \<open>Fine_Grained_Linear\<close>: \<open>find\<close> and \<open>remove\<close> of the fine-grained filter are linearizable as long
    as nobody inserts, although they hold the mutexes of their two buckets one after the other. A
    miss takes effect in the second bucket; until then the fingerprint cannot come back.
  \<^item> \<open>Fine_Grained_Overlap\<close>: all three operations of the fine-grained filter interleaved as long as no
    insertion has begun to evict, that is, \<open>rand\<close> has not been called. There is no data race,
    nothing is lost or duplicated, and queries find what was there and what the thread inserted.
  \<^item> \<open>Lock_Free\<close> (\<open>lock_free_filter.h/.cpp\<close>): \<open>find\<close>, \<open>insert\<close>, \<open>remove\<close>, \<open>relocate\<close>,
    \<open>help_relocate\<close>, \<open>retire_pointer\<close> and the parts of them as trees of atomic actions: loads,
    compare-and-swaps, allocation, dereferencing, writes of hazard pointers and retired lists.
    Local variables, gotos and retry loops follow the code.
  \<^item> \<open>Lock_Free_Lifecycle\<close> (same files): constructors, destructor, \<open>reset\<close>, \<open>size\<close>,
    \<open>change_verbose\<close>, \<open>free_hazard_pointers\<close>.
  \<^item> \<open>Lock_Free_Conc\<close>: any interleaving of any calls. No access out of range or through a dangling
    pointer; immutable entries, counters that never decrease.
  \<^item> \<open>Lock_Free_Solo\<close>: calls that do not overlap return and implement the multiset of items; what
    is left of a filter after \<open>reset\<close>, with capacity 0 too.
  \<^item> \<open>Lock_Free_Phases\<close>: \<open>find\<close> and \<open>remove\<close> interleaved while nobody inserts. They are wait-free,
    answer as the multiset says, and retire each entry at most once.
  \<^item> \<open>Lock_Free_Reclaim\<close>: \<open>free_hazard_pointers\<close> and the destructor after such a phase. No entry is
    deleted twice or while the table holds it; entries still on a retired list leak.
  \<^item> \<open>Lock_Free_Book\<close>, \<open>Lock_Free_Mixed\<close>, \<open>Lock_Free_Overlap\<close>: \<open>insert\<close>, \<open>find\<close> and \<open>remove\<close>
    interleaved in any way while nothing has to be evicted. The book records what each thread has
    put into the table and removed from it, and which slots have been used; a logic of budgets
    over it gives bounded calls, conservation of the items and the answers of the calls. With
    \<open>Lock_Free_Phases\<close> it covers the two phases of \<open>test_lock_free.cpp\<close>: all threads insert, then
    all threads query.
  \<^item> \<open>Lock_Free_Answers\<close>: under any interleaving of any calls, evictions and races included, a
    positive answer is for an item that was in the table at the start or is inserted in the run:
    pointers stay in the buckets of their items.
  \<^item> \<open>Lock_Free_Races\<close>: schedules under which concurrent insertions and removals go wrong: a mark
    that is never taken back and blocks every search that comes to it, an insertion that is lost, a key removed
    twice; and the abort when a relocation counter is used up.
  \<^item> \<open>Cycle_Timer\<close> (\<open>cycle_timer.h\<close>): \<open>CycleTimer\<close> for every target of its conditional compilation.
    The scale read from \<open>/proc/cpuinfo\<close> and kept; the uninitialised variable in the MHz branch.

  State. The records \<open>seq_filter\<close>, \<open>fg_filter\<close> and \<open>lf_filter\<close> have the fields of the classes;
  \<open>lf_filter\<close> also has the live heap entries and a count of readings of the clock. A free slot
  is an empty string in the locked filters and a null pointer in the lock-free one. Items, the
  abstraction, are pairs of a fingerprint and its set of two buckets.

  Bounds and fuel. Loops of the code with a constant bound are structural recursions over that
  bound; \<open>relocate\<close>'s path has at most \<open>NUM_MAX_KICKS\<close> entries. The retry loops of the lock-free
  filter have no bound and take fuel; running out is a result of its own, never a success. Alone,
  37 rounds suffice for \<open>insert\<close> and one for \<open>find\<close> and \<open>remove\<close>; without concurrent insertions,
  9 rounds suffice under every schedule and a call takes at most 318 actions. Nothing has to be
  evicted (\<open>roomy\<close>) if each inserted key has a bucket for which at most four of the items in the
  table and of those to be inserted are destined. Then slots change at most \<open>m\<close> times, the items
  in the table and twice those to be inserted; more than \<open>m\<close> rounds suffice, and a call takes at
  most \<open>35 m + 38\<close> actions. A fine-grained call takes at most 104, a coarse-grained one 82. The
  statements on all interleavings hold for every fuel; those on calls that never return hold for
  every fuel too.

  Parameters. \<open>evp\<close> is OpenSSL's MD5; no theorem needs it to be injective, the counterexamples
  choose an easy one. \<open>rnd\<close> gives the results of \<open>rand\<close>. \<open>env_alloc\<close> is the allocator, which may
  fail; \<open>env_ok\<close> says that it returns even, fresh, non-null addresses below two to the 48.
  \<open>env_shuffle\<close> is the shuffle seeded by the clock; \<open>env_ok\<close> says it permutes the four slots.
  The timer takes the readings of the machine and the floating point arithmetic.

  Not modelled. Atomic actions are sequentially consistent: the code uses the default order for
  its atomics, but the hazard pointers and retired lists are plain memory. The heap entries are
  never reused while threads run, because the code never frees them then. A string slot of the
  locked filters is read and written as a whole: the two accesses of \<open>std::swap\<close> in the replacement
  phase of the fine-grained \<open>insert\<close> are one read and one write, so torn or corrupt strings after a
  data race are not shown. Statements on fine-grained runs after a race (a missed key, the table
  in \<open>Fine_Grained_Content\<close>) are about this interleaving semantics only; the theorems of
  \<open>Fine_Grained_Linear\<close> and \<open>Fine_Grained_Overlap\<close> are about runs without a race. Printing under
  \<open>verbose\<close> and the destructors of the locked filters, which only print, are left out, as are the
  class macros, which only delete constructors, and the test and benchmark drivers. For concurrent
  insertions that evict, only memory safety, the invariant of \<open>Lock_Free_Conc\<close> and the cause of
  positive answers are proved of the lock-free filter: \<open>Lock_Free_Races\<close> and \<open>Fine_Grained_Conc\<close>
  show that the other properties fail there.
\<close>

end
